(* ===== verification/KPrelude.thy ===== *)
theory KPrelude
  imports Main "HOL-Library.Word"
begin

text \<open>
  Shared vocabulary of the development: the machine integer types of the
  sources (all of rastapopoulos is built for 32-bit x86), the faults that stop
  a run, the result type of fallible operations with its sequencing operator,
  and the word and list lemmas the component theories share.
\<close>

unbundle bit_operations_syntax

section \<open>Machine types\<close>

type_synonym u8 = "8 word"
type_synonym u16 = "16 word"
type_synonym u32 = "32 word"
type_synonym u64 = "64 word"

text \<open>Pointers are 32-bit addresses; \<open>0\<close> is \<open>NULL\<close>.\<close>

type_synonym ptr = u32

abbreviation NULL :: ptr where "NULL \<equiv> 0"

section \<open>Faults and results\<close>

text \<open>
  How a run can stop: a failed \<open>assert\<close>, a \<open>panic\<close> and a direct \<open>abort\<close> (all
  three end in \<open>reboot\<close> in the sources), a call of \<open>reboot\<close> itself, a loop that never
  ends, and an access or shift whose effect C leaves undefined (reading outside an
  array, shifting by at least the width).
\<close>

datatype fault = Assert_Failed | Panic | Abort | Reboot | Diverge | Undefined

type_synonym 'a res = "fault + 'a"

definition res_bind :: "'a res \<Rightarrow> ('a \<Rightarrow> 'b res) \<Rightarrow> 'b res" where
  "res_bind m f = (case m of Inl e \<Rightarrow> Inl e | Inr x \<Rightarrow> f x)"

definition assert_then :: "bool \<Rightarrow> 'a res \<Rightarrow> 'a res" where
  "assert_then b r = (if b then r else Inl Assert_Failed)"

named_theorems res_simps \<open>equations of the result type\<close>

lemma res_bind_Inr [simp]: "res_bind (Inr x) f = f x"
  by (simp add: res_bind_def)

lemma res_bind_Inl [simp]: "res_bind (Inl e) f = Inl e"
  by (simp add: res_bind_def)

lemma res_bind_eq_Inr [res_simps]:
  "res_bind m f = Inr y \<longleftrightarrow> (\<exists>x. m = Inr x \<and> f x = Inr y)"
  by (cases m) auto

lemma res_bind_assoc: "res_bind (res_bind m f) g = res_bind m (\<lambda>x. res_bind (f x) g)"
  by (cases m) auto

lemma assert_then_True [simp]: "assert_then True r = r"
  by (simp add: assert_then_def)

lemma assert_then_False [simp]: "assert_then False r = Inl Assert_Failed"
  by (simp add: assert_then_def)

lemma assert_then_eq_Inr [res_simps]: "assert_then b r = Inr y \<longleftrightarrow> b \<and> r = Inr y"
  by (simp add: assert_then_def)

text \<open>The result of a loop that may not end, as a result.\<close>

definition loop_result :: "'a res option \<Rightarrow> 'a res" where
  "loop_result r = (case r of None \<Rightarrow> Inl Diverge | Some x \<Rightarrow> x)"

lemma loop_result_simps [simp]:
  "loop_result None = Inl Diverge" "loop_result (Some x) = x"
  by (simp_all add: loop_result_def)

text \<open>
  A counting loop that leaves on the first index whose test holds, the test being
  one that can fault.
\<close>

primrec for_find :: "('i \<Rightarrow> bool res) \<Rightarrow> 'i list \<Rightarrow> 'i option res" where
  "for_find test [] = Inr None"
| "for_find test (i # is) = res_bind (test i) (\<lambda>b. if b then Inr (Some i) else for_find test is)"

lemma for_find_pure:
  "(\<And>i. i \<in> set is \<Longrightarrow> test i = Inr (P i)) \<Longrightarrow> for_find test is = Inr (List.find P is)"
  by (induction "is") auto

lemma for_find_append:
  "for_find test (is @ js) =
     res_bind (for_find test is) (\<lambda>r. case r of None \<Rightarrow> for_find test js | Some i \<Rightarrow> Inr (Some i))"
proof (induction "is")
  case (Cons i "is")
  then show ?case by (cases "test i") auto
qed simp

lemma for_find_upt:
  assumes "a \<le> m" "m < b" "\<And>i. a \<le> i \<Longrightarrow> i < m \<Longrightarrow> test i = Inr False"
  shows "for_find test [a..<b] = res_bind (test m) (\<lambda>t. if t then Inr (Some m) else for_find test [Suc m..<b])"
proof -
  have "[a..<b] = [a..<m] @ m # [Suc m..<b]"
    using assms(1,2) by (metis upt_add_eq_append upt_conv_Cons le_add_diff_inverse less_imp_le)
  moreover have "for_find test [a..<m] = Inr (List.find (\<lambda>_. False) [a..<m])"
    using assms(3) by (intro for_find_pure) auto
  moreover have "List.find (\<lambda>_. False) [a..<m] = None" by (simp add: find_None_iff)
  ultimately show ?thesis by (simp add: for_find_append)
qed

lemma find_upt_Some:
  "List.find P [a..<b] = Some i \<longleftrightarrow> a \<le> i \<and> i < b \<and> P i \<and> (\<forall>j. a \<le> j \<and> j < i \<longrightarrow> \<not> P j)"
  (is "?l \<longleftrightarrow> ?r")
proof
  assume ?l
  then obtain k where k: "k < b - a" "P (a + k)" "i = a + k" "\<forall>j<k. \<not> P (a + j)"
    by (auto simp: find_Some_iff)
  have "\<not> P j" if "a \<le> j" "j < i" for j
    using k(4) [rule_format, of "j - a"] k(3) that by simp
  with k show ?r by auto
next
  assume r: ?r
  then show ?l
    by (auto simp: find_Some_iff intro!: exI [of _ "i - a"])
qed

lemma find_upt_None: "List.find P [a..<b] = None \<longleftrightarrow> (\<forall>i. a \<le> i \<and> i < b \<longrightarrow> \<not> P i)"
  by (auto simp: find_None_iff)

section \<open>Words\<close>

lemma bit_imp_le_length32: "bit (w :: u32) i \<Longrightarrow> i < 32"
  using bit_imp_le_length [of w i] by simp

lemma unat_lt32 [simp]: "unat (w :: u32) < 4294967296"
  using unsigned_less [of w] by simp

lemma u32_eqI: "(\<And>i. i < 32 \<Longrightarrow> bit (a :: u32) i = bit b i) \<Longrightarrow> a = b"
  by (rule bit_word_eqI) simp

lemma bit_two_power [simp]: "bit (2 ^ n :: u32) i \<longleftrightarrow> i = n \<and> n < 32"
  by (auto simp: bit_exp_iff)

lemma and_two_power: "(w :: u32) AND 2 ^ n = 0 \<longleftrightarrow> \<not> bit w n"
proof -
  have "bit (w AND 2 ^ n) i \<longleftrightarrow> i = n \<and> bit w n" for i
    using bit_imp_le_length32 [of w i] by (auto simp: bit_and_iff)
  then show ?thesis by (metis bit_0_eq bot_apply bot_bool_def bit_eqI)
qed

text \<open>Clearing the low \<open>k\<close> bits is rounding down to a multiple of \<open>2 ^ k\<close>.\<close>

lemma and_not_mask_eq_push_drop:
  "(w :: 'a::len word) AND NOT (mask k) = push_bit k (drop_bit k w)"
  by (rule bit_word_eqI) (auto simp: bit_simps)

lemma unat_and_not_mask:
  "unat ((w :: 'a::len word) AND NOT (mask k)) = unat w div 2 ^ k * 2 ^ k"
proof -
  have "unat (w AND NOT (mask k)) = take_bit LENGTH('a) (push_bit k (drop_bit k (unat w)))"
    by (simp only: and_not_mask_eq_push_drop unsigned_push_bit_eq unat_drop_bit_eq)
  also have "\<dots> = unat w div 2 ^ k * 2 ^ k mod 2 ^ LENGTH('a)"
    by (simp only: take_bit_eq_mod push_bit_eq_mult drop_bit_eq_div)
  also have "\<dots> = unat w div 2 ^ k * 2 ^ k"
    by (rule mod_less, rule le_less_trans [OF div_times_less_eq_dividend unsigned_less])
  finally show ?thesis .
qed

lemma unat_and_mask: "unat ((w :: 'a::len word) AND mask k) = unat w mod 2 ^ k"
proof -
  have "unat (w AND mask k) = take_bit k (unat w)"
    by (simp only: take_bit_eq_mask [symmetric] unsigned_take_bit_eq)
  then show ?thesis by (simp only: take_bit_eq_mod)
qed

lemma unat_add_small:
  "unat a + unat b < 2 ^ LENGTH('a) \<Longrightarrow> unat ((a :: 'a::len word) + b) = unat a + unat b"
  by (simp add: unat_word_ariths)

lemma unat_add32: "unat a + unat b < 4294967296 \<Longrightarrow> unat ((a :: u32) + b) = unat a + unat b"
  by (simp add: unat_word_ariths)

lemma unat_sub32: "unat b \<le> unat a \<Longrightarrow> unat ((a :: u32) - b) = unat a - unat b"
  by (simp add: unat_sub word_le_nat_alt)

section \<open>Lists\<close>

lemma list_update_same_nth: "i < length xs \<Longrightarrow> xs ! i = v \<Longrightarrow> xs[i := v] = xs"
  by auto

end
