(* ===== verification/Util.thy ===== *)
theory Util
  imports KPrelude
begin

text \<open>
  The macros and inline functions of \<open>common/util.h\<close> and the hash of
  \<open>common/util.c\<close>: alignment, byte and double-word selection, the power-of-two
  helpers and the sdbm hash that message checksums are built from.
\<close>

section \<open>Definitions\<close>

definition LOBYTE :: "u32 \<Rightarrow> u32" where
  "LOBYTE i = i AND 0xFF"

definition HIBYTE :: "u32 \<Rightarrow> u32" where
  "HIBYTE i = drop_bit 8 (i AND 0xFF00)"

definition LODWORD :: "u64 \<Rightarrow> u32" where
  "LODWORD i = ucast (i AND 0xFFFFFFFF)"

definition HIDWORD :: "u64 \<Rightarrow> u32" where
  "HIDWORD i = ucast (drop_bit 32 (i AND 0xFFFFFFFF00000000))"

definition MAKE_UINT64 :: "u32 \<Rightarrow> u32 \<Rightarrow> u64" where
  "MAKE_UINT64 lo hi = ucast lo OR push_bit 32 (ucast hi)"

definition ALIGN :: "u32 \<Rightarrow> u32 \<Rightarrow> u32" where
  "ALIGN val align = (val + (align - 1)) AND NOT (align - 1)"

definition TRUNCATE :: "u32 \<Rightarrow> u32 \<Rightarrow> u32" where
  "TRUNCATE val align = (val div align) * align"

definition IS_ALIGNED :: "u32 \<Rightarrow> u32 \<Rightarrow> bool" where
  "IS_ALIGNED val align \<longleftrightarrow> val mod align = 0"

definition is_pow2 :: "u32 \<Rightarrow> bool" where
  "is_pow2 v \<longleftrightarrow> v \<noteq> 0 \<and> v AND (v - 1) = 0"

text \<open>The five \<open>v |= v >> k\<close> statements that \<open>log2\<close> and \<open>next_pow2\<close> share.\<close>

definition smear :: "u32 \<Rightarrow> u32" where
  "smear v =
     (let v1 = v OR drop_bit 1 v;
          v2 = v1 OR drop_bit 2 v1;
          v3 = v2 OR drop_bit 4 v2;
          v4 = v3 OR drop_bit 8 v3
      in v4 OR drop_bit 16 v4)"

definition MultiplyDeBruijnBitPosition :: "int list" where
  "MultiplyDeBruijnBitPosition =
     [0, 9, 1, 10, 13, 21, 2, 29, 11, 14, 16, 18, 22, 25, 3, 30,
      8, 12, 20, 28, 15, 17, 24, 7, 19, 27, 23, 6, 26, 5, 4, 31]"

definition log2 :: "u32 \<Rightarrow> int" where
  "log2 v = MultiplyDeBruijnBitPosition ! unat (drop_bit 27 (smear v * 0x07C4ACDD))"

definition next_pow2 :: "u32 \<Rightarrow> u32" where
  "next_pow2 v = smear (v - 1) + 1"

fun hash2 :: "u8 list \<Rightarrow> u32 \<Rightarrow> u32" where
  "hash2 [] h = h"
| "hash2 (c # cs) h = hash2 cs (ucast c + push_bit 6 h + push_bit 16 h - h)"

definition hash :: "u8 list \<Rightarrow> u32" where
  "hash data = hash2 data 0"

section \<open>Powers of two as words\<close>

lemma unat_pow2:
  assumes "k < 32"
  shows "unat (2 ^ k :: u32) = 2 ^ k"
proof -
  have "(2::nat) ^ k < 2 ^ 32" using assms by (rule power_strict_increasing) simp
  then have "unat (of_nat (2 ^ k) :: u32) = 2 ^ k" by (simp only: unat_of_nat) simp
  then show ?thesis by simp
qed

lemma unat_mask32: "k < 32 \<Longrightarrow> unat (mask k :: u32) = 2 ^ k - 1"
  by (simp add: mask_eq_exp_minus_1 unat_sub32 unat_pow2)

lemma bit_nat_imp_le: "bit (n::nat) j \<Longrightarrow> 2 ^ j \<le> n"
  by (metis bit_iff_odd div_less even_zero not_less)

lemma pow2_bracket: "v \<noteq> 0 \<Longrightarrow> \<exists>n<32. 2 ^ n \<le> unat (v::u32) \<and> unat v < 2 ^ Suc n"
proof -
  assume "v \<noteq> 0"
  then have "0 < unat v" by (simp add: unat_gt_0)
  then obtain n where n: "2 ^ n \<le> unat v" "unat v < 2 ^ Suc n"
    using ex_power_ivl1 [of 2 "unat v"] by auto
  have "(2::nat) ^ n < 2 ^ 32" by (rule le_less_trans [OF n(1)]) simp
  then have "n < 32" by (rule power_less_imp_less_exp [rotated]) simp
  with n show ?thesis by blast
qed

section \<open>Alignment\<close>

lemma unat_ALIGN:
  assumes "k < 32" "unat val + 2 ^ k - 1 < 2 ^ 32"
  shows "unat (ALIGN val (2 ^ k)) = (unat val + 2 ^ k - 1) div 2 ^ k * 2 ^ k"
proof -
  have "unat (val + mask k) = unat val + 2 ^ k - 1"
    using assms by (subst unat_add_small) (simp_all add: unat_mask32)
  then show ?thesis
    by (simp add: ALIGN_def mask_eq_exp_minus_1 [symmetric] unat_and_not_mask)
qed

lemma round_up_bounds:
  fixes n d :: nat
  assumes "0 < d"
  shows "n \<le> (n + d - 1) div d * d" "(n + d - 1) div d * d < n + d"
proof -
  have "(n + d - 1) div d * d + (n + d - 1) mod d = n + d - 1"
    by simp
  moreover have "(n + d - 1) mod d < d" using assms by simp
  ultimately show "n \<le> (n + d - 1) div d * d" "(n + d - 1) div d * d < n + d"
    using assms by linarith+
qed

text \<open>
  Further: \<open>ALIGN\<close> with a power of two rounds up to the next multiple: when the sum does
  not leave the 32-bit range, the result is a multiple of the alignment, at least the
  value, and less than one alignment unit above it.
\<close>

theorem ALIGN_rounds_up:
  assumes "k < 32" "unat val + 2 ^ k - 1 < 2 ^ 32"
  shows "2 ^ k dvd unat (ALIGN val (2 ^ k))
    \<and> unat val \<le> unat (ALIGN val (2 ^ k))
    \<and> unat (ALIGN val (2 ^ k)) < unat val + 2 ^ k"
  using round_up_bounds [of "2 ^ k" "unat val"] by (simp add: unat_ALIGN [OF assms])

theorem ALIGN_rounds_up_witness:
  "2 ^ 12 dvd unat (ALIGN 0x1234 (2 ^ 12))
    \<and> unat (0x1234 :: u32) \<le> unat (ALIGN 0x1234 (2 ^ 12))
    \<and> unat (ALIGN 0x1234 (2 ^ 12)) < unat (0x1234 :: u32) + 2 ^ 12"
  by (rule ALIGN_rounds_up) simp_all

lemma IS_ALIGNED_iff: "IS_ALIGNED val align \<longleftrightarrow> unat align dvd unat val"
  by (simp add: IS_ALIGNED_def dvd_eq_mod_eq_0 word_unat_eq_iff unat_mod_distrib)

lemma unat_TRUNCATE: "unat (TRUNCATE val align) = unat val div unat align * unat align"
proof -
  have "unat val div unat align * unat align < 2 ^ LENGTH(32)"
    by (rule le_less_trans [OF div_times_less_eq_dividend unsigned_less])
  then show ?thesis
    by (simp only: TRUNCATE_def unat_div_distrib [symmetric] unat_mult_lem)
qed

section \<open>Double words\<close>

lemma lodword_mask: "(0xFFFFFFFF :: u64) = mask 32" "(0xFFFFFFFF00000000 :: u64) = push_bit 32 (mask 32)"
  by (simp_all add: mask_eq_exp_minus_1)

lemma LODWORD_MAKE: "LODWORD (MAKE_UINT64 lo hi) = lo"
  unfolding LODWORD_def MAKE_UINT64_def lodword_mask
  by (rule bit_word_eqI) (auto simp: bit_simps)

lemma HIDWORD_MAKE: "HIDWORD (MAKE_UINT64 lo hi) = hi"
  unfolding HIDWORD_def MAKE_UINT64_def lodword_mask
  by (rule bit_word_eqI) (auto simp: bit_simps dest: bit_imp_le_length32)

lemma MAKE_LO_HI: "MAKE_UINT64 (LODWORD x) (HIDWORD x) = x"
  unfolding HIDWORD_def LODWORD_def MAKE_UINT64_def lodword_mask
  by (rule bit_word_eqI) (auto simp: bit_simps)

section \<open>Powers of two: \<open>is_pow2\<close>, \<open>log2\<close>, \<open>next_pow2\<close>\<close>

text \<open>\<open>w\<close> holds, at every position, the disjunction of \<open>n\<close> neighbouring bits of \<open>v\<close>.\<close>

definition smears :: "u32 \<Rightarrow> nat \<Rightarrow> u32 \<Rightarrow> bool" where
  "smears v n w \<longleftrightarrow> (\<forall>i. bit w i \<longleftrightarrow> (\<exists>j<n. bit v (i + j)))"

lemma smears_step: "smears v n w \<Longrightarrow> smears v (2 * n) (w OR drop_bit n w)"
proof -
  assume a: "smears v n w"
  have "(\<exists>j<n. bit v (n + i + j)) \<longleftrightarrow> (\<exists>j. n \<le> j \<and> j < n + n \<and> bit v (i + j))" for i
    by (metis (no_types, lifting) add.assoc add.commute add_less_cancel_left le_Suc_ex le_add1)
  then have "bit (w OR drop_bit n w) i \<longleftrightarrow> (\<exists>j<2 * n. bit v (i + j))" for i
    using a by (simp add: smears_def bit_simps mult_2) (meson le_less_linear trans_less_add1)
  then show ?thesis by (simp add: smears_def)
qed

lemma bit_smear: "bit (smear v) i \<longleftrightarrow> (\<exists>j<32. bit v (i + j))"
proof -
  have "smears v 1 v" by (simp add: smears_def)
  note smears_step [OF this]
  note smears_step [OF this]
  note smears_step [OF this]
  note smears_step [OF this]
  note smears_step [OF this]
  then have "smears v 32 (smear v)"
    by (simp only: smear_def Let_def mult_1_right numeral_times_numeral mult_num_simps)
  then show ?thesis by (simp add: smears_def)
qed

lemma bit_smear_ge: "bit (smear v) i \<longleftrightarrow> (\<exists>j\<ge>i. bit v j)"
proof
  assume "\<exists>j\<ge>i. bit v j"
  then obtain j where j: "i \<le> j" "bit v j" by blast
  then have "bit v (i + (j - i))" "j - i < 32"
    using bit_imp_le_length32 [of v j] by auto
  then show "bit (smear v) i" unfolding bit_smear by blast
next
  assume "bit (smear v) i"
  then show "\<exists>j\<ge>i. bit v j" unfolding bit_smear by (meson le_add1)
qed

lemma smear_mask:
  assumes "2 ^ n \<le> unat v" "unat v < 2 ^ Suc n"
  shows "smear v = mask (Suc n)"
proof (rule bit_word_eqI)
  fix i assume "i < LENGTH(32)"
  have hi: "j \<le> n" if "bit v j" for j
  proof -
    have "(2::nat) ^ j < 2 ^ Suc n"
      using bit_nat_imp_le [of "unat v" j] that assms(2) by (simp add: bit_unsigned_iff)
    then have "j < Suc n" by (rule power_less_imp_less_exp [rotated]) simp
    then show ?thesis by simp
  qed
  have "unat v div 2 ^ n = 1" using assms by (simp add: div_nat_eqI)
  then have "bit (unat v) n" by (simp add: bit_iff_odd)
  then have "bit v n" by (simp add: bit_unsigned_iff)
  with hi show "bit (smear v) i = bit (mask (Suc n) :: u32) i"
    unfolding bit_smear_ge bit_mask_iff using \<open>i < LENGTH(32)\<close> by (auto simp: less_Suc_eq_le intro: le_trans)
qed

lemma log2_table:
  assumes "n < 32"
  shows "MultiplyDeBruijnBitPosition ! unat (drop_bit 27 ((mask (Suc n) :: u32) * 0x07C4ACDD)) = int n"
proof -
  have "\<forall>n\<in>set [0..<32]. MultiplyDeBruijnBitPosition !
      unat (drop_bit 27 ((mask (Suc n) :: u32) * 0x07C4ACDD)) = int n"
    by code_simp
  then show ?thesis using assms by simp
qed

text \<open>
  Further: the multiply-and-lookup \<open>log2\<close> is the integer logarithm: for \<open>v\<close> between
  \<open>2 ^ n\<close> and \<open>2 ^ (n + 1) - 1\<close> it returns \<open>n\<close>.
\<close>

theorem log2_correct:
  assumes "2 ^ n \<le> unat v" "unat v < 2 ^ Suc n"
  shows "log2 v = int n"
proof -
  have "(2::nat) ^ n < 2 ^ 32" by (rule le_less_trans [OF assms(1)]) simp
  then have "n < 32" by (rule power_less_imp_less_exp [rotated]) simp
  then show ?thesis by (simp only: log2_def smear_mask [OF assms] log2_table)
qed

theorem log2_correct_witness: "log2 0x80001 = int 19"
  by (rule log2_correct) simp_all

lemma smear_0: "smear 0 = 0"
  by (simp add: smear_def)

lemma is_pow2_iff: "is_pow2 v \<longleftrightarrow> (\<exists>n<32. v = 2 ^ n)"
proof
  assume "is_pow2 v"
  then have nz: "v \<noteq> 0" and and0: "v AND (v - 1) = 0" by (auto simp: is_pow2_def)
  obtain n where n: "n < 32" "2 ^ n \<le> unat v" "unat v < 2 ^ Suc n"
    using pow2_bracket [OF nz] by blast
  have "unat v = 2 ^ n"
  proof (rule ccontr)
    assume "unat v \<noteq> 2 ^ n"
    with n have "2 ^ n \<le> unat v - 1" "unat v - 1 < 2 ^ Suc n" by linarith+
    then have "(unat v - 1) div 2 ^ n = 1" "unat v div 2 ^ n = 1" using n by (simp_all add: div_nat_eqI)
    then have "bit (unat (v - 1)) n" "bit (unat v) n"
      using nz by (simp_all add: bit_iff_odd unat_minus_one)
    then have "bit (v AND (v - 1)) n" by (simp add: bit_unsigned_iff bit_simps)
    with and0 show False by simp
  qed
  then have "v = 2 ^ n" using n(1) by (metis unat_pow2 unsigned_word_eqI)
  with n(1) show "\<exists>n<32. v = 2 ^ n" by blast
next
  assume "\<exists>n<32. v = 2 ^ n"
  then obtain n where n: "n < 32" "v = 2 ^ n" by blast
  then have "v - 1 = mask n" by (simp add: mask_eq_exp_minus_1)
  moreover have "v \<noteq> 0" using n unat_pow2 [of n] by auto
  moreover have "(2 ^ n :: u32) AND mask n = 0"
    by (rule bit_word_eqI) (auto simp: bit_simps)
  ultimately show "is_pow2 v" using n by (simp add: is_pow2_def)
qed

lemma unat_next_pow2:
  assumes "unat v \<le> 2 ^ n" "2 ^ n < 2 * unat v" "n < 32"
  shows "unat (next_pow2 v) = 2 ^ n"
proof (cases n)
  case 0
  with assms have "unat v = unat (1::u32)" by simp
  then have "v = 1" by (simp only: word_unat_eq_iff)
  then show ?thesis using 0 by (simp add: next_pow2_def smear_0)
next
  case (Suc m)
  have "v \<noteq> 0" using assms by auto
  then have "unat (v - 1) = unat v - 1" by (rule unat_minus_one)
  with assms Suc have "2 ^ m \<le> unat (v - 1)" "unat (v - 1) < 2 ^ Suc m" by auto
  then have "smear (v - 1) = mask n" using Suc by (simp only: smear_mask)
  then have "next_pow2 v = 2 ^ n" by (simp add: next_pow2_def mask_eq_exp_minus_1)
  then show ?thesis using assms by (simp add: unat_pow2)
qed

section \<open>The hash\<close>

lemma hash2_append: "hash2 (xs @ ys) h = hash2 ys (hash2 xs h)"
  by (induction xs h rule: hash2.induct) auto

lemma hash_step: "ucast c + push_bit 6 h + push_bit 16 h - h = ucast c + 65599 * (h::u32)"
  by (simp add: push_bit_eq_mult algebra_simps)

end
