(* ===== verification/LinkedList.thy ===== *)
theory LinkedList
  imports KPrelude
begin

text \<open>
  The intrusive doubly linked lists of \<open>common/list.h\<close>. Every listed structure
  embeds a \<open>next\<close>/\<open>prev\<close> pair; the store \<open>links\<close> holds that pair for every
  address, and a list header holds the addresses of the first and last element.
  The macros are modelled on the pointers; \<open>dll\<close> says which HOL list a header
  represents, and the operations are shown to refine append and removal on it.
\<close>

section \<open>Headers, nodes and the macros\<close>

record node =
  next_ptr :: ptr
  prev_ptr :: ptr

type_synonym links = "ptr \<Rightarrow> node"

record list_header =
  head :: ptr
  tail :: ptr

definition detached :: node where
  "detached = \<lparr>next_ptr = NULL, prev_ptr = NULL\<rparr>"

definition list_init :: list_header where
  "list_init = \<lparr>head = NULL, tail = NULL\<rparr>"

definition list_empty :: "list_header \<Rightarrow> bool" where
  "list_empty l \<longleftrightarrow> head l = NULL"

definition list_next :: "links \<Rightarrow> ptr \<Rightarrow> ptr" where
  "list_next lk e = next_ptr (lk e)"

definition list_prev :: "links \<Rightarrow> ptr \<Rightarrow> ptr" where
  "list_prev lk e = prev_ptr (lk e)"

definition set_next :: "links \<Rightarrow> ptr \<Rightarrow> ptr \<Rightarrow> links" where
  "set_next lk e p = lk(e := (lk e)\<lparr>next_ptr := p\<rparr>)"

definition set_prev :: "links \<Rightarrow> ptr \<Rightarrow> ptr \<Rightarrow> links" where
  "set_prev lk e p = lk(e := (lk e)\<lparr>prev_ptr := p\<rparr>)"

definition list_append :: "links \<Rightarrow> list_header \<Rightarrow> ptr \<Rightarrow> links \<times> list_header" where
  "list_append lk l e =
     (if list_empty l then (lk, l\<lparr>head := e, tail := e\<rparr>)
      else
        let lk1 = set_next lk (tail l) e;
            lk2 = set_prev lk1 e (tail l);
            lk3 = set_next lk2 e NULL
        in (lk3, l\<lparr>tail := e\<rparr>))"

definition list_remove :: "links \<Rightarrow> list_header \<Rightarrow> ptr \<Rightarrow> links \<times> list_header" where
  "list_remove lk l e =
     (let lk1 = (if list_prev lk e \<noteq> NULL
                 then set_next lk (list_prev lk e) (list_next lk e) else lk);
          lk2 = (if list_next lk1 e \<noteq> NULL
                 then set_prev lk1 (list_next lk1 e) (list_prev lk1 e) else lk1);
          l1 = (if head l = e then l\<lparr>head := list_next lk2 e\<rparr> else l);
          l2 = (if tail l1 = e then l1\<lparr>tail := list_prev lk2 e\<rparr> else l1);
          lk3 = set_prev lk2 e NULL;
          lk4 = set_next lk3 e NULL
      in (lk4, l2))"

text \<open>
  \<open>list_foreach\<close>: the successor is read before the body runs, so the body may
  unlink the current element. The body returns whether it executed \<open>break\<close>;
  \<open>lk\<close> reads the links of the state the body works on.
\<close>

partial_function (option) foreach_loop ::
  "('s \<Rightarrow> links) \<Rightarrow> (ptr \<Rightarrow> 's \<Rightarrow> (bool \<times> 's) res) \<Rightarrow> ptr \<Rightarrow> ptr \<Rightarrow> 's \<Rightarrow> 's res option"
where
  "foreach_loop lk body it foreach_next s =
     (if it = NULL then Some (Inr s)
      else (case body it s of
              Inl e \<Rightarrow> Some (Inl e)
            | Inr (brk, s') \<Rightarrow>
                if brk then Some (Inr s')
                else foreach_loop lk body foreach_next
                       (if foreach_next \<noteq> NULL then list_next (lk s') foreach_next else NULL) s'))"

definition list_foreach ::
  "('s \<Rightarrow> links) \<Rightarrow> list_header \<Rightarrow> (ptr \<Rightarrow> 's \<Rightarrow> (bool \<times> 's) res) \<Rightarrow> 's \<Rightarrow> 's res"
where
  "list_foreach lk l body s =
     loop_result (foreach_loop lk body (head l)
       (if head l \<noteq> NULL then list_next (lk s) (head l) else NULL) s)"

section \<open>Which list a header represents\<close>

definition first_or :: "ptr list \<Rightarrow> ptr \<Rightarrow> ptr" where
  "first_or xs d = (case xs of [] \<Rightarrow> d | x # _ \<Rightarrow> x)"

definition last_or :: "ptr list \<Rightarrow> ptr \<Rightarrow> ptr" where
  "last_or xs d = (if xs = [] then d else last xs)"

text \<open>A chain of nodes \<open>xs\<close> entered from \<open>p\<close> and leaving to \<open>n\<close>.\<close>

primrec seg :: "links \<Rightarrow> ptr \<Rightarrow> ptr list \<Rightarrow> ptr \<Rightarrow> bool" where
  "seg lk p [] n \<longleftrightarrow> True"
| "seg lk p (x # xs) n \<longleftrightarrow>
     prev_ptr (lk x) = p \<and> next_ptr (lk x) = first_or xs n \<and> seg lk x xs n"

definition dll :: "links \<Rightarrow> list_header \<Rightarrow> ptr list \<Rightarrow> bool" where
  "dll lk l xs \<longleftrightarrow>
     distinct xs \<and> NULL \<notin> set xs \<and> seg lk NULL xs NULL \<and>
     head l = first_or xs NULL \<and> tail l = last_or xs NULL"

lemma first_or_simps [simp]: "first_or [] d = d" "first_or (x # xs) d = x"
  by (simp_all add: first_or_def)

lemma last_or_simps [simp]: "last_or [] d = d" "last_or (xs @ [x]) d = x"
  "last_or (x # xs) d = last_or xs x"
  by (simp_all add: last_or_def)

lemma first_or_append [simp]: "first_or (xs @ ys) d = first_or xs (first_or ys d)"
  by (cases xs) simp_all

lemma last_or_append [simp]: "last_or (xs @ ys) d = last_or ys (last_or xs d)"
  by (simp add: last_or_def)

lemma first_or_mem: "first_or xs d \<in> set xs \<or> (xs = [] \<and> first_or xs d = d)"
  by (cases xs) auto

lemma last_or_mem: "last_or xs d \<in> set xs \<or> (xs = [] \<and> last_or xs d = d)"
  by (simp add: last_or_def)

lemma seg_append:
  "seg lk p (xs @ ys) n \<longleftrightarrow> seg lk p xs (first_or ys n) \<and> seg lk (last_or xs p) ys n"
  by (induction xs arbitrary: p) auto

lemma seg_frame:
  "(\<And>x. x \<in> set xs \<Longrightarrow> lk' x = lk x) \<Longrightarrow> seg lk' p xs n = seg lk p xs n"
  by (induction xs arbitrary: p) auto

lemma dll_frame:
  "dll lk l xs \<Longrightarrow> (\<And>x. x \<in> set xs \<Longrightarrow> lk' x = lk x) \<Longrightarrow> dll lk' l xs"
  unfolding dll_def using seg_frame [of xs lk' lk] by simp

lemma dll_init: "dll lk list_init []"
  by (simp add: dll_def list_init_def)

lemma dll_list_empty: "dll lk l xs \<Longrightarrow> list_empty l \<longleftrightarrow> xs = []"
  by (cases xs) (auto simp: dll_def list_empty_def)

lemma dll_head: "dll lk l (x # xs) \<Longrightarrow> head l = x"
  by (simp add: dll_def)

lemma seg_unique:
  assumes "seg lk p xs NULL" "seg lk p ys NULL" "NULL \<notin> set xs" "NULL \<notin> set ys"
    "first_or xs NULL = first_or ys NULL"
  shows "xs = ys"
  using assms
proof (induction xs arbitrary: p ys)
  case Nil
  then show ?case by (cases ys) auto
next
  case (Cons x xs)
  then obtain zs where ys: "ys = x # zs" by (cases ys) auto
  have "xs = zs"
    using Cons.prems unfolding ys by (intro Cons.IH [of x]) simp_all
  then show ?case by (simp add: ys)
qed

lemma dll_unique:
  assumes "dll lk l xs" "dll lk l ys"
  shows "xs = ys"
  by (rule seg_unique [of lk NULL]) (use assms in \<open>simp_all add: dll_def\<close>)

section \<open>Append and removal refine their list counterparts\<close>

definition linkable :: "links \<Rightarrow> ptr \<Rightarrow> bool" where
  "linkable lk e \<longleftrightarrow> e \<noteq> NULL \<and> lk e = detached"

lemma node_clear [simp]: "r\<lparr>prev_ptr := NULL, next_ptr := NULL\<rparr> = detached" for r :: node
  by (rule node.equality) (simp_all add: detached_def)

lemma dll_append:
  assumes "dll lk l xs" "linkable lk e" "e \<notin> set xs" "list_append lk l e = (lk', l')"
  shows "dll lk' l' (xs @ [e])"
proof (cases xs rule: rev_cases)
  case Nil
  with assms show ?thesis
    by (auto simp: list_append_def list_empty_def dll_def linkable_def detached_def)
next
  case (snoc ys t)
  have t: "tail l = t" "t \<noteq> e" "t \<notin> set ys" "t \<noteq> NULL"
    using assms snoc by (auto simp: dll_def)
  have ne: "\<not> list_empty l" using assms(1) snoc by (simp add: dll_list_empty)
  have lk': "lk' = lk(t := (lk t)\<lparr>next_ptr := e\<rparr>, e := \<lparr>next_ptr = NULL, prev_ptr = t\<rparr>)"
    and l': "l' = l\<lparr>tail := e\<rparr>"
    using assms(4) ne t by (auto simp: list_append_def Let_def set_next_def set_prev_def)
  have "seg lk' NULL ys t = seg lk NULL ys t"
    by (rule seg_frame) (use assms snoc t in \<open>auto simp: lk'\<close>)
  with assms snoc t show ?thesis
    by (auto simp: dll_def seg_append lk' l' linkable_def)
qed

lemma list_append_frame:
  assumes "list_append lk l e = (lk', l')" "dll lk l xs" "z \<notin> set xs" "z \<noteq> e"
  shows "lk' z = lk z"
proof (cases xs rule: rev_cases)
  case Nil
  with assms show ?thesis by (auto simp: list_append_def dll_list_empty)
next
  case (snoc ys t)
  then have "tail l = t" using assms(2) by (simp add: dll_def)
  moreover have "\<not> list_empty l" using assms(2) snoc by (simp add: dll_list_empty)
  ultimately show ?thesis using assms snoc
    by (auto simp: list_append_def Let_def set_next_def set_prev_def)
qed


lemma list_remove_effect:
  assumes "dll lk l (ys @ e # zs)" "list_remove lk l e = (lk', l')"
  defines "p \<equiv> last_or ys NULL" and "n \<equiv> first_or zs NULL"
  shows "lk' x =
      (if x = e then detached
       else if x = p \<and> p \<noteq> NULL then (lk x)\<lparr>next_ptr := n\<rparr>
       else if x = n \<and> n \<noteq> NULL then (lk x)\<lparr>prev_ptr := p\<rparr>
       else lk x)"
    and "head l' = (if ys = [] then n else head l)"
    and "tail l' = (if zs = [] then p else tail l)"
proof -
  have e: "prev_ptr (lk e) = p" "next_ptr (lk e) = n" "e \<noteq> NULL"
    using assms(1) by (auto simp: dll_def seg_append p_def n_def)
  have d: "e \<notin> set ys" "e \<notin> set zs" "set ys \<inter> set zs = {}" "NULL \<notin> set ys"
    "head l = first_or ys e" "tail l = last_or zs e"
    using assms(1) by (auto simp: dll_def)
  have mem: "p = NULL \<or> p \<in> set ys" "n = NULL \<or> n \<in> set zs"
    using last_or_mem [of ys NULL] first_or_mem [of zs NULL] by (auto simp: p_def n_def)
  have pn: "p \<noteq> e" "n \<noteq> e" "p = n \<longrightarrow> p = NULL"
    using d(1-3) mem e(3) by blast+
  have hd: "head l = e \<longleftrightarrow> ys = []" and tl: "tail l = e \<longleftrightarrow> zs = []"
    using d first_or_mem [of ys e] last_or_mem [of zs e] by (cases ys; cases zs rule: rev_cases; auto)+
  define lk1 where "lk1 = (if p \<noteq> NULL then set_next lk p n else lk)"
  define lk2 where "lk2 = (if n \<noteq> NULL then set_prev lk1 n p else lk1)"
  define l1 where "l1 = (if ys = [] then l\<lparr>head := n\<rparr> else l)"
  have lk1: "lk1 e = lk e" and lk2: "lk2 e = lk e"
    using pn by (simp_all add: lk1_def lk2_def set_next_def set_prev_def)
  have "list_remove lk l e =
      (lk2(e := detached), if zs = [] then l1\<lparr>tail := p\<rparr> else l1)"
    unfolding list_remove_def list_next_def list_prev_def e lk1_def [symmetric] Let_def
      lk1 lk2_def [symmetric] lk2 hd l1_def [symmetric]
    by (simp add: l1_def tl set_next_def set_prev_def)
  then have lk': "lk' = lk2(e := detached)" and l': "l' = (if zs = [] then l1\<lparr>tail := p\<rparr> else l1)"
    using assms(2) by simp_all
  show "lk' x =
      (if x = e then detached
       else if x = p \<and> p \<noteq> NULL then (lk x)\<lparr>next_ptr := n\<rparr>
       else if x = n \<and> n \<noteq> NULL then (lk x)\<lparr>prev_ptr := p\<rparr>
       else lk x)"
    using pn by (auto simp: lk' lk1_def lk2_def set_next_def set_prev_def)
  show "head l' = (if ys = [] then n else head l)" "tail l' = (if zs = [] then p else tail l)"
    by (simp_all add: l' l1_def)
qed

lemma seg_cong:
  "(\<And>x. x \<in> set xs \<Longrightarrow> lk' x = lk x) \<Longrightarrow> seg lk p xs n \<Longrightarrow> seg lk' p xs n"
  using seg_frame by blast

lemma seg_set_next_last:
  "seg lk p (ys @ [t]) n \<Longrightarrow> distinct (ys @ [t]) \<Longrightarrow>
     seg (lk(t := (lk t)\<lparr>next_ptr := m\<rparr>)) p (ys @ [t]) m"
  by (auto simp: seg_append intro: seg_cong [of ys _ lk])

lemma dll_remove:
  assumes "dll lk l xs" "e \<in> set xs" "list_remove lk l e = (lk', l')"
  shows "dll lk' l' (remove1 e xs)"
proof -
  obtain ys zs where xs: "xs = ys @ e # zs" using assms(2) by (auto simp: in_set_conv_decomp)
  define p n where "p = last_or ys NULL" and "n = first_or zs NULL"
  have d: "distinct (ys @ e # zs)" "NULL \<notin> set (ys @ e # zs)"
    and sy: "seg lk NULL ys e" and sz: "seg lk e zs NULL"
    and ends: "head l = first_or ys e" "tail l = last_or zs e"
    using assms(1) by (auto simp: dll_def seg_append xs)
  note eff = list_remove_effect [OF assms(1) [unfolded xs] assms(3), folded p_def n_def]
  have "seg lk' NULL ys n"
  proof (cases ys rule: rev_cases)
    case (snoc us t)
    then have t: "p = t" "t \<noteq> NULL" "t \<noteq> e" using d by (auto simp: p_def)
    have "seg (lk(t := (lk t)\<lparr>next_ptr := n\<rparr>)) NULL ys n"
      using seg_set_next_last [of lk NULL us t e n] sy d snoc by simp
    moreover have "lk' x = (lk(t := (lk t)\<lparr>next_ptr := n\<rparr>)) x" if "x \<in> set ys" for x
      using that d first_or_mem [of zs NULL] t by (auto simp: eff(1) n_def)
    ultimately show ?thesis by (intro seg_cong [of ys lk']) auto
  qed simp
  moreover have "seg lk' p zs NULL"
  proof (cases zs)
    case (Cons z ws)
    then have z: "n = z" "z \<noteq> NULL" "z \<noteq> e" "z \<noteq> p \<or> p = NULL"
      using d last_or_mem [of ys NULL] by (auto simp: n_def p_def)
    have "seg lk' z ws NULL"
      using sz Cons z d last_or_mem [of ys NULL]
      by (intro seg_cong [of ws lk' lk]) (auto simp: eff(1) p_def)
    with sz Cons z show ?thesis by (auto simp: eff(1))
  qed simp
  moreover have "remove1 e xs = ys @ zs" using d by (simp add: xs remove1_append)
  ultimately show ?thesis
    using d ends by (cases ys; cases zs) (auto simp: dll_def seg_append eff(2,3) p_def n_def)
qed

lemma list_remove_frame:
  assumes "list_remove lk l e = (lk', l')" "dll lk l xs" "e \<in> set xs" "z \<notin> set xs"
  shows "lk' z = lk z"
proof -
  obtain ys zs where xs: "xs = ys @ e # zs" using assms(3) by (auto simp: in_set_conv_decomp)
  show ?thesis
    using list_remove_effect(1) [OF assms(2) [unfolded xs] assms(1), of z] assms(4) xs
      last_or_mem [of ys NULL] first_or_mem [of zs NULL] by auto
qed

lemma list_remove_detaches:
  assumes "list_remove lk l e = (lk', l')" "dll lk l xs" "e \<in> set xs"
  shows "linkable lk' e"
proof -
  obtain ys zs where xs: "xs = ys @ e # zs" using assms(3) by (auto simp: in_set_conv_decomp)
  then show ?thesis
    using list_remove_effect(1) [OF assms(2) [unfolded xs] assms(1), of e] assms(2)
    by (auto simp: linkable_def dll_def)
qed

section \<open>\<open>list_foreach\<close> visits the elements in order and ends\<close>

text \<open>The iteration over the elements of a HOL list that a walk over the pointers performs.\<close>

fun foreach_fold :: "(ptr \<Rightarrow> 's \<Rightarrow> (bool \<times> 's) res) \<Rightarrow> ptr list \<Rightarrow> 's \<Rightarrow> 's res" where
  "foreach_fold body [] s = Inr s"
| "foreach_fold body (x # xs) s =
     (case body x s of
        Inl e \<Rightarrow> Inl e
      | Inr (brk, s') \<Rightarrow> if brk then Inr s' else foreach_fold body xs s')"

text \<open>
  The body may change the store, but not the successors of the elements still to be
  visited.
\<close>

fun keeps_successors :: "('s \<Rightarrow> links) \<Rightarrow> (ptr \<Rightarrow> 's \<Rightarrow> (bool \<times> 's) res) \<Rightarrow> ptr list \<Rightarrow> 's \<Rightarrow> bool" where
  "keeps_successors lk body [] s \<longleftrightarrow> True"
| "keeps_successors lk body (x # xs) s \<longleftrightarrow>
     (case body x s of
        Inl e \<Rightarrow> True
      | Inr (brk, s') \<Rightarrow>
          brk \<or> ((\<forall>y\<in>set xs. next_ptr (lk s' y) = next_ptr (lk s y))
                 \<and> keeps_successors lk body xs s'))"

primrec chain :: "links \<Rightarrow> ptr list \<Rightarrow> bool" where
  "chain lk [] \<longleftrightarrow> True"
| "chain lk (x # xs) \<longleftrightarrow> x \<noteq> NULL \<and> next_ptr (lk x) = first_or xs NULL \<and> chain lk xs"

lemma chain_cong:
  "(\<And>y. y \<in> set xs \<Longrightarrow> next_ptr (lk' y) = next_ptr (lk y)) \<Longrightarrow> chain lk xs \<Longrightarrow> chain lk' xs"
  by (induction xs) auto

lemma seg_chain: "seg lk p xs NULL \<Longrightarrow> NULL \<notin> set xs \<Longrightarrow> chain lk xs"
  by (induction xs arbitrary: p) auto

lemma foreach_loop_fold:
  assumes "chain (lk s) xs" "keeps_successors lk body xs s"
  shows "foreach_loop lk body (first_or xs NULL) (first_or (tl xs) NULL) s
           = Some (foreach_fold body xs s)"
  using assms
proof (induction xs arbitrary: s)
  case Nil
  then show ?case by (simp add: foreach_loop.simps)
next
  case (Cons x xs)
  show ?case
  proof (cases "body x s")
    case (Inl e)
    with Cons.prems show ?thesis by (subst foreach_loop.simps) simp
  next
    case (Inr r)
    obtain brk s' where r: "r = (brk, s')" by (cases r)
    show ?thesis
    proof (cases brk)
      case True
      with Cons.prems Inr r show ?thesis by (subst foreach_loop.simps) simp
    next
      case False
      with Cons.prems Inr r have succ: "\<forall>y\<in>set xs. next_ptr (lk s' y) = next_ptr (lk s y)"
        and keep: "keeps_successors lk body xs s'" by auto
      have ch: "chain (lk s') xs"
        using Cons.prems(1) succ by (intro chain_cong [of xs "lk s'" "lk s"]) auto
      have "(if first_or xs NULL \<noteq> NULL then list_next (lk s') (first_or xs NULL) else NULL)
              = first_or (tl xs) NULL"
        using ch by (cases xs) (auto simp: list_next_def)
      with Cons.IH [OF ch keep] Cons.prems Inr r False show ?thesis
        by (subst foreach_loop.simps) (simp split: if_splits)
    qed
  qed
qed

lemma list_foreach_fold:
  assumes "dll (lk s) l xs" "keeps_successors lk body xs s"
  shows "list_foreach lk l body s = foreach_fold body xs s"
proof -
  have ch: "chain (lk s) xs" using assms(1) by (auto simp: dll_def intro: seg_chain)
  have "(if head l \<noteq> NULL then list_next (lk s) (head l) else NULL) = first_or (tl xs) NULL"
    using ch assms(1) by (cases xs) (auto simp: list_next_def dll_def)
  moreover have "head l = first_or xs NULL" using assms(1) by (simp add: dll_def)
  ultimately show ?thesis
    by (simp add: list_foreach_def foreach_loop_fold [OF ch assms(2)])
qed

text \<open>A loop whose body never changes the links: the common search loop.\<close>

definition find_body :: "(ptr \<Rightarrow> bool) \<Rightarrow> ptr \<Rightarrow> links \<times> ptr \<Rightarrow> (bool \<times> links \<times> ptr) res" where
  "find_body P x s = (if P x then Inr (True, fst s, x) else Inr (False, s))"

text \<open>\<open>list_find lk l P\<close>: the first element satisfying \<open>P\<close>, or \<open>NULL\<close>.\<close>

definition list_find :: "links \<Rightarrow> list_header \<Rightarrow> (ptr \<Rightarrow> bool) \<Rightarrow> ptr res" where
  "list_find lk l P = res_bind (list_foreach fst l (find_body P) (lk, NULL)) (\<lambda>s. Inr (snd s))"

lemma keeps_successors_find: "keeps_successors fst (find_body P) xs s"
  by (induction xs) (simp_all add: find_body_def)

lemma foreach_fold_find:
  "foreach_fold (find_body P) xs (lk, q) =
     Inr (lk, case find P xs of None \<Rightarrow> q | Some x \<Rightarrow> x)"
  by (induction xs) (simp_all add: find_body_def)

lemma list_find_eq:
  "dll lk l xs \<Longrightarrow> list_find lk l P = Inr (case find P xs of None \<Rightarrow> NULL | Some x \<Rightarrow> x)"
  by (simp add: list_find_def list_foreach_fold [of fst "(lk, NULL)" l xs] keeps_successors_find
      foreach_fold_find)

section \<open>The interface the kernel's queues are built on\<close>

text \<open>
  Several lists can share one link store, as the three task queues of the scheduler
  do: an element sits in at most one of them because it has only one pair of links.
  The locale states what a list component promises to such a client: the lists
  an operation changes, and that every list without common elements stays as it was.
\<close>

locale list_store =
  fixes rep :: "'st \<Rightarrow> 'h \<Rightarrow> 'e list \<Rightarrow> bool"
    and free :: "'st \<Rightarrow> 'e \<Rightarrow> bool"
    and app :: "'st \<Rightarrow> 'h \<Rightarrow> 'e \<Rightarrow> 'st \<times> 'h"
    and rem :: "'st \<Rightarrow> 'h \<Rightarrow> 'e \<Rightarrow> 'st \<times> 'h"
  assumes rep_distinct: "rep st h xs \<Longrightarrow> distinct xs"
    and rep_unique: "rep st h xs \<Longrightarrow> rep st h ys \<Longrightarrow> xs = ys"
    and app_rep: "\<lbrakk>rep st h xs; free st e; e \<notin> set xs; app st h e = (st', h')\<rbrakk>
        \<Longrightarrow> rep st' h' (xs @ [e])"
    and app_other: "\<lbrakk>rep st h xs; rep st k ys; set xs \<inter> set ys = {}; e \<notin> set ys;
        app st h e = (st', h')\<rbrakk> \<Longrightarrow> rep st' k ys"
    and app_free: "\<lbrakk>rep st h xs; free st x; x \<notin> set xs; x \<noteq> e; app st h e = (st', h')\<rbrakk>
        \<Longrightarrow> free st' x"
    and rem_rep: "\<lbrakk>rep st h xs; e \<in> set xs; rem st h e = (st', h')\<rbrakk>
        \<Longrightarrow> rep st' h' (remove1 e xs)"
    and rem_other: "\<lbrakk>rep st h xs; rep st k ys; set xs \<inter> set ys = {}; e \<in> set xs;
        rem st h e = (st', h')\<rbrakk> \<Longrightarrow> rep st' k ys"
    and rem_free: "\<lbrakk>rep st h xs; e \<in> set xs; rem st h e = (st', h')\<rbrakk> \<Longrightarrow> free st' e"
    and rem_free_other: "\<lbrakk>rep st h xs; e \<in> set xs; free st x; x \<notin> set xs; rem st h e = (st', h')\<rbrakk>
        \<Longrightarrow> free st' x"
begin

text \<open>Moving an element from one list to the end of another, the step behind a wake-up.\<close>

lemma move_rep:
  assumes "rep st a xs" "rep st b ys" "set xs \<inter> set ys = {}" "e \<in> set xs"
    and "rem st a e = (st1, a1)" "app st1 b e = (st2, b2)"
  shows "rep st2 a1 (remove1 e xs) \<and> rep st2 b2 (ys @ [e])"
proof -
  have e: "e \<notin> set ys" "e \<notin> set (remove1 e xs)"
    using assms(1,3,4) rep_distinct by auto
  have a1: "rep st1 a1 (remove1 e xs)" using assms by (blast intro: rem_rep)
  have b1: "rep st1 b ys" using assms by (blast intro: rem_other)
  have fr: "free st1 e" using assms by (blast intro: rem_free)
  have "rep st2 b2 (ys @ [e])" using b1 fr e(1) assms(6) by (rule app_rep)
  moreover have "rep st2 a1 (remove1 e xs)"
    using b1 a1 _ e(2) assms(6)
    by (rule app_other) (use assms(3) set_remove1_subset [of e xs] in blast)
  ultimately show ?thesis by blast
qed

lemma move_other:
  assumes "rep st a xs" "rep st b ys" "rep st c zs" "set xs \<inter> set ys = {}" "e \<in> set xs"
    and "set xs \<inter> set zs = {}" "set ys \<inter> set zs = {}"
    and "rem st a e = (st1, a1)" "app st1 b e = (st2, b2)"
  shows "rep st2 c zs"
proof -
  have b1: "rep st1 b ys" using assms(1,2,4,5,8) by (blast intro: rem_other)
  have c1: "rep st1 c zs" using assms(1,3,6,5,8) by (blast intro: rem_other)
  show ?thesis using b1 c1 assms(7) _ assms(9)
    by (rule app_other) (use assms(5,6) in blast)
qed

end

lemma dll_append_other:
  assumes "dll lk h xs" "dll lk k ys" "set xs \<inter> set ys = {}" "e \<notin> set ys"
    and "list_append lk h e = (lk', h')"
  shows "dll lk' k ys"
  using assms(2) by (rule dll_frame) (use list_append_frame [OF assms(5,1)] assms(3,4) in blast)

lemma dll_remove_other:
  assumes "dll lk h xs" "dll lk k ys" "set xs \<inter> set ys = {}" "e \<in> set xs"
    and "list_remove lk h e = (lk', h')"
  shows "dll lk' k ys"
  using assms(2) by (rule dll_frame) (use list_remove_frame [OF assms(5,1,4)] assms(3) in blast)

interpretation ll: list_store dll linkable list_append list_remove
proof
  fix lk h xs ys k e lk' h' x
  show "dll lk h xs \<Longrightarrow> distinct xs" by (simp add: dll_def)
  show "dll lk h xs \<Longrightarrow> dll lk h ys \<Longrightarrow> xs = ys" by (rule dll_unique)
  show "\<lbrakk>dll lk h xs; linkable lk e; e \<notin> set xs; list_append lk h e = (lk', h')\<rbrakk>
      \<Longrightarrow> dll lk' h' (xs @ [e])" by (rule dll_append)
  show "\<lbrakk>dll lk h xs; dll lk k ys; set xs \<inter> set ys = {}; e \<notin> set ys;
      list_append lk h e = (lk', h')\<rbrakk> \<Longrightarrow> dll lk' k ys"
    by (rule dll_append_other)
  show "\<lbrakk>dll lk h xs; linkable lk x; x \<notin> set xs; x \<noteq> e; list_append lk h e = (lk', h')\<rbrakk>
      \<Longrightarrow> linkable lk' x" using list_append_frame [of lk h e lk' h' xs x] by (simp add: linkable_def)
  show "\<lbrakk>dll lk h xs; e \<in> set xs; list_remove lk h e = (lk', h')\<rbrakk> \<Longrightarrow> dll lk' h' (remove1 e xs)"
    by (rule dll_remove)
  show "\<lbrakk>dll lk h xs; dll lk k ys; set xs \<inter> set ys = {}; e \<in> set xs;
      list_remove lk h e = (lk', h')\<rbrakk> \<Longrightarrow> dll lk' k ys"
    by (rule dll_remove_other)
  show "\<lbrakk>dll lk h xs; e \<in> set xs; list_remove lk h e = (lk', h')\<rbrakk> \<Longrightarrow> linkable lk' e"
    using list_remove_detaches by blast
  show "\<lbrakk>dll lk h xs; e \<in> set xs; linkable lk x; x \<notin> set xs; list_remove lk h e = (lk', h')\<rbrakk>
      \<Longrightarrow> linkable lk' x" using list_remove_frame [of lk h e lk' h' xs x] by (simp add: linkable_def)
qed

section \<open>Properties\<close>

text \<open>
  C14: \<open>list_append\<close> on pointers is appending: a header that represents \<open>xs\<close> represents
  \<open>xs @ [e]\<close> afterwards, for a non-null element whose links are cleared and that is not
  in the list, and the links of every other node outside the list are untouched.
\<close>

theorem list_append_correct:
  assumes "dll lk l xs" "linkable lk e" "e \<notin> set xs" "list_append lk l e = (lk', l')"
  shows "dll lk' l' (xs @ [e]) \<and> (\<forall>z. z \<notin> set (xs @ [e]) \<longrightarrow> lk' z = lk z)"
  using ll.app_rep [OF assms] list_append_frame [OF assms(4) assms(1)] by auto

definition sample_links :: links where
  "sample_links = (\<lambda>_. detached)(16 := \<lparr>next_ptr = 32, prev_ptr = NULL\<rparr>,
     32 := \<lparr>next_ptr = NULL, prev_ptr = 16\<rparr>)"

definition sample_header :: list_header where
  "sample_header = \<lparr>head = 16, tail = 32\<rparr>"

lemma sample_dll: "dll sample_links sample_header [16, 32]"
  by (simp add: dll_def sample_links_def sample_header_def)

theorem list_append_correct_witness:
  "dll (fst (list_append sample_links sample_header 48)) (snd (list_append sample_links sample_header 48))
     ([16, 32] @ [48]) \<and> linkable sample_links 48"
proof -
  have "linkable sample_links 48" by (simp add: linkable_def sample_links_def)
  then show ?thesis
    using list_append_correct [OF sample_dll, of 48] by (simp add: prod_eq_iff)
qed

text \<open>
  C16: \<open>list_remove\<close> on pointers is removal: the header represents the list without the
  element afterwards, the removed element has its links cleared (so it can be appended
  again), and nodes outside the list are untouched.
\<close>

theorem list_remove_correct:
  assumes "dll lk l xs" "e \<in> set xs" "list_remove lk l e = (lk', l')"
  shows "dll lk' l' (remove1 e xs) \<and> linkable lk' e \<and> (\<forall>z. z \<notin> set xs \<longrightarrow> lk' z = lk z)"
  using ll.rem_rep [OF assms] ll.rem_free [OF assms] list_remove_frame [OF assms(3) assms(1,2)]
  by auto

theorem list_remove_correct_witness:
  "dll (fst (list_remove sample_links sample_header 16)) (snd (list_remove sample_links sample_header 16))
     (remove1 16 [16, 32]) \<and> linkable (fst (list_remove sample_links sample_header 16)) 16"
  using list_remove_correct [OF sample_dll, of 16] by (simp add: prod_eq_iff)

text \<open>
  C18: \<open>list_foreach\<close> ends and runs its body on the elements in list order, up to the first
  \<open>break\<close> or fault, whenever the body leaves the successors of the elements not yet visited
  alone; in particular a body may unlink the element it is called on.
\<close>

theorem list_foreach_in_order:
  assumes "dll (lk s) l xs" "keeps_successors lk body xs s"
  shows "list_foreach lk l body s = foreach_fold body xs s"
  using assms by (rule list_foreach_fold)

text \<open>The witness runs a loop that unlinks every element it visits.\<close>

definition unlink_body :: "ptr \<Rightarrow> links \<times> list_header \<Rightarrow> (bool \<times> links \<times> list_header) res" where
  "unlink_body e s = Inr (False, list_remove (fst s) (snd s) e)"

theorem list_foreach_in_order_witness:
  "list_foreach fst sample_header unlink_body (sample_links, sample_header)
     = foreach_fold unlink_body [16, 32] (sample_links, sample_header)"
proof (rule list_foreach_in_order)
  show "dll (fst (sample_links, sample_header)) sample_header [16, 32]"
    by (simp add: sample_dll)
  show "keeps_successors fst unlink_body [16, 32] (sample_links, sample_header)"
    by (simp add: unlink_body_def list_remove_def Let_def list_prev_def list_next_def
        set_next_def set_prev_def sample_links_def sample_header_def)
qed

end
