(* ===== verification/Bitset.thy ===== *)
theory Bitset
  imports Util
begin

text \<open>
  The bitmap of \<open>kernel/bitset.c\<close>: a size in bits and an array of 32-bit
  elements. \<open>bits\<close> reads it as the set of indices whose bit is set, and every
  operation is shown to act on that set.
\<close>

section \<open>Definitions\<close>

record bitset =
  size_bits :: u32
  element_count :: u32
  data :: "u32 list"

definition BIT_PER_ELEMENT :: u32 where
  "BIT_PER_ELEMENT = 32"

definition BITSET_INVALID_INDEX :: u32 where
  "BITSET_INVALID_INDEX = 0xFFFFFFFF"

text \<open>
  \<open>memset\<close> of the element array with a byte repeated in every byte of \<open>w\<close>; writing
  past the memory behind \<open>data\<close> is undefined.
\<close>

definition memset_data :: "bitset \<Rightarrow> u32 \<Rightarrow> u32 \<Rightarrow> bitset res" where
  "memset_data b w len =
     (let n = unat len div 4 in
      if n \<le> length (data b) then Inr (b\<lparr>data := replicate n w @ drop n (data b)\<rparr>)
      else Inl Undefined)"

definition bitset_set_all :: "bitset \<Rightarrow> bitset res" where
  "bitset_set_all b = memset_data b 0xFFFFFFFF (element_count b * 4)"

definition bitset_clear_all :: "bitset \<Rightarrow> bitset res" where
  "bitset_clear_all b = memset_data b 0 (element_count b * 4)"

definition bitset_init :: "bitset \<Rightarrow> u32 \<Rightarrow> bitset res" where
  "bitset_init b sz =
     (let count = ALIGN sz BIT_PER_ELEMENT div BIT_PER_ELEMENT in
      bitset_clear_all (b\<lparr>size_bits := sz, element_count := count\<rparr>))"

definition bitset_alloc_size :: "u32 \<Rightarrow> u32 res" where
  "bitset_alloc_size sz =
     (let count = ALIGN sz BIT_PER_ELEMENT div BIT_PER_ELEMENT;
          alloc_size = 8 + 4 * count
      in assert_then (count * BIT_PER_ELEMENT \<ge> sz) (Inr alloc_size))"

text \<open>Reading and writing \<open>data[element]\<close>.\<close>

definition get_element :: "bitset \<Rightarrow> u32 \<Rightarrow> u32 res" where
  "get_element b i = (if unat i < length (data b) then Inr (data b ! unat i) else Inl Undefined)"

definition put_element :: "bitset \<Rightarrow> u32 \<Rightarrow> u32 \<Rightarrow> bitset res" where
  "put_element b i w =
     (if unat i < length (data b) then Inr (b\<lparr>data := (data b)[unat i := w]\<rparr>) else Inl Undefined)"

definition bitset_test :: "bitset \<Rightarrow> u32 \<Rightarrow> bool res" where
  "bitset_test b offset = assert_then (offset < size_bits b)
     (let element = offset div BIT_PER_ELEMENT;
          m = 2 ^ unat (offset mod BIT_PER_ELEMENT)
      in res_bind (get_element b element) (\<lambda>w. Inr (w AND m \<noteq> 0)))"

definition bitset_set :: "bitset \<Rightarrow> u32 \<Rightarrow> bitset res" where
  "bitset_set b offset = assert_then (offset < size_bits b)
     (let element = offset div BIT_PER_ELEMENT;
          m = 2 ^ unat (offset mod BIT_PER_ELEMENT)
      in res_bind (get_element b element) (\<lambda>w. put_element b element (w OR m)))"

definition bitset_clear :: "bitset \<Rightarrow> u32 \<Rightarrow> bitset res" where
  "bitset_clear b offset = assert_then (offset < size_bits b)
     (let element = offset div BIT_PER_ELEMENT;
          m = NOT (2 ^ unat (offset mod BIT_PER_ELEMENT))
      in res_bind (get_element b element) (\<lambda>w. put_element b element (w AND m)))"

text \<open>
  \<open>bitset_find\<close>: the first loop looks for an element with a bit of the wanted value,
  the second tests the bits of that element one by one.
\<close>

definition find_element :: "(u32 \<Rightarrow> bool) \<Rightarrow> bitset \<Rightarrow> u32 res" where
  "find_element wanted b =
     res_bind
       (for_find (\<lambda>i. res_bind (get_element b (of_nat i)) (\<lambda>w. Inr (wanted w)))
          [0..<unat (element_count b)])
       (\<lambda>r. Inr (case r of None \<Rightarrow> BITSET_INVALID_INDEX | Some i \<Rightarrow> of_nat i))"

definition find_in_element :: "bool \<Rightarrow> bitset \<Rightarrow> u32 \<Rightarrow> u32 res" where
  "find_in_element value b element_index =
     (let start_index = element_index * BIT_PER_ELEMENT in
      res_bind
        (for_find (\<lambda>i. res_bind (bitset_test b (of_nat i)) (\<lambda>t. Inr (t = value)))
           [unat start_index..<unat (start_index + BIT_PER_ELEMENT)])
        (\<lambda>r. case r of None \<Rightarrow> Inl Assert_Failed | Some i \<Rightarrow> Inr (of_nat i)))"

definition bitset_find :: "bitset \<Rightarrow> u32 \<Rightarrow> u32 res" where
  "bitset_find b value =
     (if value \<noteq> 0 then
        res_bind (find_element (\<lambda>w. w \<noteq> 0) b) (\<lambda>element_index.
          if element_index = BITSET_INVALID_INDEX then Inr BITSET_INVALID_INDEX
          else find_in_element True b element_index)
      else
        res_bind (find_element (\<lambda>w. w \<noteq> 0xFFFFFFFF) b) (\<lambda>element_index.
          if element_index = BITSET_INVALID_INDEX then Inr BITSET_INVALID_INDEX
          else find_in_element False b element_index))"

section \<open>The set a bitset stands for\<close>

text \<open>
  Well-formedness: the element array has the elements \<open>bitset_init\<close> computes for
  the size. A size above \<open>2 ^ 32 - 32\<close> would wrap in \<open>ALIGN\<close>.
\<close>

definition bitset_wf :: "bitset \<Rightarrow> bool" where
  "bitset_wf b \<longleftrightarrow>
     unat (size_bits b) + 31 < 2 ^ 32
     \<and> unat (element_count b) = (unat (size_bits b) + 31) div 32
     \<and> length (data b) = unat (element_count b)"

text \<open>The bit at position \<open>i\<close> of the array, in or out of the size.\<close>

definition raw_bit :: "bitset \<Rightarrow> nat \<Rightarrow> bool" where
  "raw_bit b i \<longleftrightarrow> bit (data b ! (i div 32)) (i mod 32)"

definition bits :: "bitset \<Rightarrow> nat set" where
  "bits b = {i. i < unat (size_bits b) \<and> raw_bit b i}"

definition padding_clear :: "bitset \<Rightarrow> bool" where
  "padding_clear b \<longleftrightarrow> (\<forall>i. unat (size_bits b) \<le> i \<and> i < 32 * length (data b) \<longrightarrow> \<not> raw_bit b i)"

lemma wf_capacity: "bitset_wf b \<Longrightarrow> unat (size_bits b) \<le> 32 * length (data b)"
  and wf_tight: "bitset_wf b \<Longrightarrow> 32 * length (data b) < unat (size_bits b) + 32"
  by (simp_all add: bitset_wf_def)

lemma wf_element:
  "bitset_wf b \<Longrightarrow> i < unat (size_bits b) \<Longrightarrow> i div 32 < length (data b)"
  by (simp add: bitset_wf_def)

lemma unat_div_BPE: "unat (i div BIT_PER_ELEMENT) = unat i div 32"
  and unat_mod_BPE: "unat (i mod BIT_PER_ELEMENT) = unat i mod 32"
  by (simp_all add: BIT_PER_ELEMENT_def unat_div_distrib unat_mod_distrib)

lemma div_32_cong: "i div 32 = j div 32 \<Longrightarrow> i mod 32 = j mod 32 \<Longrightarrow> i = (j::nat)"
  by (metis div_mult_mod_eq)

lemma raw_bit_update:
  assumes "i div 32 < length (data b)"
  shows "raw_bit (b\<lparr>data := (data b)[i div 32 := data b ! (i div 32) OR 2 ^ (i mod 32)]\<rparr>) j
           \<longleftrightarrow> j = i \<or> raw_bit b j"
    and "raw_bit (b\<lparr>data := (data b)[i div 32 := data b ! (i div 32) AND NOT (2 ^ (i mod 32))]\<rparr>) j
           \<longleftrightarrow> j \<noteq> i \<and> raw_bit b j"
  using assms div_32_cong [of j i]
  by (auto simp: raw_bit_def nth_list_update bit_simps)

text \<open>Every access within the size is to an element of the array.\<close>

lemma bitset_test_eq:
  assumes "bitset_wf b" "unat i < unat (size_bits b)"
  shows "bitset_test b i = Inr (unat i \<in> bits b)"
  using assms wf_element [OF assms]
  by (simp add: bitset_test_def get_element_def unat_div_BPE unat_mod_BPE word_less_nat_alt
      bits_def raw_bit_def and_two_power Let_def)

lemma bitset_test_oob: "\<not> unat i < unat (size_bits b) \<Longrightarrow> bitset_test b i = Inl Assert_Failed"
  by (simp add: bitset_test_def word_less_nat_alt)

lemma bitset_set_eq:
  assumes "bitset_wf b" "unat i < unat (size_bits b)"
  obtains b' where "bitset_set b i = Inr b'" "bitset_wf b'" "size_bits b' = size_bits b"
    "\<And>j. raw_bit b' j \<longleftrightarrow> j = unat i \<or> raw_bit b j" "length (data b') = length (data b)"
proof -
  have e: "unat i div 32 < length (data b)" using assms by (rule wf_element)
  let ?b = "b\<lparr>data := (data b)[unat i div 32 := data b ! (unat i div 32) OR 2 ^ (unat i mod 32)]\<rparr>"
  have "bitset_set b i = Inr ?b"
    using assms(2) e
    by (simp add: bitset_set_def get_element_def put_element_def unat_div_BPE unat_mod_BPE
        word_less_nat_alt Let_def)
  moreover have "bitset_wf ?b" using assms(1) by (simp add: bitset_wf_def)
  ultimately show thesis using that raw_bit_update(1) [OF e] by simp
qed

lemma bitset_clear_eq:
  assumes "bitset_wf b" "unat i < unat (size_bits b)"
  obtains b' where "bitset_clear b i = Inr b'" "bitset_wf b'" "size_bits b' = size_bits b"
    "\<And>j. raw_bit b' j \<longleftrightarrow> j \<noteq> unat i \<and> raw_bit b j" "length (data b') = length (data b)"
proof -
  have e: "unat i div 32 < length (data b)" using assms by (rule wf_element)
  let ?b = "b\<lparr>data := (data b)[unat i div 32 := data b ! (unat i div 32) AND NOT (2 ^ (unat i mod 32))]\<rparr>"
  have "bitset_clear b i = Inr ?b"
    using assms(2) e
    by (simp add: bitset_clear_def get_element_def put_element_def unat_div_BPE unat_mod_BPE
        word_less_nat_alt Let_def)
  moreover have "bitset_wf ?b" using assms(1) by (simp add: bitset_wf_def)
  ultimately show thesis using that raw_bit_update(2) [OF e] by simp
qed

lemma all_ones_iff: "(w :: u32) = 0xFFFFFFFF \<longleftrightarrow> (\<forall>k<32. bit w k)"
proof -
  have m: "(0xFFFFFFFF :: u32) = mask 32" by (simp add: mask_eq_exp_minus_1)
  show ?thesis unfolding m by (auto simp: bit_mask_iff intro!: u32_eqI)
qed

lemma all_zeros_iff: "(w :: u32) = 0 \<longleftrightarrow> (\<forall>k<32. \<not> bit w k)"
  by (auto intro!: u32_eqI)

text \<open>The test of the first loop of \<open>bitset_find\<close>, for either wanted value.\<close>

definition has_bit :: "bool \<Rightarrow> u32 \<Rightarrow> bool" where
  "has_bit v w \<longleftrightarrow> (\<exists>k<32. bit w k = v)"

lemma has_bit_simps: "has_bit True w \<longleftrightarrow> w \<noteq> 0" "has_bit False w \<longleftrightarrow> w \<noteq> 0xFFFFFFFF"
  by (auto simp: has_bit_def all_ones_iff all_zeros_iff)

lemma bitset_find_split:
  "bitset_find b value =
     res_bind (find_element (has_bit (value \<noteq> 0)) b) (\<lambda>e.
       if e = BITSET_INVALID_INDEX then Inr BITSET_INVALID_INDEX
       else find_in_element (value \<noteq> 0) b e)"
proof -
  have "has_bit True = (\<lambda>w. w \<noteq> 0)" "has_bit False = (\<lambda>w. w \<noteq> 0xFFFFFFFF)"
    by (auto simp: has_bit_simps)
  then show ?thesis by (cases "value = 0") (simp_all only: bitset_find_def if_True if_False simp_thms)
qed

lemma has_bit_raw:
  "has_bit v (data b ! e) \<longleftrightarrow> (\<exists>i. 32 * e \<le> i \<and> i < 32 * e + 32 \<and> raw_bit b i = v)"
proof
  assume "has_bit v (data b ! e)"
  then obtain k where "k < 32" "bit (data b ! e) k = v" by (auto simp: has_bit_def)
  then show "\<exists>i. 32 * e \<le> i \<and> i < 32 * e + 32 \<and> raw_bit b i = v"
    by (intro exI [of _ "32 * e + k"]) (simp add: raw_bit_def)
next
  assume "\<exists>i. 32 * e \<le> i \<and> i < 32 * e + 32 \<and> raw_bit b i = v"
  then obtain i where i: "32 * e \<le> i" "i < 32 * e + 32" "raw_bit b i = v" by blast
  then have "i div 32 = e" by (simp add: div_nat_eqI)
  with i(3) show "has_bit v (data b ! e)"
    by (auto simp: has_bit_def raw_bit_def intro!: exI [of _ "i mod 32"])
qed

lemma find_element_eq:
  assumes "bitset_wf b"
  shows "find_element (has_bit v) b =
    Inr (case List.find (\<lambda>e. has_bit v (data b ! e)) [0..<length (data b)] of
           None \<Rightarrow> BITSET_INVALID_INDEX | Some e \<Rightarrow> of_nat e)"
proof -
  let ?test = "\<lambda>i. res_bind (get_element b (of_nat i)) (\<lambda>w. Inr (has_bit v w))"
  have len: "length (data b) < 4294967296"
    using assms unat_lt32 [of "element_count b"] by (simp add: bitset_wf_def)
  have "for_find ?test [0..<length (data b)]
      = Inr (List.find (\<lambda>e. has_bit v (data b ! e)) [0..<length (data b)])"
    using len by (intro for_find_pure) (simp add: get_element_def unat_of_nat)
  then show ?thesis using assms by (simp add: find_element_def bitset_wf_def)
qed

lemma wf_bounds:
  assumes "bitset_wf b" "e < length (data b)"
  shows "unat (of_nat e :: u32) = e" "(of_nat e :: u32) \<noteq> BITSET_INVALID_INDEX"
    "unat ((of_nat e :: u32) * BIT_PER_ELEMENT) = 32 * e"
    "unat ((of_nat e :: u32) * BIT_PER_ELEMENT + BIT_PER_ELEMENT) = 32 * e + 32"
proof -
  have l: "32 * e + 32 < 4294967296"
    using assms wf_tight [OF assms(1)] by (simp add: bitset_wf_def)
  then show u: "unat (of_nat e :: u32) = e" by (simp add: unat_of_nat)
  have "e \<noteq> unat (0xFFFFFFFF :: u32)" using l by simp
  then show "(of_nat e :: u32) \<noteq> BITSET_INVALID_INDEX" using u by (metis BITSET_INVALID_INDEX_def)
  show u32: "unat ((of_nat e :: u32) * BIT_PER_ELEMENT) = 32 * e"
    using l u by (simp add: BIT_PER_ELEMENT_def unat_word_ariths)
  show "unat ((of_nat e :: u32) * BIT_PER_ELEMENT + BIT_PER_ELEMENT) = 32 * e + 32"
    using l u32 by (subst unat_add32) (simp_all add: BIT_PER_ELEMENT_def)
qed

lemma bitset_test_raw:
  assumes "bitset_wf b" "i < 4294967296"
  shows "bitset_test b (of_nat i) = (if i < unat (size_bits b) then Inr (raw_bit b i) else Inl Assert_Failed)"
  using assms bitset_test_eq [OF assms(1), of "of_nat i"] bitset_test_oob [of "of_nat i" b]
  by (simp add: unat_of_nat bits_def)

lemma bitset_test_lt:
  "bitset_wf b \<Longrightarrow> i < unat (size_bits b) \<Longrightarrow> bitset_test b (of_nat i) = Inr (raw_bit b i)"
  using bitset_test_raw [of b i] less_trans [OF _ unat_lt32, of i] by simp

text \<open>The three outcomes of a search.\<close>

lemma bitset_find_hit:
  assumes wf: "bitset_wf b" and m: "m < unat (size_bits b)" "raw_bit b m = (value \<noteq> 0)"
    and least: "\<And>j. j < m \<Longrightarrow> raw_bit b j \<noteq> (value \<noteq> 0)"
  shows "bitset_find b value = Inr (of_nat m)"
proof -
  define v e where "v = (value \<noteq> 0)" and "e = m div 32"
  have em: "32 * e \<le> m" "m < 32 * e + 32" by (simp_all add: e_def)
  have e: "e < length (data b)" using wf m(1) unfolding e_def by (rule wf_element)
  note bnd = wf_bounds [OF wf e]
  have m32: "m < 4294967296" using m(1) unat_lt32 [of "size_bits b"] by linarith
  have "has_bit v (data b ! e)" using m em by (auto simp: has_bit_raw v_def)
  moreover have "\<not> has_bit v (data b ! e')" if "e' < e" for e'
    using least that em by (auto simp: has_bit_raw v_def)
  ultimately have "List.find (\<lambda>e. has_bit v (data b ! e)) [0..<length (data b)] = Some e"
    using e by (simp add: find_upt_Some)
  then have 1: "find_element (has_bit v) b = Inr (of_nat e)" by (simp add: find_element_eq [OF wf])
  have "for_find (\<lambda>i. res_bind (bitset_test b (of_nat i)) (\<lambda>t. Inr (t = v))) [32 * e..<32 * e + 32]
      = Inr (Some m)"
    using em m least m32
    by (subst for_find_upt [of _ m]) (auto simp: bitset_test_raw [OF wf] v_def)
  then have "find_in_element v b (of_nat e) = Inr (of_nat m)"
    by (simp add: find_in_element_def bnd)
  with 1 show ?thesis by (simp add: bitset_find_split v_def [symmetric] bnd)
qed

lemma bitset_find_none:
  assumes wf: "bitset_wf b" and none: "\<And>i. i < 32 * length (data b) \<Longrightarrow> raw_bit b i \<noteq> (value \<noteq> 0)"
  shows "bitset_find b value = Inr BITSET_INVALID_INDEX"
proof -
  have "\<not> has_bit (value \<noteq> 0) (data b ! e)" if "e < length (data b)" for e
    using none that by (auto simp: has_bit_raw)
  then have "List.find (\<lambda>e. has_bit (value \<noteq> 0) (data b ! e)) [0..<length (data b)] = None"
    by (simp add: find_upt_None)
  then show ?thesis by (simp add: bitset_find_split find_element_eq [OF wf])
qed

lemma bitset_find_assert:
  assumes wf: "bitset_wf b" and none: "\<And>i. i < unat (size_bits b) \<Longrightarrow> raw_bit b i \<noteq> (value \<noteq> 0)"
    and pad: "unat (size_bits b) \<le> p" "p < 32 * length (data b)" "raw_bit b p = (value \<noteq> 0)"
  shows "bitset_find b value = Inl Assert_Failed"
proof -
  define v e where "v = (value \<noteq> 0)" and "e = unat (size_bits b) div 32"
  have "length (data b) \<le> e + 1" using wf_tight [OF wf] unfolding e_def by arith
  then have e: "e < length (data b)" "p < 32 * e + 32" "32 * e \<le> p"
    using pad unfolding e_def by arith+
  note bnd = wf_bounds [OF wf e(1)]
  have "has_bit v (data b ! e)" using pad e by (auto simp: has_bit_raw v_def)
  moreover have "\<not> has_bit v (data b ! e')" if "e' < e" for e'
    using none that by (auto simp: has_bit_raw v_def e_def)
  ultimately have "List.find (\<lambda>e. has_bit v (data b ! e)) [0..<length (data b)] = Some e"
    using e by (simp add: find_upt_Some)
  then have 1: "find_element (has_bit v) b = Inr (of_nat e)" by (simp add: find_element_eq [OF wf])
  have "for_find (\<lambda>i. res_bind (bitset_test b (of_nat i)) (\<lambda>t. Inr (t = v))) [32 * e..<32 * e + 32]
      = Inl Assert_Failed"
    using none
    by (subst for_find_upt [of _ "unat (size_bits b)"])
       (auto simp: bitset_test_lt [OF wf] v_def e_def bitset_test_oob)
  then have "find_in_element v b (of_nat e) = Inl Assert_Failed"
    by (simp add: find_in_element_def bnd)
  with 1 show ?thesis by (simp add: bitset_find_split v_def [symmetric] bnd)
qed

section \<open>Initialisation\<close>

lemma count_eq:
  assumes "unat sz + 31 < 2 ^ 32"
  shows "unat (ALIGN sz BIT_PER_ELEMENT div BIT_PER_ELEMENT) = (unat sz + 31) div 32"
proof -
  have "unat (ALIGN sz (2 ^ 5)) = (unat sz + 2 ^ 5 - 1) div 2 ^ 5 * 2 ^ 5"
    by (rule unat_ALIGN) (use assms in simp_all)
  then show ?thesis by (simp add: unat_div_BPE) (simp add: BIT_PER_ELEMENT_def)
qed

lemma bitset_init_eq:
  assumes "unat sz + 31 < 2 ^ 32" "length (data b) = (unat sz + 31) div 32"
  obtains b' where "bitset_init b sz = Inr b'" "bitset_wf b'" "size_bits b' = sz" "bits b' = {}"
    "padding_clear b'"
proof -
  define n where "n = (unat sz + 31) div 32"
  let ?b = "b\<lparr>size_bits := sz, element_count := ALIGN sz BIT_PER_ELEMENT div BIT_PER_ELEMENT,
      data := replicate n 0\<rparr>"
  note c = count_eq [OF assms(1)]
  have "n * 4 < 4294967296" using assms(1) unfolding n_def by simp
  then have "unat (ALIGN sz BIT_PER_ELEMENT div BIT_PER_ELEMENT * 4) = n * 4"
    using c by (simp add: unat_word_ariths n_def)
  then have "bitset_init b sz = Inr ?b"
    using assms(2) by (simp add: bitset_init_def bitset_clear_all_def memset_data_def Let_def n_def)
  moreover have "bitset_wf ?b" using assms c by (simp add: bitset_wf_def n_def)
  moreover have "\<not> raw_bit ?b i" if "i < 32 * n" for i
    using that by (simp add: raw_bit_def)
  moreover from this have "bits ?b = {}" unfolding bits_def n_def by auto
  ultimately show thesis using that by (simp add: padding_clear_def)
qed

section \<open>Properties\<close>

text \<open>
  C34: the operations on one bit act on the set of set bits: \<open>bitset_test\<close> is membership,
  \<open>bitset_set\<close> inserts and \<open>bitset_clear\<close> removes exactly one index, and both keep the
  bitset well formed, with its size, and with clear padding bits.
\<close>

theorem bitset_bit_operations:
  assumes "bitset_wf b" "padding_clear b" "unat i < unat (size_bits b)"
  shows "bitset_test b i = Inr (unat i \<in> bits b)
    \<and> (\<exists>b'. bitset_set b i = Inr b' \<and> bits b' = insert (unat i) (bits b)
           \<and> bitset_wf b' \<and> padding_clear b' \<and> size_bits b' = size_bits b)
    \<and> (\<exists>b'. bitset_clear b i = Inr b' \<and> bits b' = bits b - {unat i}
           \<and> bitset_wf b' \<and> padding_clear b' \<and> size_bits b' = size_bits b)"
proof (intro conjI)
  show "bitset_test b i = Inr (unat i \<in> bits b)" using assms(1,3) by (rule bitset_test_eq)
  show "\<exists>b'. bitset_set b i = Inr b' \<and> bits b' = insert (unat i) (bits b)
      \<and> bitset_wf b' \<and> padding_clear b' \<and> size_bits b' = size_bits b"
    by (rule bitset_set_eq [OF assms(1,3)]) (use assms in \<open>auto simp: bits_def padding_clear_def\<close>)
  show "\<exists>b'. bitset_clear b i = Inr b' \<and> bits b' = bits b - {unat i}
      \<and> bitset_wf b' \<and> padding_clear b' \<and> size_bits b' = size_bits b"
    by (rule bitset_clear_eq [OF assms(1,3)]) (use assms in \<open>auto simp: bits_def padding_clear_def\<close>)
qed

definition sample_bitset :: bitset where
  "sample_bitset = \<lparr>size_bits = 40, element_count = 2, data = [0xFFFFFFFF, 0x0F]\<rparr>"

lemma sample_bitset_wf: "bitset_wf sample_bitset"
  by (simp add: bitset_wf_def sample_bitset_def)

lemma padding_clear_upt:
  "padding_clear b \<longleftrightarrow> (\<forall>i\<in>set [unat (size_bits b)..<32 * length (data b)]. \<not> raw_bit b i)"
  by (auto simp: padding_clear_def)

lemma sample_padding: "padding_clear sample_bitset"
  unfolding padding_clear_upt by code_simp

theorem bitset_bit_operations_witness:
  "bitset_test sample_bitset 36 = Inr (unat (36 :: u32) \<in> bits sample_bitset)
    \<and> (\<exists>b'. bitset_set sample_bitset 36 = Inr b' \<and> bits b' = insert (unat (36 :: u32)) (bits sample_bitset))"
  using bitset_bit_operations [OF sample_bitset_wf sample_padding, of 36]
  by (auto simp: sample_bitset_def)

lemma bitset_find_clear_cases:
  assumes "bitset_wf b" "padding_clear b"
  shows "\<exists>i<unat (size_bits b). i \<notin> bits b \<Longrightarrow>
      \<exists>i. i < unat (size_bits b) \<and> i \<notin> bits b \<and> (\<forall>j<i. j \<in> bits b) \<and> bitset_find b 0 = Inr (of_nat i)"
    and "\<not> (\<exists>i<unat (size_bits b). i \<notin> bits b) \<Longrightarrow> unat (size_bits b) mod 32 = 0 \<Longrightarrow>
      bitset_find b 0 = Inr BITSET_INVALID_INDEX"
    and "\<not> (\<exists>i<unat (size_bits b). i \<notin> bits b) \<Longrightarrow> unat (size_bits b) mod 32 \<noteq> 0 \<Longrightarrow>
      bitset_find b 0 = Inl Assert_Failed"
proof -
  assume ex: "\<exists>i<unat (size_bits b). i \<notin> bits b"
  define m where "m = (LEAST i. i \<notin> bits b)"
  have m: "m \<notin> bits b" using ex unfolding m_def by (metis LeastI)
  have lt: "m < unat (size_bits b)"
    using ex unfolding m_def by (metis (mono_tags, lifting) Least_le le_less_trans)
  have least: "j \<in> bits b" if "j < m" for j
    using not_less_Least [OF that [unfolded m_def]] by simp
  then have "bitset_find b 0 = Inr (of_nat m)"
    using assms(1) m lt by (intro bitset_find_hit) (auto simp: bits_def)
  with m lt least show "\<exists>i. i < unat (size_bits b) \<and> i \<notin> bits b \<and> (\<forall>j<i. j \<in> bits b)
      \<and> bitset_find b 0 = Inr (of_nat i)" by blast
next
  assume "\<not> (\<exists>i<unat (size_bits b). i \<notin> bits b)" "unat (size_bits b) mod 32 = 0"
  moreover from this(2) have "32 * length (data b) = unat (size_bits b)"
    using wf_capacity [OF assms(1)] wf_tight [OF assms(1)] by presburger
  ultimately show "bitset_find b 0 = Inr BITSET_INVALID_INDEX"
    using assms(1) by (intro bitset_find_none) (auto simp: bits_def)
next
  assume "\<not> (\<exists>i<unat (size_bits b). i \<notin> bits b)" "unat (size_bits b) mod 32 \<noteq> 0"
  moreover from this(2) have "unat (size_bits b) < 32 * length (data b)"
    using wf_capacity [OF assms(1)] by presburger
  ultimately show "bitset_find b 0 = Inl Assert_Failed"
    using assms
    by (intro bitset_find_assert [of _ _ "unat (size_bits b)"]) (auto simp: padding_clear_def bits_def)
qed

text \<open>
  C37: \<open>bitset_find\<close> for a clear bit returns the least clear index below the size if there
  is one. If there is none it returns \<open>BITSET_INVALID_INDEX\<close> when the size is a multiple of
  the element width; for any other size the first loop is misled by the clear padding bits
  of the last element and the search ends in a failed assertion.
\<close>

theorem bitset_find_clear_bit:
  assumes "bitset_wf b" "padding_clear b"
  shows "bitset_find b 0 =
    (if \<exists>i<unat (size_bits b). i \<notin> bits b then Inr (of_nat (LEAST i. i \<notin> bits b))
     else if unat (size_bits b) mod 32 = 0 then Inr BITSET_INVALID_INDEX
     else Inl Assert_Failed)"
proof (cases "\<exists>i<unat (size_bits b). i \<notin> bits b")
  case True
  obtain i where i: "i \<notin> bits b" "\<forall>j<i. j \<in> bits b" "bitset_find b 0 = Inr (of_nat i)"
    using bitset_find_clear_cases(1) [OF assms True] by blast
  then have "(LEAST i. i \<notin> bits b) = i" by (intro Least_equality) (auto simp: not_less [symmetric])
  with i True show ?thesis by simp
next
  case False
  then show ?thesis
    using bitset_find_clear_cases(2,3) [OF assms False] by (simp only: if_False split: if_split) blast
qed

text \<open>A bitmap of 36 bits, all taken, on which the search stops the kernel.\<close>

definition full_bitset :: bitset where
  "full_bitset = \<lparr>size_bits = 36, element_count = 2, data = [0xFFFFFFFF, 0x0F]\<rparr>"

theorem bitset_find_clear_bit_witness:
  "bitset_find sample_bitset 0 = Inr (of_nat (LEAST i. i \<notin> bits sample_bitset))
    \<and> bitset_find full_bitset 0 = Inl Assert_Failed"
proof -
  have "\<exists>i<unat (size_bits sample_bitset). i \<notin> bits sample_bitset"
    by (intro exI [of _ 36]) (simp add: sample_bitset_def bits_def raw_bit_def)
  moreover have "bitset_wf full_bitset" by (simp add: bitset_wf_def full_bitset_def)
  moreover have "padding_clear full_bitset" unfolding padding_clear_upt by code_simp
  moreover have "\<forall>i\<in>set [0..<unat (size_bits full_bitset)]. raw_bit full_bitset i" by code_simp
  then have "\<not> (\<exists>i<unat (size_bits full_bitset). i \<notin> bits full_bitset)"
    by (auto simp: bits_def)
  moreover have "unat (size_bits full_bitset) mod 32 \<noteq> 0" by (simp add: full_bitset_def)
  ultimately show ?thesis
    using bitset_find_clear_bit [OF sample_bitset_wf sample_padding]
      bitset_find_clear_bit [of full_bitset] by (simp only: if_True if_False)
qed

end
