(* ===== verification/Locks.thy ===== *)
theory Locks
  imports KPrelude
begin

text \<open>
  Interrupt masking and spin locks, \<open>common/locks.c\<close>, \<open>common/locks.h\<close> and
  \<open>common/locks.asm\<close>. The state is the flags register of the processor; every
  kernel state extends it, so that a critical section of any component acts on
  the same flag.
\<close>

section \<open>The flags register\<close>

record cpu =
  eflags :: u32

definition EFLAGS_IF :: u32 where
  "EFLAGS_IF = push_bit 9 1"

definition cli :: "'a cpu_scheme \<Rightarrow> 'a cpu_scheme" where
  "cli s = s\<lparr>eflags := eflags s AND NOT EFLAGS_IF\<rparr>"

definition sti :: "'a cpu_scheme \<Rightarrow> 'a cpu_scheme" where
  "sti s = s\<lparr>eflags := eflags s OR EFLAGS_IF\<rparr>"

definition interrupts_enabled :: "'a cpu_scheme \<Rightarrow> bool" where
  "interrupts_enabled s \<longleftrightarrow> eflags s AND EFLAGS_IF \<noteq> 0"

definition disable_if :: "'a cpu_scheme \<Rightarrow> u32 \<times> 'a cpu_scheme" where
  "disable_if s =
     (let result = (if eflags s AND EFLAGS_IF \<noteq> 0 then 1 else 0) in (result, cli s))"

definition restore_if :: "u32 \<Rightarrow> 'a cpu_scheme \<Rightarrow> 'a cpu_scheme" where
  "restore_if state s = (if state \<noteq> 0 then sti s else cli s)"

lemma EFLAGS_IF_test: "w AND EFLAGS_IF \<noteq> 0 \<longleftrightarrow> bit w 9"
  by (simp only: EFLAGS_IF_def push_bit_of_1 and_two_power not_not)

lemma bit_EFLAGS_IF: "bit EFLAGS_IF i \<longleftrightarrow> i = 9"
  by (simp only: EFLAGS_IF_def push_bit_of_1 bit_two_power) simp

lemma interrupts_after_cli [simp]: "\<not> interrupts_enabled (cli s)"
  unfolding interrupts_enabled_def EFLAGS_IF_test by (simp add: cli_def bit_EFLAGS_IF bit_simps)

lemma interrupts_after_sti [simp]: "interrupts_enabled (sti s)"
  unfolding interrupts_enabled_def EFLAGS_IF_test by (simp add: sti_def bit_EFLAGS_IF bit_simps)

text \<open>
  A critical section leaves the flags register as it found it, whatever else the
  body changed: both when interrupts were enabled at its entry and when it is
  nested in another section.
\<close>

lemma critical_section_restores:
  assumes "disable_if s = (st, s1)" "eflags s2 = eflags s1"
  shows "restore_if st s2 = s2\<lparr>eflags := eflags s\<rparr>"
proof -
  have "(eflags s AND NOT EFLAGS_IF) OR EFLAGS_IF = eflags s" if "bit (eflags s) 9"
    by (rule bit_word_eqI) (use that in \<open>auto simp: bit_EFLAGS_IF bit_simps\<close>)
  moreover have "(eflags s AND NOT EFLAGS_IF) AND NOT EFLAGS_IF = eflags s" if "\<not> bit (eflags s) 9"
    by (rule bit_word_eqI) (use that in \<open>auto simp: bit_EFLAGS_IF bit_simps\<close>)
  ultimately show ?thesis
    using assms
    by (auto simp: disable_if_def restore_if_def sti_def cli_def EFLAGS_IF_test Let_def split: if_splits)
qed

text \<open>The body of a critical section, with the flag saved and restored around it.\<close>

definition critical :: "('a cpu_scheme \<Rightarrow> ('b \<times> 'a cpu_scheme) res) \<Rightarrow> 'a cpu_scheme \<Rightarrow> ('b \<times> 'a cpu_scheme) res" where
  "critical body s =
     (case disable_if s of (ifstate, s1) \<Rightarrow>
        res_bind (body s1) (\<lambda>(r, s2). Inr (r, restore_if ifstate s2)))"

lemma eflags_disable_if: "eflags (snd (disable_if s)) = eflags s AND NOT EFLAGS_IF"
  by (simp add: disable_if_def cli_def Let_def)

lemma disable_if_state: "snd (disable_if s) = s\<lparr>eflags := eflags s AND NOT EFLAGS_IF\<rparr>"
  by (simp add: disable_if_def cli_def Let_def)

lemma critical_Inr:
  "critical body s = Inr (r, s') \<longleftrightarrow>
     (\<exists>s2. body (cli s) = Inr (r, s2) \<and> s' = restore_if (fst (disable_if s)) s2)"
  by (auto simp: critical_def disable_if_def Let_def res_bind_eq_Inr)

lemma critical_Inl:
  "critical body s = Inl e \<longleftrightarrow> body (cli s) = Inl e"
  by (auto simp: critical_def disable_if_def Let_def res_bind_def split: sum.splits)

lemma restore_after_cli:
  assumes "eflags s2 = eflags (cli s)"
  shows "restore_if (fst (disable_if s)) s2 = s2\<lparr>eflags := eflags s\<rparr>"
  using assms by (intro critical_section_restores [of s _ "cli s"]) (simp_all add: disable_if_def Let_def)

lemma critical_frame:
  assumes "critical body s = Inr (r, s')"
    and "\<And>s2. body (cli s) = Inr (r, s2) \<Longrightarrow> eflags s2 = eflags (cli s)"
  obtains s2 where "body (cli s) = Inr (r, s2)" "s' = s2\<lparr>eflags := eflags s\<rparr>"
proof -
  obtain s2 where s2: "body (cli s) = Inr (r, s2)" "s' = restore_if (fst (disable_if s)) s2"
    using assms(1) by (auto simp: critical_Inr)
  have "restore_if (fst (disable_if s)) s2 = s2\<lparr>eflags := eflags s\<rparr>"
    using assms(2) [OF s2(1)] by (rule restore_after_cli)
  with s2 that show thesis by simp
qed

section \<open>Spin locks\<close>

text \<open>
  \<open>cmpxchg\<close> on a lock word: the returned value is the old content, and the content
  becomes \<open>exchange\<close> exactly when it was \<open>compare\<close>.
\<close>

definition cmpxchg :: "u32 \<Rightarrow> u32 \<Rightarrow> u32 \<Rightarrow> u32 \<times> u32" where
  "cmpxchg dest exchange compare = (dest, if dest = compare then exchange else dest)"

definition spinlock_try_lock :: "u32 \<Rightarrow> bool \<times> u32" where
  "spinlock_try_lock l = (case cmpxchg l 1 0 of (r, l') \<Rightarrow> (r = 0, l'))"

definition spinlock_try_unlock :: "u32 \<Rightarrow> bool \<times> u32" where
  "spinlock_try_unlock l = (case cmpxchg l 0 1 of (r, l') \<Rightarrow> (r = 1, l'))"

definition checked_lock :: "u32 \<Rightarrow> u32 res" where
  "checked_lock l = (case spinlock_try_lock l of (ok, l') \<Rightarrow> if ok then Inr l' else Inl Panic)"

definition checked_unlock :: "u32 \<Rightarrow> u32 res" where
  "checked_unlock l = (case spinlock_try_unlock l of (ok, l') \<Rightarrow> if ok then Inr l' else Inl Panic)"

lemma checked_lock_iff [simp, res_simps]: "checked_lock l = Inr l' \<longleftrightarrow> l = 0 \<and> l' = 1"
  by (auto simp: checked_lock_def spinlock_try_lock_def cmpxchg_def)

lemma checked_unlock_iff [simp, res_simps]: "checked_unlock l = Inr l' \<longleftrightarrow> l = 1 \<and> l' = 0"
  by (auto simp: checked_unlock_def spinlock_try_unlock_def cmpxchg_def)

lemma checked_lock_0 [simp]: "checked_lock 0 = Inr 1"
  by simp

lemma checked_unlock_1 [simp]: "checked_unlock 1 = Inr 0"
  by simp

text \<open>
  Further: two takers of a spin lock never both succeed: after a successful
  \<open>spinlock_try_lock\<close> every further one fails and leaves the lock as it is,
  until \<open>spinlock_try_unlock\<close>, which succeeds once.
\<close>

theorem spinlock_exclusive:
  assumes "spinlock_try_lock l = (True, l1)"
  shows "spinlock_try_lock l1 = (False, l1)
    \<and> (\<exists>l2. spinlock_try_unlock l1 = (True, l2) \<and> l2 = l \<and> spinlock_try_unlock l2 = (False, l2))"
  using assms by (auto simp: spinlock_try_lock_def spinlock_try_unlock_def cmpxchg_def)

theorem spinlock_exclusive_witness:
  "spinlock_try_lock 1 = (False, 1)
    \<and> (\<exists>l2. spinlock_try_unlock 1 = (True, l2) \<and> l2 = 0 \<and> spinlock_try_unlock l2 = (False, l2))"
  by (rule spinlock_exclusive) (simp add: spinlock_try_lock_def cmpxchg_def)

end
