(* ===== verification/Pmm.thy ===== *)
theory Pmm
  imports Bitset Locks
begin

text \<open>
  The physical page allocator of \<open>kernel/pmm.c\<close>: a list of memory regions, each
  with a bitmap of its taken pages. The allocator is shown to implement a set of
  free frames: \<open>pmm_alloc\<close> takes one out, \<open>pmm_reserve\<close> takes a given one out and
  \<open>pmm_free\<close> puts one back. (\<open>pmm_init\<close> builds the list with \<open>kmalloc\<close> and is part
  of the theory of the kernel heap's clients.)
\<close>

section \<open>State and operations\<close>

definition PAGE_SIZE :: u32 where
  "PAGE_SIZE = 4096"

definition INVALID_FRAME :: u32 where
  "INVALID_FRAME = 0xFFFFFFFF"

record memregion =
  region_addr :: u32
  region_len :: u32
  bitmap :: bitset

record pmm_state = cpu +
  initialized :: bool
  memregions :: "memregion list"

definition pmm_initialized :: "'a pmm_state_scheme \<Rightarrow> bool" where
  "pmm_initialized s = initialized s"

text \<open>The test every loop over the regions makes.\<close>

definition in_region :: "u32 \<Rightarrow> memregion \<Rightarrow> bool" where
  "in_region page r \<longleftrightarrow> page \<ge> region_addr r \<and> page < region_addr r + region_len r"

definition page_index :: "u32 \<Rightarrow> memregion \<Rightarrow> u32" where
  "page_index page r = (page - region_addr r) div PAGE_SIZE"

definition pmm_exists :: "u32 \<Rightarrow> 'a pmm_state_scheme \<Rightarrow> (bool \<times> 'a pmm_state_scheme) res" where
  "pmm_exists page s = assert_then (page mod PAGE_SIZE = 0)
     (critical (\<lambda>s. Inr (list_ex (in_region page) (memregions s), s)) s)"

fun reserve_in :: "u32 \<Rightarrow> memregion list \<Rightarrow> memregion list res" where
  "reserve_in page [] = Inl Abort"
| "reserve_in page (r # rs) =
     (if in_region page r then
        res_bind (bitset_test (bitmap r) (page_index page r)) (\<lambda>taken.
          if taken then Inl Abort
          else res_bind (bitset_set (bitmap r) (page_index page r)) (\<lambda>b.
            Inr (r\<lparr>bitmap := b\<rparr> # rs)))
      else res_bind (reserve_in page rs) (\<lambda>rs'. Inr (r # rs')))"

definition pmm_reserve :: "u32 \<Rightarrow> 'a pmm_state_scheme \<Rightarrow> (unit \<times> 'a pmm_state_scheme) res" where
  "pmm_reserve page s = assert_then (page mod PAGE_SIZE = 0)
     (critical (\<lambda>s. res_bind (reserve_in page (memregions s)) (\<lambda>rs.
        Inr ((), s\<lparr>memregions := rs\<rparr>))) s)"

fun free_in :: "u32 \<Rightarrow> memregion list \<Rightarrow> memregion list res" where
  "free_in page [] = Inl Abort"
| "free_in page (r # rs) =
     (if in_region page r then
        res_bind (bitset_test (bitmap r) (page_index page r)) (\<lambda>taken.
          if \<not> taken then Inl Abort
          else res_bind (bitset_clear (bitmap r) (page_index page r)) (\<lambda>b.
            Inr (r\<lparr>bitmap := b\<rparr> # rs)))
      else res_bind (free_in page rs) (\<lambda>rs'. Inr (r # rs')))"

definition pmm_free :: "u32 \<Rightarrow> 'a pmm_state_scheme \<Rightarrow> (unit \<times> 'a pmm_state_scheme) res" where
  "pmm_free page s = assert_then (IS_ALIGNED page PAGE_SIZE)
     (critical (\<lambda>s. res_bind (free_in page (memregions s)) (\<lambda>rs.
        Inr ((), s\<lparr>memregions := rs\<rparr>))) s)"

fun reserved_in :: "u32 \<Rightarrow> memregion list \<Rightarrow> bool res" where
  "reserved_in page [] = Inr True"
| "reserved_in page (r # rs) =
     (if in_region page r then bitset_test (bitmap r) (page_index page r)
      else reserved_in page rs)"

definition pmm_reserved :: "u32 \<Rightarrow> 'a pmm_state_scheme \<Rightarrow> (bool \<times> 'a pmm_state_scheme) res" where
  "pmm_reserved page s = assert_then (page mod PAGE_SIZE = 0)
     (critical (\<lambda>s. res_bind (reserved_in page (memregions s)) (\<lambda>b. Inr (b, s))) s)"

fun alloc_in :: "memregion list \<Rightarrow> (u32 \<times> memregion list) res" where
  "alloc_in [] = Inr (INVALID_FRAME, [])"
| "alloc_in (r # rs) =
     res_bind (bitset_find (bitmap r) 0) (\<lambda>index.
       if index \<noteq> BITSET_INVALID_INDEX then
         res_bind (bitset_set (bitmap r) index) (\<lambda>b.
           Inr (region_addr r + index * PAGE_SIZE, r\<lparr>bitmap := b\<rparr> # rs))
       else res_bind (alloc_in rs) (\<lambda>(frame, rs'). Inr (frame, r # rs')))"

definition pmm_alloc :: "'a pmm_state_scheme \<Rightarrow> (u32 \<times> 'a pmm_state_scheme) res" where
  "pmm_alloc s =
     critical (\<lambda>s. res_bind (alloc_in (memregions s)) (\<lambda>(frame, rs).
       Inr (frame, s\<lparr>memregions := rs\<rparr>))) s"

section \<open>The set of free frames\<close>

definition region_wf :: "memregion \<Rightarrow> bool" where
  "region_wf r \<longleftrightarrow>
     4096 dvd unat (region_addr r) \<and> 4096 dvd unat (region_len r)
     \<and> unat (region_addr r) + unat (region_len r) < 2 ^ 32
     \<and> bitset_wf (bitmap r) \<and> padding_clear (bitmap r)
     \<and> unat (size_bits (bitmap r)) = unat (region_len r) div 4096"

definition frame_at :: "memregion \<Rightarrow> nat \<Rightarrow> nat" where
  "frame_at r i = unat (region_addr r) + 4096 * i"

definition region_frames :: "memregion \<Rightarrow> nat set" where
  "region_frames r = frame_at r ` {i. i < unat (size_bits (bitmap r))}"

definition region_free :: "memregion \<Rightarrow> nat set" where
  "region_free r = frame_at r ` {i. i < unat (size_bits (bitmap r)) \<and> i \<notin> bits (bitmap r)}"

definition frames_of :: "memregion list \<Rightarrow> nat set" where
  "frames_of rs = (\<Union>r\<in>set rs. region_frames r)"

fun regions_wf :: "memregion list \<Rightarrow> bool" where
  "regions_wf [] \<longleftrightarrow> True"
| "regions_wf (r # rs) \<longleftrightarrow> region_wf r \<and> region_frames r \<inter> frames_of rs = {} \<and> regions_wf rs"

definition free_of :: "memregion list \<Rightarrow> nat set" where
  "free_of rs = (\<Union>r\<in>set rs. region_free r)"

definition pmm_wf :: "'a pmm_state_scheme \<Rightarrow> bool" where
  "pmm_wf s \<longleftrightarrow> regions_wf (memregions s)"

definition frames :: "'a pmm_state_scheme \<Rightarrow> nat set" where
  "frames s = frames_of (memregions s)"

definition free_frames :: "'a pmm_state_scheme \<Rightarrow> nat set" where
  "free_frames s = free_of (memregions s)"

lemma of_Cons [simp]:
  "frames_of (r # rs) = region_frames r \<union> frames_of rs"
  "free_of (r # rs) = region_free r \<union> free_of rs"
  "frames_of [] = {}" "free_of [] = {}"
  by (simp_all add: frames_of_def free_of_def)

lemma region_free_subset: "region_free r \<subseteq> region_frames r"
  by (auto simp: region_free_def region_frames_def)

lemma free_of_subset: "free_of rs \<subseteq> frames_of rs"
  using region_free_subset by (auto simp: free_of_def frames_of_def)

lemma frame_at_inj: "frame_at r i = frame_at r j \<longleftrightarrow> i = j"
  by (simp add: frame_at_def)

lemma frame_at_bitmap: "frame_at (r\<lparr>bitmap := b\<rparr>) = frame_at r"
  by (simp add: frame_at_def fun_eq_iff)

text \<open>The loop test selects the region of a frame, and the index is the frame's position.\<close>

lemma in_region_iff:
  assumes "region_wf r" "4096 dvd unat page"
  shows "in_region page r \<longleftrightarrow> unat page \<in> region_frames r"
proof -
  have e: "unat (region_addr r + region_len r) = unat (region_addr r) + unat (region_len r)"
    using assms(1) by (intro unat_add32) (simp add: region_wf_def)
  obtain a l p where d: "unat (region_addr r) = 4096 * a" "unat (region_len r) = 4096 * l"
      "unat page = 4096 * p"
    using assms by (auto simp: region_wf_def dvd_def)
  have "unat (size_bits (bitmap r)) = l" using assms(1) d by (simp add: region_wf_def)
  then have "unat page \<in> region_frames r \<longleftrightarrow> a \<le> p \<and> p < a + l"
    by (auto simp: region_frames_def frame_at_def d image_iff intro!: exI [of _ "p - a"])
  then show ?thesis by (auto simp: in_region_def word_le_nat_alt word_less_nat_alt e d)
qed

lemma page_index_eq:
  assumes "region_wf r" "unat page = frame_at r i"
  shows "unat (page_index page r) = i"
proof -
  have "unat (page - region_addr r) = 4096 * i"
    using assms(2) by (subst unat_sub32) (simp_all add: frame_at_def)
  then show ?thesis by (simp add: page_index_def PAGE_SIZE_def unat_div_distrib)
qed

lemma region_frames_bitmap: "size_bits b = size_bits (bitmap r) \<Longrightarrow>
    region_frames (r\<lparr>bitmap := b\<rparr>) = region_frames r"
  by (simp add: region_frames_def frame_at_def)

lemma region_set:
  assumes "region_wf r" "i < unat (size_bits (bitmap r))" "unat w = i"
  obtains b where "bitset_set (bitmap r) w = Inr b" "region_wf (r\<lparr>bitmap := b\<rparr>)"
    "region_free (r\<lparr>bitmap := b\<rparr>) = region_free r - {frame_at r i}"
    "region_frames (r\<lparr>bitmap := b\<rparr>) = region_frames r"
proof -
  have wf: "bitset_wf (bitmap r)" "padding_clear (bitmap r)" using assms(1) by (simp_all add: region_wf_def)
  obtain b where b: "bitset_set (bitmap r) w = Inr b" "bitset_wf b"
      "size_bits b = size_bits (bitmap r)"
      "\<And>j. raw_bit b j \<longleftrightarrow> j = i \<or> raw_bit (bitmap r) j" "length (data b) = length (data (bitmap r))"
    using bitset_set_eq [OF wf(1), of w] assms(2,3) by auto
  have "padding_clear b" using wf(2) assms(2) b by (simp add: padding_clear_def)
  moreover have "bits b = insert i (bits (bitmap r))" using b assms(2) by (auto simp: bits_def)
  then have "{j. j < unat (size_bits b) \<and> j \<notin> bits b}
      = {j. j < unat (size_bits (bitmap r)) \<and> j \<notin> bits (bitmap r)} - {i}"
    unfolding b(3) by blast
  then have "region_free (r\<lparr>bitmap := b\<rparr>) = region_free r - {frame_at r i}"
    by (simp add: region_free_def frame_at_bitmap image_set_diff frame_at_inj inj_def)
  ultimately show thesis
    using that b assms(1) region_frames_bitmap [of b r] by (simp add: region_wf_def)
qed

lemma region_clear:
  assumes "region_wf r" "i < unat (size_bits (bitmap r))" "unat w = i"
  obtains b where "bitset_clear (bitmap r) w = Inr b" "region_wf (r\<lparr>bitmap := b\<rparr>)"
    "region_free (r\<lparr>bitmap := b\<rparr>) = insert (frame_at r i) (region_free r)"
    "region_frames (r\<lparr>bitmap := b\<rparr>) = region_frames r"
proof -
  have wf: "bitset_wf (bitmap r)" "padding_clear (bitmap r)" using assms(1) by (simp_all add: region_wf_def)
  obtain b where b: "bitset_clear (bitmap r) w = Inr b" "bitset_wf b"
      "size_bits b = size_bits (bitmap r)"
      "\<And>j. raw_bit b j \<longleftrightarrow> j \<noteq> i \<and> raw_bit (bitmap r) j" "length (data b) = length (data (bitmap r))"
    using bitset_clear_eq [OF wf(1), of w] assms(2,3) by auto
  have "padding_clear b" using wf(2) assms(2) b by (simp add: padding_clear_def)
  moreover have "bits b = bits (bitmap r) - {i}" using b assms(2) by (auto simp: bits_def)
  then have "{j. j < unat (size_bits b) \<and> j \<notin> bits b}
      = insert i {j. j < unat (size_bits (bitmap r)) \<and> j \<notin> bits (bitmap r)}"
    unfolding b(3) using assms(2) by blast
  then have "region_free (r\<lparr>bitmap := b\<rparr>) = insert (frame_at r i) (region_free r)"
    by (simp add: region_free_def frame_at_bitmap)
  ultimately show thesis
    using that b assms(1) region_frames_bitmap [of b r] by (simp add: region_wf_def)
qed

lemma region_test:
  assumes "region_wf r" "unat page \<in> region_frames r"
  obtains i where "unat page = frame_at r i" "i < unat (size_bits (bitmap r))"
    "unat (page_index page r) = i"
    "bitset_test (bitmap r) (page_index page r) = Inr (unat page \<notin> region_free r)"
proof -
  obtain i where i: "unat page = frame_at r i" "i < unat (size_bits (bitmap r))"
    using assms(2) by (auto simp: region_frames_def)
  note p = page_index_eq [OF assms(1) i(1)]
  have "bitset_test (bitmap r) (page_index page r) = Inr (i \<in> bits (bitmap r))"
    using bitset_test_eq [of "bitmap r" "page_index page r"] assms(1) i(2) p
    by (simp add: region_wf_def)
  moreover have "i \<in> bits (bitmap r) \<longleftrightarrow> unat page \<notin> region_free r"
    using i by (auto simp: region_free_def frame_at_inj)
  ultimately show thesis using that i p by simp
qed

section \<open>The loops on the regions\<close>

lemma reserve_in_spec:
  assumes "regions_wf rs" "4096 dvd unat page"
  shows "if unat page \<in> free_of rs
         then \<exists>rs'. reserve_in page rs = Inr rs' \<and> regions_wf rs'
                \<and> free_of rs' = free_of rs - {unat page} \<and> frames_of rs' = frames_of rs
         else reserve_in page rs = Inl Abort"
  using assms(1)
proof (induction rs)
  case (Cons r rs)
  have wf: "region_wf r" "regions_wf rs" "region_frames r \<inter> frames_of rs = {}"
    using Cons.prems by auto
  show ?case
  proof (cases "unat page \<in> region_frames r")
    case True
    then have here: "in_region page r" "unat page \<notin> free_of rs"
      using in_region_iff [OF wf(1) assms(2)] wf(3) free_of_subset [of rs] by auto
    obtain i where i: "unat page = frame_at r i" "i < unat (size_bits (bitmap r))"
        "unat (page_index page r) = i"
        "bitset_test (bitmap r) (page_index page r) = Inr (unat page \<notin> region_free r)"
      using region_test [OF wf(1) True] by blast
    obtain b where "bitset_set (bitmap r) (page_index page r) = Inr b" "region_wf (r\<lparr>bitmap := b\<rparr>)"
        "region_free (r\<lparr>bitmap := b\<rparr>) = region_free r - {frame_at r i}"
        "region_frames (r\<lparr>bitmap := b\<rparr>) = region_frames r"
      using region_set [OF wf(1) i(2,3)] by blast
    with here i Cons.prems show ?thesis by auto
  next
    case False
    then have "\<not> in_region page r" "unat page \<notin> region_free r"
      using in_region_iff [OF wf(1) assms(2)] region_free_subset by auto
    with Cons.IH [OF wf(2)] Cons.prems wf(3) show ?thesis
      by (auto split: if_splits)
  qed
qed simp

lemma free_in_spec:
  assumes "regions_wf rs" "4096 dvd unat page"
  shows "if unat page \<in> frames_of rs - free_of rs
         then \<exists>rs'. free_in page rs = Inr rs' \<and> regions_wf rs'
                \<and> free_of rs' = insert (unat page) (free_of rs) \<and> frames_of rs' = frames_of rs
         else free_in page rs = Inl Abort"
  using assms(1)
proof (induction rs)
  case (Cons r rs)
  have wf: "region_wf r" "regions_wf rs" "region_frames r \<inter> frames_of rs = {}"
    using Cons.prems by auto
  show ?case
  proof (cases "unat page \<in> region_frames r")
    case True
    then have here: "in_region page r" "unat page \<notin> free_of rs" "unat page \<notin> frames_of rs"
      using in_region_iff [OF wf(1) assms(2)] wf(3) free_of_subset [of rs] by auto
    obtain i where i: "unat page = frame_at r i" "i < unat (size_bits (bitmap r))"
        "unat (page_index page r) = i"
        "bitset_test (bitmap r) (page_index page r) = Inr (unat page \<notin> region_free r)"
      using region_test [OF wf(1) True] by blast
    obtain b where "bitset_clear (bitmap r) (page_index page r) = Inr b" "region_wf (r\<lparr>bitmap := b\<rparr>)"
        "region_free (r\<lparr>bitmap := b\<rparr>) = insert (frame_at r i) (region_free r)"
        "region_frames (r\<lparr>bitmap := b\<rparr>) = region_frames r"
      using region_clear [OF wf(1) i(2,3)] by blast
    with here i Cons.prems True show ?thesis by auto
  next
    case False
    then have "\<not> in_region page r" "unat page \<notin> region_free r"
      using in_region_iff [OF wf(1) assms(2)] region_free_subset by auto
    with Cons.IH [OF wf(2)] Cons.prems wf(3) False show ?thesis
      by (auto split: if_splits)
  qed
qed simp

lemma reserved_in_spec:
  assumes "regions_wf rs" "4096 dvd unat page"
  shows "reserved_in page rs = Inr (unat page \<notin> free_of rs)"
  using assms(1)
proof (induction rs)
  case (Cons r rs)
  have wf: "region_wf r" "regions_wf rs" "region_frames r \<inter> frames_of rs = {}"
    using Cons.prems by auto
  show ?case
  proof (cases "unat page \<in> region_frames r")
    case True
    then have "in_region page r" "unat page \<notin> free_of rs"
      using in_region_iff [OF wf(1) assms(2)] wf(3) free_of_subset [of rs] by auto
    moreover have "bitset_test (bitmap r) (page_index page r) = Inr (unat page \<notin> region_free r)"
      using region_test [OF wf(1) True] by blast
    ultimately show ?thesis by simp
  next
    case False
    then have "\<not> in_region page r" "unat page \<notin> region_free r"
      using in_region_iff [OF wf(1) assms(2)] region_free_subset by auto
    with Cons.IH [OF wf(2)] show ?thesis by simp
  qed
qed simp

text \<open>
  The search of one region: the least free page, or none. A region whose page count is
  not a multiple of 32 does not report that it is full.
\<close>

definition reports_full :: "memregion \<Rightarrow> bool" where
  "reports_full r \<longleftrightarrow> unat (size_bits (bitmap r)) mod 32 = 0"

lemma region_find:
  assumes "region_wf r"
  shows "if region_free r = {}
         then bitset_find (bitmap r) 0 = (if reports_full r then Inr BITSET_INVALID_INDEX else Inl Assert_Failed)
         else \<exists>i. i < unat (size_bits (bitmap r)) \<and> i \<notin> bits (bitmap r)
                \<and> bitset_find (bitmap r) 0 = Inr (of_nat i)"
proof -
  let ?b = "bitmap r"
  have wf: "bitset_wf ?b" "padding_clear ?b" using assms by (simp_all add: region_wf_def)
  have ex: "region_free r = {} \<longleftrightarrow> \<not> (\<exists>i<unat (size_bits ?b). i \<notin> bits ?b)"
    by (auto simp: region_free_def)
  show ?thesis
  proof (cases "region_free r = {}")
    case True
    with ex have none: "\<not> (\<exists>i<unat (size_bits ?b). i \<notin> bits ?b)" by (simp only: simp_thms)
    have "bitset_find ?b 0 = (if reports_full r then Inr BITSET_INVALID_INDEX else Inl Assert_Failed)"
      using bitset_find_clear_cases(2,3) [OF wf none]
      by (cases "reports_full r") (simp_all only: reports_full_def if_True if_False simp_thms)
    then show ?thesis by (simp only: True if_True simp_thms)
  next
    case False
    with ex have "\<exists>i<unat (size_bits ?b). i \<notin> bits ?b" by (simp only: simp_thms)
    from bitset_find_clear_cases(1) [OF wf this] False show ?thesis by (simp only: if_False) blast
  qed
qed

lemma unat_frame:
  assumes "region_wf r" "i < unat (size_bits (bitmap r))"
  shows "unat (of_nat i :: u32) = i" "(of_nat i :: u32) \<noteq> BITSET_INVALID_INDEX"
    "unat (region_addr r + of_nat i * PAGE_SIZE) = frame_at r i"
proof -
  obtain a l where d: "unat (region_addr r) = 4096 * a" "unat (region_len r) = 4096 * l"
      "4096 * a + 4096 * l < 4294967296" "unat (size_bits (bitmap r)) = l"
    using assms(1) by (auto simp: region_wf_def dvd_def)
  then have i: "4096 * a + 4096 * i < 4294967296" using assms(2) by linarith
  then have i2: "i < 1048576" by linarith
  then show u: "unat (of_nat i :: u32) = i" by (simp add: unat_of_nat)
  have "i \<noteq> unat (0xFFFFFFFF :: u32)" using i2 by simp
  then show "(of_nat i :: u32) \<noteq> BITSET_INVALID_INDEX" using u by (metis BITSET_INVALID_INDEX_def)
  have "unat (of_nat i * PAGE_SIZE) = 4096 * i"
    using u i2 by (simp add: PAGE_SIZE_def unat_word_ariths)
  then show "unat (region_addr r + of_nat i * PAGE_SIZE) = frame_at r i"
    using i d by (subst unat_add32) (simp_all add: frame_at_def)
qed

lemma alloc_here:
  assumes "region_wf r" "region_free r \<noteq> {}"
  obtains f b where "alloc_in (r # rs) = Inr (f, r\<lparr>bitmap := b\<rparr> # rs)" "unat f \<in> region_free r"
    "region_wf (r\<lparr>bitmap := b\<rparr>)" "region_free (r\<lparr>bitmap := b\<rparr>) = region_free r - {unat f}"
    "region_frames (r\<lparr>bitmap := b\<rparr>) = region_frames r"
proof -
  obtain i where i: "i < unat (size_bits (bitmap r))" "i \<notin> bits (bitmap r)"
      "bitset_find (bitmap r) 0 = Inr (of_nat i)"
    using region_find [OF assms(1)] assms(2) by (auto simp only: if_False)
  note u = unat_frame [OF assms(1) i(1)]
  obtain b where b: "bitset_set (bitmap r) (of_nat i) = Inr b" "region_wf (r\<lparr>bitmap := b\<rparr>)"
      "region_free (r\<lparr>bitmap := b\<rparr>) = region_free r - {frame_at r i}"
      "region_frames (r\<lparr>bitmap := b\<rparr>) = region_frames r"
    using region_set [OF assms(1) i(1) u(1)] by blast
  have "alloc_in (r # rs) = Inr (region_addr r + of_nat i * PAGE_SIZE, r\<lparr>bitmap := b\<rparr> # rs)"
    using i(3) u(2) b(1) by simp
  moreover have "frame_at r i \<in> region_free r" using i by (auto simp: region_free_def)
  ultimately show thesis using that b u(3) by metis
qed

lemma alloc_in_full:
  assumes "region_wf r" "region_free r = {}"
  shows "alloc_in (r # rs) =
    (if reports_full r then res_bind (alloc_in rs) (\<lambda>(f, rs'). Inr (f, r # rs')) else Inl Assert_Failed)"
  using region_find [OF assms(1)] assms(2) by simp

lemma alloc_in_result:
  assumes "regions_wf rs" "alloc_in rs = Inr (f, rs')"
  shows "regions_wf rs' \<and> frames_of rs' = frames_of rs
    \<and> (if free_of rs = {} then f = INVALID_FRAME \<and> rs' = rs
       else unat f \<in> free_of rs \<and> free_of rs' = free_of rs - {unat f})"
  using assms
proof (induction rs arbitrary: rs')
  case (Cons r rs)
  have wf: "region_wf r" "regions_wf rs" "region_frames r \<inter> frames_of rs = {}"
    using Cons.prems by auto
  show ?case
  proof (cases "region_free r = {}")
    case True
    then obtain rs'' where rs'': "alloc_in rs = Inr (f, rs'')" "rs' = r # rs''"
      using Cons.prems(2) unfolding alloc_in_full [OF wf(1) True]
      by (auto simp: res_bind_eq_Inr split: if_splits)
    show ?thesis using Cons.IH [OF wf(2) rs''(1)] rs''(2) wf True by (auto split: if_splits)
  next
    case False
    obtain f' b where fb: "alloc_in (r # rs) = Inr (f', r\<lparr>bitmap := b\<rparr> # rs)" "unat f' \<in> region_free r"
        "region_wf (r\<lparr>bitmap := b\<rparr>)" "region_free (r\<lparr>bitmap := b\<rparr>) = region_free r - {unat f'}"
        "region_frames (r\<lparr>bitmap := b\<rparr>) = region_frames r"
      using alloc_here [OF wf(1) False, of rs] by blast
    have "unat f' \<notin> free_of rs"
      using fb(2) region_free_subset [of r] free_of_subset [of rs] wf(3) by blast
    with fb Cons.prems(2) wf show ?thesis by auto
  qed
qed simp

lemma alloc_in_total:
  "regions_wf rs \<Longrightarrow> \<forall>r\<in>set rs. region_free r = {} \<longrightarrow> reports_full r \<Longrightarrow> \<exists>f rs'. alloc_in rs = Inr (f, rs')"
proof (induction rs)
  case (Cons r rs)
  then have wf: "region_wf r" and IH: "\<exists>f rs'. alloc_in rs = Inr (f, rs')" by auto
  show ?case
  proof (cases "region_free r = {}")
    case True
    with IH Cons.prems(2) show ?thesis by (auto simp only: alloc_in_full [OF wf True]) auto
  next
    case False
    then show ?thesis using alloc_here [OF wf False, of rs] by metis
  qed
qed simp

section \<open>The allocator as a set of free frames\<close>

text \<open>
  The contract of a frame allocator: \<open>inv\<close> holds on entry and exit, \<open>free\<close> is the set of
  frames that can be handed out, an allocation that succeeds takes one element out of it and
  a release puts one back. What a client such as the page tables or the heap can rely on.
\<close>

locale frame_allocator =
  fixes inv :: "'st \<Rightarrow> bool"
    and free :: "'st \<Rightarrow> nat set"
    and alloc :: "'st \<Rightarrow> (u32 \<times> 'st) res"
    and release :: "u32 \<Rightarrow> 'st \<Rightarrow> (unit \<times> 'st) res"
    and invalid :: u32
  assumes alloc_ok: "\<lbrakk>inv st; alloc st = Inr (f, st'); f \<noteq> invalid\<rbrakk>
      \<Longrightarrow> inv st' \<and> unat f \<in> free st \<and> free st' = free st - {unat f}"
    and alloc_none: "\<lbrakk>inv st; alloc st = Inr (invalid, st')\<rbrakk> \<Longrightarrow> inv st' \<and> free st = {} \<and> free st' = {}"
    and release_ok: "\<lbrakk>inv st; release f st = Inr ((), st')\<rbrakk>
      \<Longrightarrow> inv st' \<and> unat f \<notin> free st \<and> free st' = insert (unat f) (free st)"
begin

primrec alloc_many :: "nat \<Rightarrow> 'st \<Rightarrow> (u32 list \<times> 'st) res" where
  "alloc_many 0 st = Inr ([], st)"
| "alloc_many (Suc n) st =
     res_bind (alloc st) (\<lambda>(f, st1). res_bind (alloc_many n st1) (\<lambda>(fs, st2). Inr (f # fs, st2)))"

lemma alloc_many_distinct:
  assumes "inv st" "alloc_many n st = Inr (fs, st')" "invalid \<notin> set fs"
  shows "inv st' \<and> distinct fs \<and> unat ` set fs \<subseteq> free st \<and> free st' = free st - unat ` set fs"
  using assms
proof (induction n arbitrary: st fs)
  case (Suc n)
  obtain f st1 gs where s: "alloc st = Inr (f, st1)" "alloc_many n st1 = Inr (gs, st')" "fs = f # gs"
    using Suc.prems(2) by (auto simp: res_bind_eq_Inr)
  have a: "inv st1" "unat f \<in> free st" "free st1 = free st - {unat f}"
    using alloc_ok [OF Suc.prems(1) s(1)] Suc.prems(3) s(3) by auto
  have i: "inv st'" "distinct gs" "unat ` set gs \<subseteq> free st1" "free st' = free st1 - unat ` set gs"
    using Suc.IH [OF a(1) s(2)] Suc.prems(3) s(3) by auto
  then show ?case using a s(3) by auto
qed simp

lemma release_alloc:
  assumes "inv st" "release f st = Inr ((), st1)" "alloc st1 = Inr (g, st2)"
  shows "g \<noteq> invalid"
  using release_ok [OF assms(1,2)] alloc_none [of st1 st2] assms(3) by auto

end

section \<open>The operations of the state\<close>

lemma memregions_cli [simp]: "memregions (cli s) = memregions s"
  by (simp add: cli_def)

lemma critical_regions:
  "critical (\<lambda>s. res_bind (g (memregions s)) (\<lambda>(r, rs). Inr (r, s\<lparr>memregions := rs\<rparr>))) s
     = res_bind (g (memregions s)) (\<lambda>(r, rs). Inr (r, s\<lparr>memregions := rs\<rparr>))"
proof (cases "g (memregions s)")
  case (Inr x)
  obtain r rs where x: "x = (r, rs)" by (cases x)
  have "restore_if (fst (disable_if s)) ((cli s)\<lparr>memregions := rs\<rparr>)
      = (cli s)\<lparr>memregions := rs\<rparr>\<lparr>eflags := eflags s\<rparr>"
    by (rule restore_after_cli) simp
  also have "\<dots> = s\<lparr>memregions := rs\<rparr>" by (simp add: cli_def)
  finally show ?thesis using Inr x by (simp add: critical_def disable_if_def Let_def)
qed (simp add: critical_def disable_if_def Let_def)

lemma pmm_alloc_eq:
  "pmm_alloc s = res_bind (alloc_in (memregions s)) (\<lambda>(f, rs). Inr (f, s\<lparr>memregions := rs\<rparr>))"
  unfolding pmm_alloc_def by (rule critical_regions)

lemma page_mod_iff: "page mod PAGE_SIZE = 0 \<longleftrightarrow> 4096 dvd unat page"
  by (simp add: PAGE_SIZE_def dvd_eq_mod_eq_0 word_unat_eq_iff unat_mod_distrib)

lemma page_aligned_iff: "IS_ALIGNED page PAGE_SIZE \<longleftrightarrow> 4096 dvd unat page"
  by (simp add: IS_ALIGNED_iff PAGE_SIZE_def)

lemma critical_unit:
  "critical (\<lambda>s. res_bind (g (memregions s)) (\<lambda>rs. Inr ((), s\<lparr>memregions := rs\<rparr>))) s
     = res_bind (g (memregions s)) (\<lambda>rs. Inr ((), s\<lparr>memregions := rs\<rparr>))"
  using critical_regions [of "\<lambda>m. res_bind (g m) (\<lambda>rs. Inr ((), rs))" s]
  by (simp add: res_bind_assoc)

lemma pmm_reserve_eq:
  "pmm_reserve page s = assert_then (4096 dvd unat page)
     (res_bind (reserve_in page (memregions s)) (\<lambda>rs. Inr ((), s\<lparr>memregions := rs\<rparr>)))"
  unfolding pmm_reserve_def page_mod_iff critical_unit ..

lemma pmm_free_eq:
  "pmm_free page s = assert_then (4096 dvd unat page)
     (res_bind (free_in page (memregions s)) (\<lambda>rs. Inr ((), s\<lparr>memregions := rs\<rparr>)))"
  unfolding pmm_free_def page_aligned_iff critical_unit ..

lemma frames_aligned:
  "regions_wf rs \<Longrightarrow> f \<in> frames_of rs \<Longrightarrow> 4096 dvd f \<and> f + 4096 < 2 ^ 32"
proof (induction rs)
  case (Cons r rs)
  show ?case
  proof (cases "f \<in> region_frames r")
    case True
    have wf: "region_wf r" using Cons.prems by simp
    obtain a l where d: "unat (region_addr r) = 4096 * a" "unat (region_len r) = 4096 * l"
        "4096 * a + 4096 * l < 4294967296" "unat (size_bits (bitmap r)) = l"
      using wf by (auto simp: region_wf_def dvd_def)
    obtain i where "i < l" "f = 4096 * a + 4096 * i"
      using True d by (auto simp: region_frames_def frame_at_def)
    then show ?thesis using d(3) by (simp add: dvd_def) (metis distrib_left)
  next
    case False
    with Cons show ?thesis by simp
  qed
qed simp

lemma INVALID_FRAME_not_frame: "pmm_wf s \<Longrightarrow> unat INVALID_FRAME \<notin> frames s"
  using frames_aligned [of "memregions s" "unat INVALID_FRAME"]
  by (auto simp: pmm_wf_def frames_def INVALID_FRAME_def)

lemma pmm_alloc_result:
  assumes "pmm_wf s" "pmm_alloc s = Inr (f, s')"
  obtains rs' where "s' = s\<lparr>memregions := rs'\<rparr>" "pmm_wf s'" "frames s' = frames s"
    "if free_frames s = {} then f = INVALID_FRAME \<and> s' = s
     else f \<noteq> INVALID_FRAME \<and> unat f \<in> free_frames s \<and> free_frames s' = free_frames s - {unat f}"
proof -
  obtain rs' where rs': "alloc_in (memregions s) = Inr (f, rs')" "s' = s\<lparr>memregions := rs'\<rparr>"
    using assms(2) by (auto simp: pmm_alloc_eq res_bind_eq_Inr)
  note r = alloc_in_result [OF assms(1) [unfolded pmm_wf_def] rs'(1)]
  have "f \<noteq> INVALID_FRAME" if "unat f \<in> free_frames s"
    using that INVALID_FRAME_not_frame [OF assms(1)] free_of_subset [of "memregions s"]
    by (auto simp: free_frames_def frames_def)
  then show thesis
    using r rs'(2) that by (auto simp: pmm_wf_def frames_def free_frames_def split: if_splits)
qed

lemma pmm_free_result:
  assumes "pmm_wf s" "pmm_free f s = Inr ((), s')"
  shows "pmm_wf s' \<and> unat f \<notin> free_frames s \<and> free_frames s' = insert (unat f) (free_frames s)"
proof -
  obtain rs' where d: "4096 dvd unat f" "free_in f (memregions s) = Inr rs'" "s' = s\<lparr>memregions := rs'\<rparr>"
    using assms(2) by (auto simp: pmm_free_eq res_simps)
  from free_in_spec [OF assms(1) [unfolded pmm_wf_def] d(1)] d(2,3) show ?thesis
    by (auto simp: pmm_wf_def free_frames_def split: if_splits)
qed

interpretation pm: frame_allocator pmm_wf free_frames pmm_alloc pmm_free INVALID_FRAME
proof
  fix s s' :: "'a pmm_state_scheme" and f
  assume a: "pmm_wf s" "pmm_alloc s = Inr (f, s')" "f \<noteq> INVALID_FRAME"
  show "pmm_wf s' \<and> unat f \<in> free_frames s \<and> free_frames s' = free_frames s - {unat f}"
    by (rule pmm_alloc_result [OF a(1,2)]) (use a(3) in \<open>simp split: if_splits\<close>)
next
  fix s s' :: "'a pmm_state_scheme"
  assume a: "pmm_wf s" "pmm_alloc s = Inr (INVALID_FRAME, s')"
  show "pmm_wf s' \<and> free_frames s = {} \<and> free_frames s' = {}"
    by (rule pmm_alloc_result [OF a]) (simp split: if_splits)
next
  fix s s' :: "'a pmm_state_scheme" and f
  assume "pmm_wf s" "pmm_free f s = Inr ((), s')"
  then show "pmm_wf s' \<and> unat f \<notin> free_frames s \<and> free_frames s' = insert (unat f) (free_frames s)"
    by (rule pmm_free_result)
qed

section \<open>Properties\<close>

text \<open>
  C7: \<open>pmm_alloc\<close> returns a frame that was free and is taken afterwards, with every other
  frame as it was, the interrupt flag restored and the invariant kept; it returns
  \<open>INVALID_FRAME\<close> exactly when no frame is free. It is stated for memory in which every
  exhausted region has a multiple of 32 pages: on another exhausted region the search of the bitmap fails an
  assertion.
\<close>

theorem pmm_alloc_takes_a_free_frame:
  assumes "pmm_wf s" "\<forall>r\<in>set (memregions s). region_free r = {} \<longrightarrow> unat (size_bits (bitmap r)) mod 32 = 0"
  shows "\<exists>f s'. pmm_alloc s = Inr (f, s') \<and> pmm_wf s' \<and> frames s' = frames s \<and> eflags s' = eflags s
    \<and> (f = INVALID_FRAME \<longleftrightarrow> free_frames s = {})
    \<and> (f \<noteq> INVALID_FRAME \<longrightarrow> unat f \<in> free_frames s \<and> free_frames s' = free_frames s - {unat f})"
proof -
  obtain f rs' where "alloc_in (memregions s) = Inr (f, rs')"
    using alloc_in_total [of "memregions s"] assms by (auto simp: pmm_wf_def reports_full_def)
  then have a: "pmm_alloc s = Inr (f, s\<lparr>memregions := rs'\<rparr>)" by (simp add: pmm_alloc_eq)
  show ?thesis
    by (rule pmm_alloc_result [OF assms(1) a]) (use a in \<open>auto split: if_splits\<close>)
qed

text \<open>A machine with one region of 32 pages at 1 MiB, its first page taken.\<close>

definition sample_region :: memregion where
  "sample_region = \<lparr>region_addr = 0x100000, region_len = 0x20000,
     bitmap = \<lparr>size_bits = 32, element_count = 1, data = [1]\<rparr>\<rparr>"

definition sample_pmm :: pmm_state where
  "sample_pmm = \<lparr>eflags = 0x202, initialized = True, memregions = [sample_region]\<rparr>"

lemma sample_region_wf: "region_wf sample_region"
proof -
  have "padding_clear (bitmap sample_region)" unfolding padding_clear_upt by code_simp
  then show ?thesis by (simp add: region_wf_def bitset_wf_def sample_region_def)
qed

lemma sample_pmm_wf: "pmm_wf sample_pmm"
  by (simp add: pmm_wf_def sample_pmm_def sample_region_wf)

theorem pmm_alloc_takes_a_free_frame_witness:
  "\<exists>f s'. pmm_alloc sample_pmm = Inr (f, s') \<and> pmm_wf s' \<and> f \<noteq> INVALID_FRAME
    \<and> unat f \<in> free_frames sample_pmm \<and> free_frames s' = free_frames sample_pmm - {unat f}"
proof -
  have "\<forall>r\<in>set (memregions sample_pmm). region_free r = {} \<longrightarrow> unat (size_bits (bitmap r)) mod 32 = 0"
    by (simp add: sample_pmm_def sample_region_def)
  moreover have "frame_at sample_region 1 \<in> free_frames sample_pmm"
    by (auto simp: free_frames_def sample_pmm_def region_free_def sample_region_def bits_def raw_bit_def)
  ultimately show ?thesis
    using pmm_alloc_takes_a_free_frame [OF sample_pmm_wf] by (metis empty_iff)
qed

text \<open>
  C9: \<open>pmm_reserve\<close> takes exactly the given frame out of the free set, and aborts, without
  a result, for a frame that is taken or belongs to no region; \<open>pmm_free\<close> is its inverse and
  aborts for a frame that is free already or belongs to no region. A page address that is
  not aligned fails the assertion of both.
\<close>

theorem pmm_reserve_free_spec:
  assumes "pmm_wf s"
  shows "(if \<not> 4096 dvd unat p then pmm_reserve p s = Inl Assert_Failed \<and> pmm_free p s = Inl Assert_Failed
     else if unat p \<in> free_frames s then
       pmm_free p s = Inl Abort \<and>
       (\<exists>s'. pmm_reserve p s = Inr ((), s') \<and> pmm_wf s' \<and> frames s' = frames s \<and> eflags s' = eflags s
          \<and> free_frames s' = free_frames s - {unat p})
     else if unat p \<in> frames s then
       pmm_reserve p s = Inl Abort \<and>
       (\<exists>s'. pmm_free p s = Inr ((), s') \<and> pmm_wf s' \<and> frames s' = frames s \<and> eflags s' = eflags s
          \<and> free_frames s' = insert (unat p) (free_frames s))
     else pmm_reserve p s = Inl Abort \<and> pmm_free p s = Inl Abort)"
proof (cases "4096 dvd unat p")
  case True
  note wf = assms [unfolded pmm_wf_def]
  from reserve_in_spec [OF wf True] free_in_spec [OF wf True] free_of_subset [of "memregions s"] True
  show ?thesis
    by (auto simp: pmm_reserve_eq pmm_free_eq pmm_wf_def frames_def free_frames_def split: if_splits)
qed (simp add: pmm_reserve_eq pmm_free_eq)

theorem pmm_reserve_free_spec_witness:
  "pmm_reserve 0x100000 sample_pmm = Inl Abort \<and> pmm_free 0x101000 sample_pmm = Inl Abort"
proof -
  have "unat (0x100000 :: u32) \<notin> free_frames sample_pmm" "unat (0x101000 :: u32) \<in> free_frames sample_pmm"
    by (auto simp: free_frames_def sample_pmm_def region_free_def frame_at_def sample_region_def
        bits_def raw_bit_def image_iff intro!: exI [of _ 1])
  then show ?thesis
    using pmm_reserve_free_spec [OF sample_pmm_wf, of "0x100000"]
      pmm_reserve_free_spec [OF sample_pmm_wf, of "0x101000"]
    by (auto split: if_splits)
qed

text \<open>
  Further: a region that is full and whose page count is not a multiple of 32 stops the kernel:
  \<open>pmm_alloc\<close> fails an assertion instead of trying the remaining regions, even when these
  have free frames.
\<close>

theorem pmm_alloc_full_region:
  assumes "region_wf r" "region_free r = {}" "\<not> reports_full r" "memregions s = r # rs"
  shows "pmm_alloc s = Inl Assert_Failed"
  using alloc_in_full [OF assms(1,2)] assms(3,4) by (simp only: pmm_alloc_eq) simp

definition full_region :: memregion where
  "full_region = \<lparr>region_addr = 0x1000, region_len = 0x3000,
     bitmap = \<lparr>size_bits = 3, element_count = 1, data = [7]\<rparr>\<rparr>"

theorem pmm_alloc_full_region_witness:
  "pmm_alloc (sample_pmm\<lparr>memregions := [full_region, sample_region]\<rparr>) = Inl Assert_Failed"
proof (rule pmm_alloc_full_region)
  have "padding_clear (bitmap full_region)" unfolding padding_clear_upt by code_simp
  then show "region_wf full_region" by (simp add: region_wf_def bitset_wf_def full_region_def)
  have "\<forall>i\<in>set [0..<unat (size_bits (bitmap full_region))]. raw_bit (bitmap full_region) i" by code_simp
  then show "region_free full_region = {}" by (auto simp: region_free_def bits_def)
  show "\<not> reports_full full_region" by (simp add: reports_full_def full_region_def)
qed simp

end
