(* ===== verification/Vmm.thy ===== *)
theory Vmm
  imports Pmm
begin

text \<open>
  Page tables, \<open>kernel/vmm.c\<close> as far as it works on the current page directory:
  mapping, unmapping and inspecting pages through the recursive mapping. Physical
  memory is a function from word addresses to words, and every access of the code
  to a table goes through the translation of the processor, so the recursive
  mapping is part of what is proved. (The parts of the file that allocate from
  the kernel heap are in the theory of the heap's clients.)
\<close>

section \<open>Constants and address arithmetic\<close>

definition PTE_PRESENT :: u32 where "PTE_PRESENT = 1"
definition PTE_WRITABLE :: u32 where "PTE_WRITABLE = 2"
definition PTE_FRAME :: u32 where "PTE_FRAME = 0xFFFFF000"
definition PTE_FLAGS :: u32 where "PTE_FLAGS = 0xFFF"
definition PDE_PRESENT :: u32 where "PDE_PRESENT = 1"
definition PDE_WRITABLE :: u32 where "PDE_WRITABLE = 2"
definition PDE_USER :: u32 where "PDE_USER = 4"
definition PDE_FRAME :: u32 where "PDE_FRAME = 0xFFFFF000"
definition PDE_FLAGS :: u32 where "PDE_FLAGS = 0xFFF"
definition VMM_PAGE_PRESENT :: u32 where "VMM_PAGE_PRESENT = 1"
definition VMM_PAGE_WRITABLE :: u32 where "VMM_PAGE_WRITABLE = 2"
definition VMM_PAGE_USER :: u32 where "VMM_PAGE_USER = 4"

lemmas page_flag_defs = PTE_PRESENT_def PTE_WRITABLE_def PTE_FRAME_def PTE_FLAGS_def
  PDE_PRESENT_def PDE_WRITABLE_def PDE_USER_def PDE_FRAME_def PDE_FLAGS_def
  VMM_PAGE_PRESENT_def VMM_PAGE_WRITABLE_def VMM_PAGE_USER_def

definition PAGE_DIRECTORY_INDEX :: "u32 \<Rightarrow> u32" where
  "PAGE_DIRECTORY_INDEX x = drop_bit 22 x AND 0x3ff"

definition PAGE_TABLE_INDEX :: "u32 \<Rightarrow> u32" where
  "PAGE_TABLE_INDEX x = drop_bit 12 x AND 0x3ff"

definition KERNEL_START :: u32 where
  "KERNEL_START = 0xC0000000"

definition USER_PDE_START :: u32 where
  "USER_PDE_START = 0"

definition USER_PDE_END :: u32 where
  "USER_PDE_END = PAGE_DIRECTORY_INDEX KERNEL_START - 1"

definition KERNEL_PDE_START :: u32 where
  "KERNEL_PDE_START = PAGE_DIRECTORY_INDEX KERNEL_START"

definition KERNEL_PDE_END :: u32 where
  "KERNEL_PDE_END = 1022"

definition RECURSIVE_MAPPING_PDE :: u32 where
  "RECURSIVE_MAPPING_PDE = 1023"

record va_info =
  dir_index :: u32
  table_index :: u32

definition va_info :: "u32 \<Rightarrow> va_info" where
  "va_info va = \<lparr>dir_index = PAGE_DIRECTORY_INDEX va, table_index = PAGE_TABLE_INDEX va\<rparr>"

definition get_va :: "u32 \<Rightarrow> u32 \<Rightarrow> u32" where
  "get_va di ti = di * (4 * 1024 * 1024) + ti * (4 * 1024)"

section \<open>The processor's view of memory\<close>

text \<open>
  The state adds physical memory, the control registers and the variables of \<open>vmm.c\<close>
  to the state of the frame allocator.
\<close>

record vmm_state = pmm_state +
  phys :: "u32 \<Rightarrow> u32"
  cr3 :: u32
  cr0 :: u32
  paging_enabled :: bool
  current_pagedir_va :: u32

definition CR0_WP :: u32 where
  "CR0_WP = push_bit 16 1"

text \<open>
  Address translation of the processor in 32-bit mode with large pages enabled, as
  \<open>kernel/kstub.asm\<close> sets it up: a directory entry with bit 7 maps 4 MiB, any other leads
  to a page table. A missing entry, or a write to a read-only page while \<open>CR0_WP\<close> is set,
  raises a page fault, whose handler in \<open>kernel/kmain.c\<close> aborts. The translation buffer is
  not part of the model: every walk reads the tables in memory.
\<close>

definition entry_addr :: "u32 \<Rightarrow> u32 \<Rightarrow> u32" where
  "entry_addr table i = (table AND 0xFFFFF000) + 4 * i"

definition writable_ok :: "'a vmm_state_scheme \<Rightarrow> bool \<Rightarrow> u32 \<Rightarrow> bool" where
  "writable_ok s write e \<longleftrightarrow> \<not> write \<or> cr0 s AND CR0_WP = 0 \<or> e AND 2 \<noteq> 0"

definition translate :: "'a vmm_state_scheme \<Rightarrow> bool \<Rightarrow> u32 \<Rightarrow> u32 res" where
  "translate s write va =
     (let pde = phys s (entry_addr (cr3 s) (PAGE_DIRECTORY_INDEX va)) in
      if pde AND 1 = 0 \<or> \<not> writable_ok s write pde then Inl Abort
      else if pde AND 0x80 \<noteq> 0 then Inr ((pde AND 0xFFC00000) + (va AND 0x3FFFFF))
      else
        let pte = phys s (entry_addr pde (PAGE_TABLE_INDEX va)) in
        if pte AND 1 = 0 \<or> \<not> writable_ok s write pte then Inl Abort
        else Inr ((pte AND 0xFFFFF000) + (va AND 0xFFF)))"

definition load32 :: "'a vmm_state_scheme \<Rightarrow> u32 \<Rightarrow> u32 res" where
  "load32 s va = res_bind (translate s False va) (\<lambda>pa. Inr (phys s pa))"

definition store32 :: "'a vmm_state_scheme \<Rightarrow> u32 \<Rightarrow> u32 \<Rightarrow> 'a vmm_state_scheme res" where
  "store32 s va w = res_bind (translate s True va) (\<lambda>pa. Inr (s\<lparr>phys := (phys s)(pa := w)\<rparr>))"

text \<open>\<open>bzero\<close> of the 1024 entries of a page directory or page table at \<open>va\<close>.\<close>

primrec zero_words :: "nat list \<Rightarrow> u32 \<Rightarrow> 'a vmm_state_scheme \<Rightarrow> 'a vmm_state_scheme res" where
  "zero_words [] va s = Inr s"
| "zero_words (i # is) va s = res_bind (store32 s (va + 4 * of_nat i) 0) (zero_words is va)"

definition bzero_table :: "u32 \<Rightarrow> 'a vmm_state_scheme \<Rightarrow> 'a vmm_state_scheme res" where
  "bzero_table va s = zero_words [0..<1024] va s"

section \<open>Operations on the current page directory\<close>

definition current_pagedir :: u32 where
  "current_pagedir = 0xFFFFF000"

definition pagedir_entry :: "u32 \<Rightarrow> u32 \<Rightarrow> u32" where
  "pagedir_entry pagedir i = pagedir + 4 * i"

definition flush_tlb :: "'a vmm_state_scheme \<Rightarrow> (unit \<times> 'a vmm_state_scheme) res" where
  "flush_tlb = critical (\<lambda>s. Inr ((), s\<lparr>cr3 := cr3 s\<rparr>))"

definition get_pagetable :: "va_info \<Rightarrow> u32" where
  "get_pagetable info = 0xFFC00000 + dir_index info * PAGE_SIZE"

definition vmm_paging_enabled :: "'a vmm_state_scheme \<Rightarrow> bool" where
  "vmm_paging_enabled s = paging_enabled s"

definition vmm_map_body :: "u32 \<Rightarrow> u32 \<Rightarrow> u32 \<Rightarrow> 'a vmm_state_scheme \<Rightarrow> (unit \<times> 'a vmm_state_scheme) res" where
  "vmm_map_body va pa flags s =
     (let info = va_info va;
          pde_addr = pagedir_entry current_pagedir (dir_index info);
          table = get_pagetable info;
          pte_addr = pagedir_entry table (table_index info)
      in
      res_bind (load32 s pde_addr) (\<lambda>pde.
        if pde AND PDE_PRESENT = 0 then
          res_bind (pmm_alloc s) (\<lambda>(table_pa, s).
          assert_then (table_pa \<noteq> INVALID_FRAME)
          (res_bind (store32 s pde_addr (table_pa OR PDE_PRESENT OR PDE_USER OR PDE_WRITABLE)) (\<lambda>s.
           res_bind (flush_tlb s) (\<lambda>(_, s).
           res_bind (load32 s pde_addr) (\<lambda>pde.
           assert_then (pde AND PDE_PRESENT \<noteq> 0)
           (res_bind (bzero_table table s) (\<lambda>s.
            res_bind (store32 s pte_addr (pa AND PTE_FRAME OR flags)) (\<lambda>s.
            flush_tlb s))))))))
        else
          res_bind (load32 s pte_addr) (\<lambda>pte.
          if pte AND PTE_PRESENT \<noteq> 0 then Inl Abort
          else
            res_bind (store32 s pte_addr (pa AND PTE_FRAME OR flags)) (\<lambda>s.
            flush_tlb s))))"

definition vmm_map :: "u32 \<Rightarrow> u32 \<Rightarrow> u32 \<Rightarrow> 'a vmm_state_scheme \<Rightarrow> (unit \<times> 'a vmm_state_scheme) res" where
  "vmm_map va pa flags s =
     assert_then (paging_enabled s) (
     assert_then (flags AND VMM_PAGE_PRESENT \<noteq> 0) (
     assert_then (IS_ALIGNED va PAGE_SIZE) (
     assert_then (IS_ALIGNED pa PAGE_SIZE) (
       critical (vmm_map_body va pa flags) s))))"

definition vmm_remap :: "u32 \<Rightarrow> u32 \<Rightarrow> 'a vmm_state_scheme \<Rightarrow> (unit \<times> 'a vmm_state_scheme) res" where
  "vmm_remap va flags s =
     assert_then (paging_enabled s) (
     assert_then (IS_ALIGNED va PAGE_SIZE) (
     assert_then (flags AND VMM_PAGE_PRESENT \<noteq> 0) (
       critical (\<lambda>s.
         let info = va_info va;
             table = get_pagetable info;
             pte_addr = pagedir_entry table (table_index info)
         in
         res_bind (load32 s (pagedir_entry current_pagedir (dir_index info))) (\<lambda>pde.
         assert_then (pde AND PDE_PRESENT \<noteq> 0)
         (res_bind (load32 s pte_addr) (\<lambda>pte.
          assert_then (pte AND PTE_PRESENT \<noteq> 0)
          (res_bind (store32 s pte_addr (pte AND PTE_FRAME OR flags)) (\<lambda>s.
           flush_tlb s)))))) s)))"

definition vmm_unmap :: "u32 \<Rightarrow> 'a vmm_state_scheme \<Rightarrow> (unit \<times> 'a vmm_state_scheme) res" where
  "vmm_unmap va s =
     assert_then (paging_enabled s) (
     assert_then (IS_ALIGNED va PAGE_SIZE) (
       critical (\<lambda>s.
         let info = va_info va;
             table = get_pagetable info;
             pte_addr = pagedir_entry table (table_index info)
         in
         res_bind (load32 s (pagedir_entry current_pagedir (dir_index info))) (\<lambda>pde.
         assert_then (pde AND PDE_PRESENT \<noteq> 0)
         (res_bind (load32 s pte_addr) (\<lambda>pte.
          assert_then (pte AND PTE_PRESENT \<noteq> 0)
          (res_bind (store32 s pte_addr (pte AND NOT PTE_PRESENT)) (\<lambda>s.
           flush_tlb s)))))) s))"

record va_info_ex =
  vx_info :: va_info
  vx_pde :: u32
  vx_pte :: u32
  vx_frame :: u32
  vx_flags :: u32

definition va_info_ex :: "u32 \<Rightarrow> 'a vmm_state_scheme \<Rightarrow> va_info_ex res" where
  "va_info_ex va s = assert_then (paging_enabled s)
     (let result = \<lparr>vx_info = va_info va, vx_pde = 0, vx_pte = 0, vx_frame = 0, vx_flags = 0\<rparr> in
      res_bind (load32 s (pagedir_entry current_pagedir (dir_index (vx_info result)))) (\<lambda>d.
        if d AND PDE_PRESENT \<noteq> 0 then
          res_bind (load32 s (pagedir_entry (get_pagetable (vx_info result)) (table_index (vx_info result)))) (\<lambda>t.
            if t AND PTE_PRESENT \<noteq> 0 then
              Inr (result\<lparr>vx_pde := d, vx_pte := t, vx_frame := t AND PTE_FRAME, vx_flags := t AND PTE_FLAGS\<rparr>)
            else Inr (result\<lparr>vx_pde := d\<rparr>))
        else Inr result))"

definition vmm_get_physical :: "u32 \<Rightarrow> 'a vmm_state_scheme \<Rightarrow> (u32 \<times> 'a vmm_state_scheme) res" where
  "vmm_get_physical va s = assert_then (IS_ALIGNED va PAGE_SIZE)
     (critical (\<lambda>s. res_bind (va_info_ex va s) (\<lambda>i. Inr (vx_frame i, s))) s)"

definition vmm_get_flags :: "u32 \<Rightarrow> 'a vmm_state_scheme \<Rightarrow> (u32 \<times> 'a vmm_state_scheme) res" where
  "vmm_get_flags va s = assert_then (IS_ALIGNED va PAGE_SIZE)
     (critical (\<lambda>s. res_bind (va_info_ex va s) (\<lambda>i. Inr (vx_flags i, s))) s)"

definition vmm_current_pagedir :: "'a vmm_state_scheme \<Rightarrow> u32 res" where
  "vmm_current_pagedir s = assert_then (paging_enabled s) (Inr (current_pagedir_va s))"

section \<open>Indices and addresses as numbers\<close>

lemma frame_mask: "(0xFFFFF000 :: u32) = NOT (mask 12)" and offset_mask: "(0xFFF :: u32) = mask 12"
  and index_mask: "(0x3ff :: u32) = mask 10"
  by (simp_all add: mask_eq_exp_minus_1)

lemma unat_frame_part: "unat ((x :: u32) AND 0xFFFFF000) = unat x div 4096 * 4096"
  unfolding frame_mask using unat_and_not_mask [of x 12] by simp

lemma unat_offset_part: "unat ((x :: u32) AND 0xFFF) = unat x mod 4096"
  unfolding offset_mask using unat_and_mask [of x 12] by simp

lemma unat_dir_index: "unat (PAGE_DIRECTORY_INDEX x) = unat x div 4194304"
proof -
  have "unat (PAGE_DIRECTORY_INDEX x) = unat x div 4194304 mod 1024"
    unfolding PAGE_DIRECTORY_INDEX_def index_mask
    using unat_and_mask [of "drop_bit 22 x" 10] by (simp add: drop_bit_eq_div unat_div_distrib)
  moreover have "unat x div 4194304 < 1024" by (rule less_mult_imp_div_less) simp
  ultimately show ?thesis by simp
qed

lemma unat_table_index: "unat (PAGE_TABLE_INDEX x) = unat x div 4096 mod 1024"
  unfolding PAGE_TABLE_INDEX_def index_mask
  using unat_and_mask [of "drop_bit 12 x" 10] by (simp add: drop_bit_eq_div unat_div_distrib)

lemma unat_mult4: "unat i < 1024 \<Longrightarrow> unat (4 * (i :: u32)) = 4 * unat i"
  by (simp add: unat_word_ariths)

lemma unat_entry_addr:
  assumes "unat i < 1024"
  shows "unat (entry_addr t i) = unat t div 4096 * 4096 + 4 * unat i"
proof -
  have "unat t div 4096 < 1048576" by (rule less_mult_imp_div_less) simp
  then have "unat t div 4096 * 4096 + 4 * unat i < 4294967296" using assms by linarith
  then show ?thesis
    unfolding entry_addr_def using assms
    by (subst unat_add32) (simp_all add: unat_frame_part unat_mult4)
qed

lemma mult_add_unique:
  fixes x y d a b :: nat
  assumes "a < d" "b < d" "x * d + a = y * d + b"
  shows "x = y \<and> a = b"
proof -
  have "(x * d + a) div d = x" "(x * d + a) mod d = a" "(y * d + b) div d = y" "(y * d + b) mod d = b"
    using assms(1,2) by simp_all
  with assms(3) show ?thesis by simp
qed

lemma entry_addr_inj:
  assumes "unat i < 1024" "unat j < 1024"
  shows "entry_addr t i = entry_addr u j \<longleftrightarrow> t AND 0xFFFFF000 = u AND 0xFFFFF000 \<and> i = j"
proof
  assume "entry_addr t i = entry_addr u j"
  then have "unat t div 4096 * 4096 + 4 * unat i = unat u div 4096 * 4096 + 4 * unat j"
    using assms by (metis unat_entry_addr)
  then have "unat t div 4096 = unat u div 4096" "unat i = unat j"
    using assms mult_add_unique [of "4 * unat i" 4096 "4 * unat j"] by simp_all
  then show "t AND 0xFFFFF000 = u AND 0xFFFFF000 \<and> i = j"
    by (simp add: word_unat_eq_iff unat_frame_part)
qed (simp add: entry_addr_def)

lemma frame_part_idem: "(x AND 0xFFFFF000) AND 0xFFFFF000 = (x AND 0xFFFFF000 :: u32)"
  by (simp add: and.assoc)

lemma entry_addr_frame: "entry_addr (x AND 0xFFFFF000) i = entry_addr x i"
  by (simp add: entry_addr_def frame_part_idem)

lemma mod_of_multiple: "n < d \<Longrightarrow> (d * k + n) mod d = (n::nat)"
  by simp

text \<open>The two windows of the recursive mapping.\<close>

lemma window_dir:
  assumes "unat i < 1024"
  shows "PAGE_DIRECTORY_INDEX (pagedir_entry current_pagedir i) = 1023"
    and "PAGE_TABLE_INDEX (pagedir_entry current_pagedir i) = 1023"
    and "pagedir_entry current_pagedir i AND 0xFFF = 4 * i"
proof -
  have u: "unat (pagedir_entry current_pagedir i) = 4294963200 + 4 * unat i"
    unfolding pagedir_entry_def current_pagedir_def using assms
    by (subst unat_add32) (simp_all add: unat_mult4)
  show "PAGE_DIRECTORY_INDEX (pagedir_entry current_pagedir i) = 1023"
    using assms by (simp add: word_unat_eq_iff unat_dir_index u)
  have "(4294963200 + 4 * unat i) div 4096 = 1048575"
    by (rule div_nat_eqI) (use assms in simp_all)
  then show "PAGE_TABLE_INDEX (pagedir_entry current_pagedir i) = 1023"
    by (simp add: word_unat_eq_iff unat_table_index u)
  show "pagedir_entry current_pagedir i AND 0xFFF = 4 * i"
    using assms mod_of_multiple [of "4 * unat i" 4096 1048575]
    by (simp add: word_unat_eq_iff unat_offset_part u unat_mult4)
qed

lemma window_table:
  assumes "unat i < 1024" "unat j < 1024" "dir_index info = i"
  shows "PAGE_DIRECTORY_INDEX (pagedir_entry (get_pagetable info) j) = 1023"
    and "PAGE_TABLE_INDEX (pagedir_entry (get_pagetable info) j) = i"
    and "pagedir_entry (get_pagetable info) j AND 0xFFF = 4 * j"
proof -
  have "unat (i * PAGE_SIZE) = unat i * 4096"
    using assms(1) by (simp add: PAGE_SIZE_def unat_word_ariths)
  then have "unat (get_pagetable info) = 4290772992 + unat i * 4096"
    unfolding get_pagetable_def using assms(1,3) by (subst unat_add32) simp_all
  then have u: "unat (pagedir_entry (get_pagetable info) j) = 4290772992 + unat i * 4096 + 4 * unat j"
    unfolding pagedir_entry_def using assms(1,2) by (subst unat_add32) (simp_all add: unat_mult4)
  show "PAGE_DIRECTORY_INDEX (pagedir_entry (get_pagetable info) j) = 1023"
    using assms by (simp add: word_unat_eq_iff unat_dir_index u)
  have "(4290772992 + unat i * 4096 + 4 * unat j) div 4096 = 1023 * 1024 + unat i"
    by (rule div_nat_eqI) (use assms in simp_all)
  then show "PAGE_TABLE_INDEX (pagedir_entry (get_pagetable info) j) = i"
    using assms(1) mod_of_multiple [of "unat i" 1024 1023]
    by (simp add: word_unat_eq_iff unat_table_index u)
  show "pagedir_entry (get_pagetable info) j AND 0xFFF = 4 * j"
    using assms mod_of_multiple [of "4 * unat j" 4096 "1047552 + unat i"]
    by (simp add: word_unat_eq_iff unat_offset_part u unat_mult4) (simp add: algebra_simps)
qed

section \<open>The page tables as a map\<close>

definition dirent :: "'a vmm_state_scheme \<Rightarrow> u32 \<Rightarrow> u32" where
  "dirent s i = phys s (entry_addr (cr3 s) i)"

definition tabent :: "'a vmm_state_scheme \<Rightarrow> u32 \<Rightarrow> u32 \<Rightarrow> u32" where
  "tabent s i j = phys s (entry_addr (dirent s i) j)"

definition pagemap :: "'a vmm_state_scheme \<Rightarrow> u32 \<Rightarrow> u32 \<Rightarrow> u32 option" where
  "pagemap s i j =
     (if dirent s i AND 1 = 0 \<or> tabent s i j AND 1 = 0 then None else Some (tabent s i j))"

text \<open>
  The invariant of the paging structures: the last directory entry points back to the
  directory, every other present entry is writable and leads to a table frame of its own,
  and neither the directory nor a table is a free frame.
\<close>

definition small_entry :: "u32 \<Rightarrow> bool" where
  "small_entry e \<longleftrightarrow> e AND 1 \<noteq> 0 \<and> e AND 2 \<noteq> 0 \<and> e AND 0x80 = 0"

definition vmm_wf :: "'a vmm_state_scheme \<Rightarrow> bool" where
  "vmm_wf s \<longleftrightarrow>
     pmm_wf s \<and> cr3 s AND 0xFFFFF000 = cr3 s
     \<and> small_entry (dirent s 1023) \<and> dirent s 1023 AND 0xFFFFF000 = cr3 s
     \<and> unat (cr3 s) \<notin> free_frames s
     \<and> (\<forall>i. unat i < 1023 \<longrightarrow> dirent s i AND 1 \<noteq> 0 \<longrightarrow>
          small_entry (dirent s i) \<and> dirent s i AND 0xFFFFF000 \<noteq> cr3 s
          \<and> unat (dirent s i AND 0xFFFFF000) \<notin> free_frames s)
     \<and> (\<forall>i j. unat i < 1023 \<longrightarrow> unat j < 1023 \<longrightarrow> i \<noteq> j \<longrightarrow>
          dirent s i AND 1 \<noteq> 0 \<longrightarrow> dirent s j AND 1 \<noteq> 0 \<longrightarrow>
          dirent s i AND 0xFFFFF000 \<noteq> dirent s j AND 0xFFFFF000)"

lemma small_entryD: "small_entry e \<Longrightarrow> e AND 1 \<noteq> 0 \<and> e AND 2 \<noteq> 0 \<and> e AND 0x80 = 0"
  by (simp add: small_entry_def)

lemma index_1023: "unat (i :: u32) < 1024 \<Longrightarrow> unat i < 1023 \<or> i = 1023"
  by (auto simp: word_unat_eq_iff)

lemma wf_small: "vmm_wf s \<Longrightarrow> unat i < 1024 \<Longrightarrow> dirent s i AND 1 \<noteq> 0 \<Longrightarrow> small_entry (dirent s i)"
  using index_1023 [of i] by (auto simp: vmm_wf_def)

lemma translate_dir:
  assumes "vmm_wf s" "unat i < 1024"
  shows "translate s w (pagedir_entry current_pagedir i) = Inr (entry_addr (cr3 s) i)"
proof -
  define e where "e = dirent s 1023"
  have e: "small_entry e" "e AND 0xFFFFF000 = cr3 s" "cr3 s AND 0xFFFFF000 = cr3 s"
    using assms(1) by (auto simp: vmm_wf_def e_def)
  have d: "phys s (entry_addr (cr3 s) 1023) = e" by (simp add: e_def dirent_def)
  have t: "phys s (entry_addr e 1023) = e" using d e(2) entry_addr_frame [of e 1023] by simp
  have "entry_addr (cr3 s) i = cr3 s + 4 * i" by (simp add: entry_addr_def e(3))
  then show ?thesis
    unfolding translate_def window_dir [OF assms(2)] d Let_def t
    using e(2) small_entryD [OF e(1)] by (simp add: writable_ok_def)
qed

lemma translate_table:
  assumes "vmm_wf s" "unat i < 1024" "unat j < 1024" "dir_index info = i" "dirent s i AND 1 \<noteq> 0"
  shows "translate s w (pagedir_entry (get_pagetable info) j) = Inr (entry_addr (dirent s i) j)"
proof -
  define e where "e = dirent s 1023"
  have e: "small_entry e" "e AND 0xFFFFF000 = cr3 s"
    using assms(1) by (auto simp: vmm_wf_def e_def)
  have d: "phys s (entry_addr (cr3 s) 1023) = e" by (simp add: e_def dirent_def)
  have t: "phys s (entry_addr e i) = dirent s i"
    using e(2) entry_addr_frame [of e i] by (simp add: dirent_def)
  have "small_entry (dirent s i)" using wf_small [OF assms(1,2,5)] .
  then show ?thesis
    unfolding translate_def window_table [OF assms(2,3,4)] d Let_def t entry_addr_def [of "dirent s i"]
    using small_entryD [OF e(1)] small_entryD [of "dirent s i"] by (simp add: writable_ok_def)
qed

lemma load_dir:
  "vmm_wf s \<Longrightarrow> unat i < 1024 \<Longrightarrow> load32 s (pagedir_entry current_pagedir i) = Inr (dirent s i)"
  by (simp add: load32_def translate_dir dirent_def)

lemma load_table:
  "\<lbrakk>vmm_wf s; unat i < 1024; unat j < 1024; dir_index info = i; dirent s i AND 1 \<noteq> 0\<rbrakk>
     \<Longrightarrow> load32 s (pagedir_entry (get_pagetable info) j) = Inr (tabent s i j)"
  by (simp add: load32_def translate_table tabent_def)

text \<open>Writing one word of a table, and writing one entry of the directory.\<close>

definition put_table :: "u32 \<Rightarrow> u32 \<Rightarrow> u32 \<Rightarrow> 'a vmm_state_scheme \<Rightarrow> 'a vmm_state_scheme" where
  "put_table i j w s = s\<lparr>phys := (phys s)(entry_addr (dirent s i) j := w)\<rparr>"

definition put_dir :: "u32 \<Rightarrow> u32 \<Rightarrow> 'a vmm_state_scheme \<Rightarrow> 'a vmm_state_scheme" where
  "put_dir i w s = s\<lparr>phys := (phys s)(entry_addr (cr3 s) i := w)\<rparr>"

lemma store_table:
  "\<lbrakk>vmm_wf s; unat i < 1024; unat j < 1024; dir_index info = i; dirent s i AND 1 \<noteq> 0\<rbrakk>
     \<Longrightarrow> store32 s (pagedir_entry (get_pagetable info) j) w = Inr (put_table i j w s)"
  by (simp add: store32_def translate_table put_table_def)

lemma store_dir:
  "vmm_wf s \<Longrightarrow> unat i < 1024 \<Longrightarrow> store32 s (pagedir_entry current_pagedir i) w = Inr (put_dir i w s)"
  by (simp add: store32_def translate_dir put_dir_def)

lemma put_fields [simp]:
  "memregions (put_table i j w s) = memregions s" "memregions (put_dir i w s) = memregions s"
  "cr3 (put_table i j w s) = cr3 s" "cr3 (put_dir i w s) = cr3 s"
  "eflags (put_table i j w s) = eflags s" "eflags (put_dir i w s) = eflags s"
  "paging_enabled (put_table i j w s) = paging_enabled s" "paging_enabled (put_dir i w s) = paging_enabled s"
  by (simp_all add: put_table_def put_dir_def)

lemma pmm_wf_cong: "memregions s' = memregions s \<Longrightarrow> pmm_wf s' = pmm_wf s"
  by (simp add: pmm_wf_def)

lemma free_frames_cong: "memregions s' = memregions s \<Longrightarrow> free_frames s' = free_frames s"
  by (simp add: free_frames_def)

lemma table_not_dir:
  assumes "vmm_wf s" "unat i < 1023" "dirent s i AND 1 \<noteq> 0" "unat j < 1024" "unat k < 1024"
  shows "entry_addr (dirent s i) j \<noteq> entry_addr (cr3 s) k"
  using assms by (simp add: entry_addr_inj) (auto simp: vmm_wf_def)

lemma dirent_put_table:
  assumes "vmm_wf s" "unat i < 1023" "dirent s i AND 1 \<noteq> 0" "unat j < 1024" "unat k < 1024"
  shows "dirent (put_table i j w s) k = dirent s k"
  using table_not_dir [OF assms] by (simp add: dirent_def put_table_def)

lemma tabent_put_table:
  assumes "vmm_wf s" "unat i < 1023" "dirent s i AND 1 \<noteq> 0" "unat j < 1024"
    and "unat i' < 1023" "dirent s i' AND 1 \<noteq> 0" "unat j' < 1024"
  shows "tabent (put_table i j w s) i' j' = (if i' = i \<and> j' = j then w else tabent s i' j')"
proof -
  have d: "dirent (put_table i j w s) i' = dirent s i'"
    using assms(1-5) by (intro dirent_put_table) simp_all
  have "entry_addr (dirent s i') j' = entry_addr (dirent s i) j \<longleftrightarrow> i' = i \<and> j' = j"
    using assms by (simp add: entry_addr_inj) (auto simp: vmm_wf_def)
  then show ?thesis unfolding tabent_def d by (simp add: put_table_def)
qed

lemma vmm_wf_cong:
  assumes "vmm_wf s" "memregions s' = memregions s" "cr3 s' = cr3 s"
    "\<And>k. unat k < 1024 \<Longrightarrow> dirent s' k = dirent s k"
  shows "vmm_wf s'"
proof -
  have "dirent s' k = dirent s k" if "unat k < 1023" for k using assms(4) [of k] that by simp
  moreover have "dirent s' 1023 = dirent s 1023" using assms(4) [of 1023] by simp
  ultimately show ?thesis
    using assms(1) pmm_wf_cong [OF assms(2)] free_frames_cong [OF assms(2)] assms(3)
    unfolding vmm_wf_def by simp
qed

lemma vmm_wf_put_table:
  assumes "vmm_wf s" "unat i < 1023" "dirent s i AND 1 \<noteq> 0" "unat j < 1024"
  shows "vmm_wf (put_table i j w s)"
  using assms by (intro vmm_wf_cong [OF assms(1)]) (simp_all add: dirent_put_table)

lemma pagemap_put_table:
  assumes "vmm_wf s" "unat i < 1023" "dirent s i AND 1 \<noteq> 0" "unat j < 1024"
    and "unat i' < 1023" "unat j' < 1024"
  shows "pagemap (put_table i j w s) i' j' =
    (if i' = i \<and> j' = j then (if w AND 1 = 0 then None else Some w) else pagemap s i' j')"
proof -
  have "dirent (put_table i j w s) i' = dirent s i'"
    using assms(1-5) by (intro dirent_put_table) simp_all
  then show ?thesis
    using assms tabent_put_table [OF assms(1-5) _ assms(6), of w]
    by (cases "dirent s i' AND 1 = 0") (auto simp: pagemap_def)
qed

text \<open>Clearing a table through the window.\<close>

lemma zero_words_table:
  assumes "vmm_wf s" "unat i < 1023" "dirent s i AND 1 \<noteq> 0" "dir_index info = i" "set js \<subseteq> {..<1024}"
  shows "\<exists>s'. zero_words js (get_pagetable info) s = Inr s' \<and> vmm_wf s' \<and> s' = s\<lparr>phys := phys s'\<rparr>
    \<and> (\<forall>k. unat k < 1024 \<longrightarrow> dirent s' k = dirent s k)
    \<and> (\<forall>i' j'. unat i' < 1023 \<longrightarrow> dirent s i' AND 1 \<noteq> 0 \<longrightarrow> unat j' < 1024 \<longrightarrow>
         tabent s' i' j' = (if i' = i \<and> unat j' \<in> set js then 0 else tabent s i' j'))"
  using assms
proof (induction js arbitrary: s)
  case Nil
  then show ?case by simp
next
  case (Cons j js)
  have j: "unat (of_nat j :: u32) = j" "j < 1024" using Cons.prems(5) by (simp_all add: unat_of_nat)
  let ?s = "put_table i (of_nat j) 0 s"
  have st: "store32 s (get_pagetable info + 4 * of_nat j) 0 = Inr ?s"
    using store_table [of s i "of_nat j" info 0] Cons.prems j by (simp add: pagedir_entry_def)
  have d: "dirent ?s k = dirent s k" if "unat k < 1024" for k
    using Cons.prems j that by (intro dirent_put_table) simp_all
  have wf: "vmm_wf ?s" using Cons.prems j by (intro vmm_wf_put_table) simp_all
  have "dirent ?s i AND 1 \<noteq> 0" using d [of i] Cons.prems(2,3) by simp
  then obtain s' where s': "zero_words js (get_pagetable info) ?s = Inr s'" "vmm_wf s'"
      "s' = ?s\<lparr>phys := phys s'\<rparr>" "\<forall>k. unat k < 1024 \<longrightarrow> dirent s' k = dirent ?s k"
      "\<forall>i' j'. unat i' < 1023 \<longrightarrow> dirent ?s i' AND 1 \<noteq> 0 \<longrightarrow> unat j' < 1024 \<longrightarrow>
         tabent s' i' j' = (if i' = i \<and> unat j' \<in> set js then 0 else tabent ?s i' j')"
    using Cons.IH [OF wf Cons.prems(2) _ Cons.prems(4)] Cons.prems(5) by auto
  have t: "tabent s' i' j' = (if i' = i \<and> unat j' \<in> set (j # js) then 0 else tabent s i' j')"
    if "unat i' < 1023" "dirent s i' AND 1 \<noteq> 0" "unat j' < 1024" for i' j'
  proof -
    have "dirent ?s i' AND 1 \<noteq> 0" using d [of i'] that by simp
    moreover have "j' = of_nat j \<longleftrightarrow> unat j' = j" using j(1) by (metis unsigned_word_eqI)
    ultimately show ?thesis
      using s'(5) that tabent_put_table [of s i "of_nat j" i' j' 0] Cons.prems j by auto
  qed
  have e: "s' = s\<lparr>phys := phys s'\<rparr>" using s'(3) by (simp add: put_table_def)
  have "zero_words (j # js) (get_pagetable info) s = Inr s'" using s'(1) st by simp
  moreover have "\<forall>k. unat k < 1024 \<longrightarrow> dirent s' k = dirent s k" using s'(4) d by simp
  ultimately show ?case using s'(2) e t by blast
qed

text \<open>Entering a fresh frame into the directory.\<close>

lemma dirent_put_dir:
  "unat i < 1024 \<Longrightarrow> unat k < 1024 \<Longrightarrow> dirent (put_dir i w s) k = (if k = i then w else dirent s k)"
  by (simp add: dirent_def put_dir_def entry_addr_inj)

lemma tabent_put_dir:
  assumes "vmm_wf s" "unat i < 1023" "unat i' < 1023" "i' \<noteq> i" "dirent s i' AND 1 \<noteq> 0" "unat j' < 1024"
  shows "tabent (put_dir i w s) i' j' = tabent s i' j'"
proof -
  have "dirent (put_dir i w s) i' = dirent s i'" using assms by (simp add: dirent_put_dir)
  moreover have "entry_addr (dirent s i') j' \<noteq> entry_addr (cr3 s) i"
    using assms by (intro table_not_dir) simp_all
  ultimately show ?thesis by (simp add: tabent_def put_dir_def)
qed

lemma and_bits_or:
  "(f OR 1 OR 4 OR 2 :: u32) AND 1 \<noteq> 0" "(f OR 1 OR 4 OR 2 :: u32) AND 2 \<noteq> 0"
  using and_two_power [of "f OR 1 OR 4 OR 2" 0] and_two_power [of "f OR 1 OR 4 OR 2" 1]
    bit_two_power [of 0 0] bit_two_power [of 1 1] bit_two_power [of 2 0] bit_two_power [of 2 1]
  by (simp_all add: bit_or_iff)

lemma aligned_frame: "4096 dvd unat f \<longleftrightarrow> f AND 0xFFFFF000 = (f :: u32)"
  by (simp add: word_unat_eq_iff unat_frame_part) (metis dvd_div_mult_self dvd_triv_right)

lemma low_bits_clear:
  assumes "f AND 0xFFFFF000 = (f :: u32)" "n < 12"
  shows "\<not> bit f n"
proof -
  have "bit (f AND NOT (mask 12)) n = bit f n" using assms(1) by (simp only: frame_mask)
  then show ?thesis using assms(2) by (simp add: bit_and_iff bit_not_iff bit_mask_iff)
qed

lemma new_entry:
  assumes "f AND 0xFFFFF000 = (f :: u32)"
  shows "small_entry (f OR 1 OR 4 OR 2)" "(f OR 1 OR 4 OR 2) AND 0xFFFFF000 = f"
proof -
  have "(f OR 1 OR 4 OR 2) AND 0x80 = (0 :: u32)"
    using and_two_power [of "f OR 1 OR 4 OR 2" 7] low_bits_clear [OF assms, of 7]
      bit_two_power [of 0 7] bit_two_power [of 1 7] bit_two_power [of 2 7]
    by (simp add: bit_or_iff)
  with and_bits_or [of f] show "small_entry (f OR 1 OR 4 OR 2)" by (simp add: small_entry_def)
  have "((1 OR 4 OR 2) :: u32) AND 0xFFFFF000 = 0" by simp
  moreover have "(f OR 1 OR 4 OR 2) AND 0xFFFFF000 = (f AND 0xFFFFF000) OR ((1 OR 4 OR 2) AND 0xFFFFF000)"
    by (simp only: bit.conj_disj_distrib2 or.assoc)
  ultimately show "(f OR 1 OR 4 OR 2) AND 0xFFFFF000 = f" using assms by simp
qed

lemma vmm_wf_put_dir:
  assumes wf: "vmm_wf s" and i: "unat i < 1023" "dirent s i AND 1 = 0"
    and f: "f AND 0xFFFFF000 = f" "unat f \<notin> free_frames s" "f \<noteq> cr3 s"
      "\<And>k. unat k < 1023 \<Longrightarrow> dirent s k AND 1 \<noteq> 0 \<Longrightarrow> dirent s k AND 0xFFFFF000 \<noteq> f"
  shows "vmm_wf (put_dir i (f OR 1 OR 4 OR 2) s)"
proof -
  let ?s = "put_dir i (f OR 1 OR 4 OR 2) s"
  have d: "dirent ?s k = (if k = i then f OR 1 OR 4 OR 2 else dirent s k)" if "unat k < 1024" for k
    using that i by (intro dirent_put_dir) simp_all
  have d1: "dirent ?s 1023 = dirent s 1023" using d [of 1023] i by auto
  have d2: "dirent ?s k = (if k = i then f OR 1 OR 4 OR 2 else dirent s k)" if "unat k < 1023" for k
    using d [of k] that by simp
  note n = new_entry [OF f(1)]
  have ff: "free_frames ?s = free_frames s" "pmm_wf ?s = pmm_wf s"
    by (simp_all add: free_frames_def pmm_wf_def)
  show ?thesis
    using wf unfolding vmm_wf_def ff d1 put_fields
    using d2 n f small_entryD [OF n(1)] by (auto simp: vmm_wf_def)
qed

lemma flush_tlb_eq: "flush_tlb s = Inr ((), s)"
proof -
  have "restore_if (fst (disable_if s)) (cli s) = (cli s)\<lparr>eflags := eflags s\<rparr>"
    by (rule restore_after_cli) simp
  then show ?thesis by (simp add: flush_tlb_def critical_def disable_if_def Let_def cli_def)
qed

section \<open>\<open>vmm_map\<close>\<close>

lemma va_info_sel [simp]:
  "dir_index (va_info va) = PAGE_DIRECTORY_INDEX va" "table_index (va_info va) = PAGE_TABLE_INDEX va"
  by (simp_all add: va_info_def)

lemma index_bounds: "unat (PAGE_DIRECTORY_INDEX va) < 1024" "unat (PAGE_TABLE_INDEX va) < 1024"
  using less_mult_imp_div_less [of "unat va" 1024 4194304]
  by (simp_all add: unat_dir_index unat_table_index)

text \<open>The table is present: one word of it is written.\<close>

lemma vmm_map_body_present:
  assumes "vmm_wf s" "unat i < 1023" "i = PAGE_DIRECTORY_INDEX va" "j = PAGE_TABLE_INDEX va"
    and "dirent s i AND 1 \<noteq> 0"
  shows "vmm_map_body va pa flags s =
    (if tabent s i j AND 1 \<noteq> 0 then Inl Abort
     else Inr ((), put_table i j (pa AND PTE_FRAME OR flags) s))"
proof -
  have "unat i < 1024" "unat j < 1024" using assms index_bounds by simp_all
  then show ?thesis
    using assms load_dir [of s i] load_table [of s i j "va_info va"]
      store_table [of s i j "va_info va"]
    by (simp add: vmm_map_body_def PDE_PRESENT_def PTE_PRESENT_def flush_tlb_eq Let_def)
qed

text \<open>
  The table is missing: a frame is taken, entered into the directory and cleared through
  the window before the entry is written.
\<close>

lemma alloc_frame_facts:
  assumes "vmm_wf s" "pmm_alloc s = Inr (f, s1)" "f \<noteq> INVALID_FRAME"
  shows "s1 = s\<lparr>memregions := memregions s1\<rparr>" "pmm_wf s1" "f AND 0xFFFFF000 = f" "unat f \<in> free_frames s"
    "free_frames s1 = free_frames s - {unat f}" "f \<noteq> cr3 s" "vmm_wf s1"
    "\<And>k. unat k < 1023 \<Longrightarrow> dirent s k AND 1 \<noteq> 0 \<Longrightarrow> dirent s k AND 0xFFFFF000 \<noteq> f"
proof -
  have wf: "pmm_wf s" using assms(1) by (simp add: vmm_wf_def)
  have "\<exists>rs. s1 = s\<lparr>memregions := rs\<rparr> \<and> pmm_wf s1 \<and> unat f \<in> free_frames s
      \<and> free_frames s1 = free_frames s - {unat f}"
    by (rule pmm_alloc_result [OF wf assms(2)]) (use assms(3) in \<open>auto split: if_splits\<close>)
  then obtain rs where r: "s1 = s\<lparr>memregions := rs\<rparr>" "pmm_wf s1" "unat f \<in> free_frames s"
      "free_frames s1 = free_frames s - {unat f}" by blast
  from r(1) show "s1 = s\<lparr>memregions := memregions s1\<rparr>" by simp
  have "4096 dvd unat f"
    using frames_aligned [of "memregions s" "unat f"] wf r(3) free_of_subset [of "memregions s"]
    by (auto simp: pmm_wf_def free_frames_def)
  then show "f AND 0xFFFFF000 = f" by (simp add: aligned_frame)
  show "pmm_wf s1" "unat f \<in> free_frames s" "free_frames s1 = free_frames s - {unat f}" by (rule r)+
  show "f \<noteq> cr3 s" using assms(1) r(3) by (auto simp: vmm_wf_def)
  show "dirent s k AND 0xFFFFF000 \<noteq> f" if "unat k < 1023" "dirent s k AND 1 \<noteq> 0" for k
    using assms(1) r(3) that by (auto simp: vmm_wf_def)
  have c: "cr3 s1 = cr3 s" "dirent s1 = dirent s" using r(1) by (simp_all add: dirent_def fun_eq_iff)
  show "vmm_wf s1" using assms(1) r(2) unfolding vmm_wf_def c r(4) by auto
qed

lemma vmm_map_body_missing:
  assumes wf: "vmm_wf s" and i: "unat i < 1023" "i = PAGE_DIRECTORY_INDEX va" "j = PAGE_TABLE_INDEX va"
    and missing: "dirent s i AND 1 = 0" and a: "pmm_alloc s = Inr (f, s1)" "f \<noteq> INVALID_FRAME"
  obtains s' where "vmm_map_body va pa flags s = Inr ((), s')" "vmm_wf s'"
    "s' = s\<lparr>memregions := memregions s1, phys := phys s'\<rparr>"
    "\<And>i' j'. unat i' < 1023 \<Longrightarrow> unat j' < 1024 \<Longrightarrow> pagemap s' i' j' =
      (if i' = i \<and> j' = j then (if (pa AND PTE_FRAME OR flags) AND 1 = 0 then None
         else Some (pa AND PTE_FRAME OR flags)) else pagemap s i' j')"
proof -
  note af = alloc_frame_facts [OF wf a]
  have ij: "unat i < 1024" "unat j < 1024" using i index_bounds by simp_all
  define e s2 where "e = f OR 1 OR 4 OR 2" and "s2 = put_dir i e s1"
  have c: "cr3 s1 = cr3 s" "dirent s1 = dirent s" "tabent s1 = tabent s" "pagemap s1 = pagemap s"
    by (subst af(1), simp add: dirent_def tabent_def pagemap_def fun_eq_iff)+
  have wf2: "vmm_wf s2" unfolding s2_def e_def
    by (rule vmm_wf_put_dir) (use af i c missing in auto)
  have d2: "dirent s2 k = (if k = i then e else dirent s k)" if "unat k < 1024" for k
    using that ij by (simp add: s2_def dirent_put_dir c)
  have e: "dirent s2 i = e" "e AND 1 \<noteq> 0" using d2 [of i] ij and_bits_or(1) [of f] by (simp_all add: e_def)
  have "set [0..<1024] \<subseteq> {..<1024::nat}" by auto
  then obtain s3 where s3: "zero_words [0..<1024] (get_pagetable (va_info va)) s2 = Inr s3" "vmm_wf s3"
      "s3 = s2\<lparr>phys := phys s3\<rparr>" "\<forall>k. unat k < 1024 \<longrightarrow> dirent s3 k = dirent s2 k"
      "\<forall>i' j'. unat i' < 1023 \<longrightarrow> dirent s2 i' AND 1 \<noteq> 0 \<longrightarrow> unat j' < 1024 \<longrightarrow>
         tabent s3 i' j' = (if i' = i \<and> unat j' \<in> set [0..<1024] then 0 else tabent s2 i' j')"
    using zero_words_table [OF wf2 i(1), of "va_info va" "[0..<1024]"] e i(2) by (auto simp del: upt_rec_numeral)
  have e3: "dirent s3 i AND 1 \<noteq> 0" using s3(4) e ij by simp
  define s4 where "s4 = put_table i j (pa AND PTE_FRAME OR flags) s3"
  have pres: "dirent s i AND PDE_PRESENT = 0" "e AND PDE_PRESENT \<noteq> 0"
      "f OR PDE_PRESENT OR PDE_USER OR PDE_WRITABLE = e"
    using missing e(2) by (simp_all only: page_flag_defs e_def simp_thms)
  have "vmm_map_body va pa flags s = Inr ((), s4)"
    using a pres s3(1) load_dir [OF wf ij(1)] load_dir [OF wf2 ij(1)] store_dir [OF af(7) ij(1), of e]
      store_table [OF s3(2) ij _ e3, of "va_info va"]
    by (simp add: vmm_map_body_def flush_tlb_eq Let_def bzero_table_def i(2,3) [symmetric]
        s2_def [symmetric] s4_def e(1) del: upt_rec_numeral)
  moreover have "vmm_wf s4" unfolding s4_def using s3(2) i(1) e3 ij(2) by (rule vmm_wf_put_table)
  moreover have "s4 = s\<lparr>memregions := memregions s1, phys := phys s4\<rparr>"
    unfolding s4_def put_table_def by (subst s3(3)) (simp add: s2_def put_dir_def, subst af(1), simp)
  moreover have "pagemap s4 i' j' = (if i' = i \<and> j' = j then (if (pa AND PTE_FRAME OR flags) AND 1 = 0 then None
         else Some (pa AND PTE_FRAME OR flags)) else pagemap s i' j')"
    if "unat i' < 1023" "unat j' < 1024" for i' j'
  proof -
    have "pagemap s3 i' j' = pagemap s i' j'"
    proof (cases "i' = i")
      case True
      have "tabent s3 i j' = 0" using s3(5) i(1) e that(2) by (simp del: upt_rec_numeral)
      with True missing show ?thesis by (simp add: pagemap_def)
    next
      case False
      have "dirent s3 i' = dirent s i'" using s3(4) d2 that False by simp
      moreover have "tabent s3 i' j' = tabent s i' j'" if "dirent s i' AND 1 \<noteq> 0"
        using s3(5) d2 [of i'] \<open>unat i' < 1023\<close> \<open>unat j' < 1024\<close> False that
          tabent_put_dir [OF af(7) i(1), of i' j' e] by (simp add: s2_def c)
      ultimately show ?thesis by (auto simp: pagemap_def)
    qed
    then show ?thesis
      unfolding s4_def using pagemap_put_table [OF s3(2) i(1) e3 ij(2) that] by simp
  qed
  ultimately show thesis by (rule that)
qed

section \<open>Through the critical sections\<close>

lemma eflags_upd_cong [simp]:
  "dirent (s\<lparr>eflags := x\<rparr>) = dirent s" "tabent (s\<lparr>eflags := x\<rparr>) = tabent s"
  "pagemap (s\<lparr>eflags := x\<rparr>) = pagemap s" "pmm_wf (s\<lparr>eflags := x\<rparr>) = pmm_wf s"
  "free_frames (s\<lparr>eflags := x\<rparr>) = free_frames s" "vmm_wf (s\<lparr>eflags := x\<rparr>) = vmm_wf s"
proof -
  show d: "dirent (s\<lparr>eflags := x\<rparr>) = dirent s" by (simp add: dirent_def fun_eq_iff)
  show t: "tabent (s\<lparr>eflags := x\<rparr>) = tabent s" by (simp add: tabent_def d fun_eq_iff)
  show "pagemap (s\<lparr>eflags := x\<rparr>) = pagemap s" by (simp add: pagemap_def d t fun_eq_iff)
  show p: "pmm_wf (s\<lparr>eflags := x\<rparr>) = pmm_wf s" and f: "free_frames (s\<lparr>eflags := x\<rparr>) = free_frames s"
    by (simp_all add: pmm_wf_def free_frames_def)
  show "vmm_wf (s\<lparr>eflags := x\<rparr>) = vmm_wf s" by (simp add: vmm_wf_def d p f)
qed

lemma critical_run:
  assumes "body (cli s) = Inr (r, s2)" "eflags s2 = eflags (cli s)"
  shows "critical body s = Inr (r, s2\<lparr>eflags := eflags s\<rparr>)"
  using assms restore_after_cli [OF assms(2)] by (simp add: critical_def disable_if_def Let_def)

lemma cli_cong [simp]:
  "vmm_wf (cli s) = vmm_wf s" "dirent (cli s) = dirent s" "tabent (cli s) = tabent s"
  "pagemap (cli s) = pagemap s" "paging_enabled (cli s) = paging_enabled s" "free_frames (cli s) = free_frames s"
  by (simp_all add: cli_def)

lemma pmm_alloc_cli: "pmm_alloc s = Inr (f, s1) \<Longrightarrow> pmm_alloc (cli s) = Inr (f, (cli s)\<lparr>memregions := memregions s1\<rparr>)"
  by (auto simp: pmm_alloc_eq res_bind_eq_Inr)

text \<open>A page that the operations may be applied to: below the windows of the recursive mapping.\<close>

definition mappable :: "u32 \<Rightarrow> bool" where
  "mappable va \<longleftrightarrow> 4096 dvd unat va \<and> va < 0xFFC00000"

lemma mappable_dir: "mappable va \<Longrightarrow> unat (PAGE_DIRECTORY_INDEX va) < 1023"
  by (auto simp: mappable_def unat_dir_index word_less_nat_alt)

abbreviation pagemap_at :: "'a vmm_state_scheme \<Rightarrow> u32 \<Rightarrow> u32 option" where
  "pagemap_at s va \<equiv> pagemap s (PAGE_DIRECTORY_INDEX va) (PAGE_TABLE_INDEX va)"

lemma page_eq_iff:
  "4096 dvd unat va \<Longrightarrow> 4096 dvd unat vb \<Longrightarrow>
     PAGE_DIRECTORY_INDEX va = PAGE_DIRECTORY_INDEX vb \<and> PAGE_TABLE_INDEX va = PAGE_TABLE_INDEX vb \<longleftrightarrow> va = vb"
proof
  assume al: "4096 dvd unat va" "4096 dvd unat vb"
    and "PAGE_DIRECTORY_INDEX va = PAGE_DIRECTORY_INDEX vb \<and> PAGE_TABLE_INDEX va = PAGE_TABLE_INDEX vb"
  then have "unat va div 4194304 = unat vb div 4194304"
      "unat va div 4096 mod 1024 = unat vb div 4096 mod 1024"
    by (simp_all add: word_unat_eq_iff unat_dir_index unat_table_index)
  moreover have "unat va div 4194304 = unat va div 4096 div 1024" "unat vb div 4194304 = unat vb div 4096 div 1024"
    by (simp_all add: div_mult2_eq [symmetric])
  ultimately have "unat va div 4096 = unat vb div 4096" by (metis div_mult_mod_eq)
  with al show "va = vb" by (metis dvd_div_mult_self unsigned_word_eqI)
qed simp

lemma flags_present: "flags AND 1 \<noteq> 0 \<Longrightarrow> (x OR flags :: u32) AND 1 \<noteq> 0"
  using and_two_power [of "x OR flags" 0] and_two_power [of flags 0] by (simp add: bit_or_iff)

lemma vmm_map_spec:
  assumes wf: "vmm_wf s" "paging_enabled s" and va: "mappable va" and pa: "4096 dvd unat pa"
    and fl: "flags AND 1 \<noteq> 0" and unmapped: "pagemap_at s va = None"
    and room: "dirent s (PAGE_DIRECTORY_INDEX va) AND 1 \<noteq> 0 \<or> pmm_alloc s = Inr (f, s1) \<and> f \<noteq> INVALID_FRAME"
  shows "\<exists>s'. vmm_map va pa flags s = Inr ((), s') \<and> vmm_wf s'
    \<and> s' = s\<lparr>memregions := memregions s', phys := phys s'\<rparr>
    \<and> free_frames s' = (if dirent s (PAGE_DIRECTORY_INDEX va) AND 1 \<noteq> 0 then free_frames s
         else free_frames s - {unat f})
    \<and> (\<forall>vb. mappable vb \<longrightarrow> pagemap_at s' vb = (if vb = va then Some (pa OR flags) else pagemap_at s vb))"
proof -
  let ?i = "PAGE_DIRECTORY_INDEX va" and ?j = "PAGE_TABLE_INDEX va"
  have b: "unat ?i < 1023" "unat ?j < 1024" using mappable_dir [OF va] index_bounds by simp_all
  have w: "pa AND PTE_FRAME OR flags = pa OR flags" "(pa OR flags) AND 1 \<noteq> 0"
    using pa fl flags_present by (simp_all add: PTE_FRAME_def aligned_frame)
  have pre: "vmm_map va pa flags s = critical (vmm_map_body va pa flags) s"
    using wf(2) fl va pa
    by (simp add: vmm_map_def VMM_PAGE_PRESENT_def IS_ALIGNED_iff PAGE_SIZE_def mappable_def)
  have same: "(PAGE_DIRECTORY_INDEX vb = ?i \<and> PAGE_TABLE_INDEX vb = ?j) = (vb = va)" if "mappable vb" for vb
    using page_eq_iff that va by (simp add: mappable_def)
  have "\<exists>s2. vmm_map_body va pa flags (cli s) = Inr ((), s2) \<and> vmm_wf s2
      \<and> s2 = (cli s)\<lparr>memregions := memregions s2, phys := phys s2\<rparr>
      \<and> free_frames s2 = (if dirent s ?i AND 1 \<noteq> 0 then free_frames s else free_frames s - {unat f})
      \<and> (\<forall>vb. mappable vb \<longrightarrow> pagemap_at s2 vb = (if vb = va then Some (pa OR flags) else pagemap_at s vb))"
  proof (cases "dirent s ?i AND 1 = 0")
    case False
    let ?s = "put_table ?i ?j (pa OR flags) (cli s)"
    have "tabent s ?i ?j AND 1 = 0" using unmapped False by (auto simp: pagemap_def split: if_splits)
    then have "vmm_map_body va pa flags (cli s) = Inr ((), ?s)"
      using vmm_map_body_present [OF _ b(1) refl refl, of "cli s" pa flags] wf(1) False w by simp
    moreover have "vmm_wf ?s" using wf(1) b False by (intro vmm_wf_put_table) simp_all
    moreover have "pagemap_at ?s vb = (if vb = va then Some (pa OR flags) else pagemap_at s vb)"
      if "mappable vb" for vb
      using pagemap_put_table [of "cli s" ?i ?j "PAGE_DIRECTORY_INDEX vb" "PAGE_TABLE_INDEX vb" "pa OR flags"]
        wf(1) b False same [OF that] mappable_dir [OF that] index_bounds [of vb] w by simp
    moreover have "free_frames ?s = free_frames s" by (simp add: free_frames_def)
    moreover have "?s = (cli s)\<lparr>memregions := memregions ?s, phys := phys ?s\<rparr>"
      by (simp add: put_table_def)
    ultimately show ?thesis using False by (intro exI [of _ ?s]) simp
  next
    case True
    with room have a: "pmm_alloc s = Inr (f, s1)" "f \<noteq> INVALID_FRAME" by simp_all
    note a' = pmm_alloc_cli [OF a(1)]
    have c: "vmm_wf (cli s)" "dirent (cli s) ?i AND 1 = 0" using wf(1) True by simp_all
    obtain s2 where s2: "vmm_map_body va pa flags (cli s) = Inr ((), s2)" "vmm_wf s2"
        "s2 = (cli s)\<lparr>memregions := memregions ((cli s)\<lparr>memregions := memregions s1\<rparr>), phys := phys s2\<rparr>"
      and pm: "\<And>i' j'. unat i' < 1023 \<Longrightarrow> unat j' < 1024 \<Longrightarrow> pagemap s2 i' j' =
          (if i' = ?i \<and> j' = ?j then (if (pa AND PTE_FRAME OR flags) AND 1 = 0 then None
             else Some (pa AND PTE_FRAME OR flags)) else pagemap (cli s) i' j')"
      by (rule vmm_map_body_missing [OF c(1) b(1) refl refl c(2) a' a(2), of pa flags]) blast
    have m: "memregions s2 = memregions s1" by (subst s2(3)) simp
    then have "free_frames s2 = free_frames s - {unat f}"
      using alloc_frame_facts(5) [OF wf(1) a] by (simp add: free_frames_def)
    moreover have "pagemap_at s2 vb = (if vb = va then Some (pa OR flags) else pagemap_at s vb)"
      if "mappable vb" for vb
      using pm [OF mappable_dir [OF that] index_bounds(2)] same [OF that] w by simp
    ultimately show ?thesis using s2(1,2,3) m True by auto
  qed
  then obtain s2 where s2: "vmm_map_body va pa flags (cli s) = Inr ((), s2)" "vmm_wf s2"
      "s2 = (cli s)\<lparr>memregions := memregions s2, phys := phys s2\<rparr>"
      "free_frames s2 = (if dirent s ?i AND 1 \<noteq> 0 then free_frames s else free_frames s - {unat f})"
      "\<And>vb. mappable vb \<Longrightarrow> pagemap_at s2 vb = (if vb = va then Some (pa OR flags) else pagemap_at s vb)"
    by blast
  have "eflags s2 = eflags (cli s)" by (subst s2(3)) simp
  define s3 where "s3 = s2\<lparr>eflags := eflags s\<rparr>"
  have "vmm_map va pa flags s = Inr ((), s3)"
    unfolding pre s3_def using s2(1) \<open>eflags s2 = eflags (cli s)\<close> by (rule critical_run)
  moreover have "s3 = s\<lparr>memregions := memregions s3, phys := phys s3\<rparr>"
    unfolding s3_def by (subst s2(3), subst s2(3), subst s2(3)) (simp add: cli_def)
  moreover have "vmm_wf s3" "free_frames s3 = free_frames s2" "pagemap s3 = pagemap s2"
    using s2(2) by (simp_all add: s3_def)
  ultimately show ?thesis using s2(4,5) by (intro exI [of _ s3]) simp
qed

lemma vmm_map_mapped:
  assumes "vmm_wf s" "paging_enabled s" "mappable va" "4096 dvd unat pa" "flags AND 1 \<noteq> 0"
    and "pagemap_at s va \<noteq> None"
  shows "vmm_map va pa flags s = Inl Abort"
proof -
  let ?i = "PAGE_DIRECTORY_INDEX va" and ?j = "PAGE_TABLE_INDEX va"
  have "dirent s ?i AND 1 \<noteq> 0" "tabent s ?i ?j AND 1 \<noteq> 0"
    using assms(6) by (auto simp: pagemap_def split: if_splits)
  then have "vmm_map_body va pa flags (cli s) = Inl Abort"
    using vmm_map_body_present [of "cli s" ?i va ?j] mappable_dir [OF assms(3)] assms(1) by simp
  then show ?thesis
    using assms by (simp add: vmm_map_def VMM_PAGE_PRESENT_def IS_ALIGNED_iff PAGE_SIZE_def mappable_def
        critical_Inl)
qed

lemma vmm_map_Inr:
  assumes wf: "vmm_wf s" and va: "mappable va" and r: "vmm_map va pa flags s = Inr ((), s')"
  shows "paging_enabled s" "flags AND 1 \<noteq> 0" "4096 dvd unat pa" "pagemap_at s va = None"
    "dirent s (PAGE_DIRECTORY_INDEX va) AND 1 \<noteq> 0 \<or> (\<exists>f s1. pmm_alloc s = Inr (f, s1) \<and> f \<noteq> INVALID_FRAME)"
proof -
  show p: "paging_enabled s" "flags AND 1 \<noteq> 0" "4096 dvd unat pa"
    using r by (auto simp: vmm_map_def res_simps VMM_PAGE_PRESENT_def IS_ALIGNED_iff PAGE_SIZE_def)
  show "pagemap_at s va = None" using vmm_map_mapped [OF wf p(1) va p(3,2)] r by fastforce
  obtain s2 where b: "vmm_map_body va pa flags (cli s) = Inr ((), s2)"
    using r by (auto simp: vmm_map_def res_simps critical_Inr)
  show "dirent s (PAGE_DIRECTORY_INDEX va) AND 1 \<noteq> 0 \<or> (\<exists>f s1. pmm_alloc s = Inr (f, s1) \<and> f \<noteq> INVALID_FRAME)"
  proof (cases "dirent s (PAGE_DIRECTORY_INDEX va) AND 1 = 0")
    case True
    then obtain f s1 where "pmm_alloc (cli s) = Inr (f, s1)" "f \<noteq> INVALID_FRAME"
      using b load_dir [of "cli s" "PAGE_DIRECTORY_INDEX va"] wf index_bounds(1) [of va]
      by (auto simp: vmm_map_body_def Let_def res_simps PDE_PRESENT_def)
    then show ?thesis by (auto simp: pmm_alloc_eq res_simps)
  qed simp
qed

lemma vmm_map_result:
  assumes "vmm_wf s" "mappable va" "vmm_map va pa flags s = Inr ((), s')"
  shows "vmm_wf s' \<and> pagemap_at s va = None \<and> s' = s\<lparr>memregions := memregions s', phys := phys s'\<rparr>
    \<and> free_frames s' \<subseteq> free_frames s
    \<and> (\<forall>vb. mappable vb \<longrightarrow> pagemap_at s' vb = (if vb = va then Some (pa OR flags) else pagemap_at s vb))"
proof -
  note r = vmm_map_Inr [OF assms]
  obtain f s1 where "dirent s (PAGE_DIRECTORY_INDEX va) AND 1 \<noteq> 0 \<or> pmm_alloc s = Inr (f, s1) \<and> f \<noteq> INVALID_FRAME"
    using r(5) by blast
  from vmm_map_spec [OF assms(1) r(1) assms(2) r(3,2,4) this] assms(3) r(4)
  show ?thesis by (auto split: if_splits)
qed

section \<open>\<open>vmm_unmap\<close>, \<open>vmm_remap\<close> and the lookups\<close>

text \<open>Both change one present entry of the current tables.\<close>

lemma change_entry:
  assumes wf: "vmm_wf s" and va: "mappable va" and e: "pagemap_at s va = Some e"
    and run: "body (cli s) = Inr ((), put_table (PAGE_DIRECTORY_INDEX va) (PAGE_TABLE_INDEX va) w (cli s))"
  shows "\<exists>s'. critical body s = Inr ((), s') \<and> vmm_wf s' \<and> s' = s\<lparr>phys := phys s'\<rparr>
    \<and> (\<forall>vb. mappable vb \<longrightarrow> pagemap_at s' vb =
         (if vb = va then (if w AND 1 = 0 then None else Some w) else pagemap_at s vb))"
proof -
  let ?i = "PAGE_DIRECTORY_INDEX va" and ?j = "PAGE_TABLE_INDEX va"
  let ?s = "put_table ?i ?j w (cli s)"
  have b: "unat ?i < 1023" "unat ?j < 1024" using mappable_dir [OF va] index_bounds by simp_all
  have d: "dirent (cli s) ?i AND 1 \<noteq> 0" using e by (auto simp: pagemap_def split: if_splits)
  have c: "vmm_wf (cli s)" using wf by simp
  have pm: "pagemap_at ?s vb = (if vb = va then (if w AND 1 = 0 then None else Some w) else pagemap_at s vb)"
    if "mappable vb" for vb
  proof -
    have "(PAGE_DIRECTORY_INDEX vb = ?i \<and> PAGE_TABLE_INDEX vb = ?j) = (vb = va)"
      using page_eq_iff that va by (simp add: mappable_def)
    then show ?thesis
      using pagemap_put_table [OF c b(1) d b(2) mappable_dir [OF that] index_bounds(2)] by simp
  qed
  define s3 where "s3 = ?s\<lparr>eflags := eflags s\<rparr>"
  have "critical body s = Inr ((), s3)" unfolding s3_def using run by (rule critical_run) simp
  moreover have "vmm_wf s3" "pagemap s3 = pagemap ?s"
    using vmm_wf_put_table [OF c b(1) d b(2)] by (simp_all add: s3_def)
  moreover have "s3 = s\<lparr>phys := phys s3\<rparr>" by (simp add: s3_def put_table_def cli_def)
  ultimately show ?thesis using pm by (intro exI [of _ s3]) simp
qed

lemma vmm_unmap_spec:
  assumes "vmm_wf s" "paging_enabled s" "mappable va" "pagemap_at s va = Some e"
  shows "\<exists>s'. vmm_unmap va s = Inr ((), s') \<and> vmm_wf s' \<and> s' = s\<lparr>phys := phys s'\<rparr>
    \<and> (\<forall>vb. mappable vb \<longrightarrow> pagemap_at s' vb = (if vb = va then None else pagemap_at s vb))"
proof -
  let ?i = "PAGE_DIRECTORY_INDEX va" and ?j = "PAGE_TABLE_INDEX va"
  have e: "dirent s ?i AND 1 \<noteq> 0" "tabent s ?i ?j AND 1 \<noteq> 0" "tabent s ?i ?j = e"
    using assms(4) by (auto simp: pagemap_def split: if_splits)
  have "(e AND NOT PTE_PRESENT) AND 1 = 0" by (simp add: PTE_PRESENT_def and.assoc)
  moreover have "vmm_unmap va s = critical (\<lambda>s.
         let info = va_info va;
             table = get_pagetable info;
             pte_addr = pagedir_entry table (table_index info)
         in
         res_bind (load32 s (pagedir_entry current_pagedir (dir_index info))) (\<lambda>pde.
         assert_then (pde AND PDE_PRESENT \<noteq> 0)
         (res_bind (load32 s pte_addr) (\<lambda>pte.
          assert_then (pte AND PTE_PRESENT \<noteq> 0)
          (res_bind (store32 s pte_addr (pte AND NOT PTE_PRESENT)) (\<lambda>s.
           flush_tlb s)))))) s" (is "_ = critical ?body s")
    using assms(2,3) by (simp add: vmm_unmap_def IS_ALIGNED_iff PAGE_SIZE_def mappable_def)
  moreover have "?body (cli s) = Inr ((), put_table ?i ?j (e AND NOT PTE_PRESENT) (cli s))"
    using e assms(1) index_bounds [of va] load_dir [of "cli s" ?i] load_table [of "cli s" ?i ?j "va_info va"]
      store_table [of "cli s" ?i ?j "va_info va"]
    by (simp add: Let_def flush_tlb_eq PDE_PRESENT_def PTE_PRESENT_def)
  ultimately show ?thesis using change_entry [OF assms(1,3,4)] by presburger
qed

lemma vmm_remap_spec:
  assumes "vmm_wf s" "paging_enabled s" "mappable va" "pagemap_at s va = Some e" "flags AND 1 \<noteq> 0"
  shows "\<exists>s'. vmm_remap va flags s = Inr ((), s') \<and> vmm_wf s' \<and> s' = s\<lparr>phys := phys s'\<rparr>
    \<and> (\<forall>vb. mappable vb \<longrightarrow> pagemap_at s' vb = (if vb = va then Some (e AND PTE_FRAME OR flags) else pagemap_at s vb))"
proof -
  let ?i = "PAGE_DIRECTORY_INDEX va" and ?j = "PAGE_TABLE_INDEX va"
  have e: "dirent s ?i AND 1 \<noteq> 0" "tabent s ?i ?j AND 1 \<noteq> 0" "tabent s ?i ?j = e"
    using assms(4) by (auto simp: pagemap_def split: if_splits)
  have "(e AND PTE_FRAME OR flags) AND 1 \<noteq> 0" using assms(5) by (rule flags_present)
  moreover have "vmm_remap va flags s = critical (\<lambda>s.
         let info = va_info va;
             table = get_pagetable info;
             pte_addr = pagedir_entry table (table_index info)
         in
         res_bind (load32 s (pagedir_entry current_pagedir (dir_index info))) (\<lambda>pde.
         assert_then (pde AND PDE_PRESENT \<noteq> 0)
         (res_bind (load32 s pte_addr) (\<lambda>pte.
          assert_then (pte AND PTE_PRESENT \<noteq> 0)
          (res_bind (store32 s pte_addr (pte AND PTE_FRAME OR flags)) (\<lambda>s.
           flush_tlb s)))))) s" (is "_ = critical ?body s")
    using assms(2,3,5)
    by (simp add: vmm_remap_def IS_ALIGNED_iff PAGE_SIZE_def mappable_def VMM_PAGE_PRESENT_def)
  moreover have "?body (cli s) = Inr ((), put_table ?i ?j (e AND PTE_FRAME OR flags) (cli s))"
    using e assms(1) index_bounds [of va] load_dir [of "cli s" ?i] load_table [of "cli s" ?i ?j "va_info va"]
      store_table [of "cli s" ?i ?j "va_info va"]
    by (simp add: Let_def flush_tlb_eq PDE_PRESENT_def PTE_PRESENT_def)
  ultimately show ?thesis using change_entry [OF assms(1,3,4)] by presburger
qed

lemma vmm_unmap_missing:
  assumes "vmm_wf s" "mappable va" "pagemap_at s va = None"
  shows "vmm_unmap va s = Inl Assert_Failed"
proof -
  let ?i = "PAGE_DIRECTORY_INDEX va" and ?j = "PAGE_TABLE_INDEX va"
  have e: "dirent s ?i AND 1 = 0 \<or> tabent s ?i ?j AND 1 = 0"
    using assms(3) by (auto simp: pagemap_def split: if_splits)
  show ?thesis
    using assms(1,2) e index_bounds [of va] load_dir [of "cli s" ?i] load_table [of "cli s" ?i ?j "va_info va"]
    by (cases "dirent s ?i AND 1 = 0")
      (auto simp: vmm_unmap_def assert_then_def critical_Inl Let_def PDE_PRESENT_def PTE_PRESENT_def)
qed

lemma vmm_unmap_Inr:
  assumes "vmm_wf s" "mappable va" "vmm_unmap va s = Inr ((), s')"
  shows "paging_enabled s" "\<exists>e. pagemap_at s va = Some e"
proof -
  show "paging_enabled s" using assms(3) by (auto simp: vmm_unmap_def res_simps)
  show "\<exists>e. pagemap_at s va = Some e" using vmm_unmap_missing [OF assms(1,2)] assms(3) by fastforce
qed

text \<open>The entry as the two lookup functions report it: frame and flags, zero for a page that is not mapped.\<close>

lemma va_info_ex_eq:
  assumes "vmm_wf s" "paging_enabled s"
  shows "\<exists>r. va_info_ex va s = Inr r
    \<and> vx_frame r = (case pagemap_at s va of None \<Rightarrow> 0 | Some e \<Rightarrow> e AND PTE_FRAME)
    \<and> vx_flags r = (case pagemap_at s va of None \<Rightarrow> 0 | Some e \<Rightarrow> e AND PTE_FLAGS)"
proof -
  let ?i = "PAGE_DIRECTORY_INDEX va" and ?j = "PAGE_TABLE_INDEX va"
  show ?thesis
    using assms index_bounds [of va] load_dir [of s ?i] load_table [of s ?i ?j "va_info va"]
    by (cases "dirent s ?i AND 1 = 0"; cases "tabent s ?i ?j AND 1 = 0")
      (simp_all add: va_info_ex_def Let_def PDE_PRESENT_def PTE_PRESENT_def pagemap_def)
qed

lemma vmm_get_eq:
  assumes "vmm_wf s" "paging_enabled s" "4096 dvd unat va"
  shows "vmm_get_physical va s = Inr (case pagemap_at s va of None \<Rightarrow> 0 | Some e \<Rightarrow> e AND PTE_FRAME, s)"
    and "vmm_get_flags va s = Inr (case pagemap_at s va of None \<Rightarrow> 0 | Some e \<Rightarrow> e AND PTE_FLAGS, s)"
proof -
  have u: "(cli s)\<lparr>eflags := eflags s\<rparr> = s" by (simp add: cli_def)
  obtain r where r: "va_info_ex va (cli s) = Inr r"
      "vx_frame r = (case pagemap_at s va of None \<Rightarrow> 0 | Some e \<Rightarrow> e AND PTE_FRAME)"
      "vx_flags r = (case pagemap_at s va of None \<Rightarrow> 0 | Some e \<Rightarrow> e AND PTE_FLAGS)"
    using va_info_ex_eq [of "cli s" va] assms by auto
  have a: "IS_ALIGNED va PAGE_SIZE" using assms(3) by (simp add: page_aligned_iff)
  show "vmm_get_physical va s = Inr (case pagemap_at s va of None \<Rightarrow> 0 | Some e \<Rightarrow> e AND PTE_FRAME, s)"
    unfolding vmm_get_physical_def using critical_run [of _ s "vx_frame r" "cli s"] r a u by simp
  show "vmm_get_flags va s = Inr (case pagemap_at s va of None \<Rightarrow> 0 | Some e \<Rightarrow> e AND PTE_FLAGS, s)"
    unfolding vmm_get_flags_def using critical_run [of _ s "vx_flags r" "cli s"] r a u by simp
qed

text \<open>The processor sees what the map says.\<close>

lemma translate_pagemap:
  assumes "vmm_wf s" "unat (PAGE_DIRECTORY_INDEX va) < 1023"
  shows "translate s False va =
    (case pagemap_at s va of None \<Rightarrow> Inl Abort | Some e \<Rightarrow> Inr ((e AND 0xFFFFF000) + (va AND 0xFFF)))"
proof (cases "dirent s (PAGE_DIRECTORY_INDEX va) AND 1 = 0")
  case True
  then show ?thesis by (simp add: translate_def pagemap_def dirent_def Let_def)
next
  case False
  then have "dirent s (PAGE_DIRECTORY_INDEX va) AND 0x80 = 0"
    using wf_small [OF assms(1)] assms(2) small_entryD by fastforce
  with False show ?thesis
    by (simp add: translate_def pagemap_def dirent_def [symmetric] tabent_def [symmetric] Let_def writable_ok_def)
qed

section \<open>The interface of an address space\<close>

text \<open>
  What a client of the page tables relies on: a lookup function on pages, and that mapping
  and unmapping change it at one page only. A page can be lent out (unmapped, and mapped to
  another frame) and given back.
\<close>

locale address_space =
  fixes inv :: "'st \<Rightarrow> bool"
    and page :: "u32 \<Rightarrow> bool"
    and lookup :: "'st \<Rightarrow> u32 \<Rightarrow> u32 option"
    and map_page :: "u32 \<Rightarrow> u32 \<Rightarrow> u32 \<Rightarrow> 'st \<Rightarrow> (unit \<times> 'st) res"
    and unmap_page :: "u32 \<Rightarrow> 'st \<Rightarrow> (unit \<times> 'st) res"
  assumes map_law: "\<lbrakk>inv st; page va; map_page va pa fl st = Inr ((), st')\<rbrakk>
      \<Longrightarrow> inv st' \<and> lookup st va = None
        \<and> (\<forall>vb. page vb \<longrightarrow> lookup st' vb = (if vb = va then Some (pa OR fl) else lookup st vb))"
    and unmap_law: "\<lbrakk>inv st; page va; unmap_page va st = Inr ((), st')\<rbrakk>
      \<Longrightarrow> inv st' \<and> lookup st va \<noteq> None
        \<and> (\<forall>vb. page vb \<longrightarrow> lookup st' vb = (if vb = va then None else lookup st vb))"
begin

lemma lend:
  assumes "inv st" "page va" "unmap_page va st = Inr ((), st1)" "map_page va pa fl st1 = Inr ((), st2)"
  shows "inv st2 \<and> (\<forall>vb. page vb \<longrightarrow> lookup st2 vb = (if vb = va then Some (pa OR fl) else lookup st vb))"
  using unmap_law [OF assms(1,2,3)] map_law [OF _ assms(2,4)] by auto

lemma lend_and_return:
  assumes "inv st" "page va" "lookup st va = Some (pa OR fl)"
    and "unmap_page va st = Inr ((), st1)" "map_page va qa gl st1 = Inr ((), st2)"
    and "unmap_page va st2 = Inr ((), st3)" "map_page va pa fl st3 = Inr ((), st4)"
  shows "inv st4 \<and> (\<forall>vb. page vb \<longrightarrow> lookup st4 vb = lookup st vb)"
  using lend [OF assms(1,2,4,5)] lend [OF _ assms(2,6,7)] assms(3) by auto

end

interpretation vm: address_space vmm_wf mappable pagemap_at vmm_map vmm_unmap
proof
  fix s s' :: "'a vmm_state_scheme" and va pa fl
  assume "vmm_wf s" "mappable va" "vmm_map va pa fl s = Inr ((), s')"
  from vmm_map_result [OF this]
  show "vmm_wf s' \<and> pagemap_at s va = None
      \<and> (\<forall>vb. mappable vb \<longrightarrow> pagemap_at s' vb = (if vb = va then Some (pa OR fl) else pagemap_at s vb))"
    by blast
next
  fix s s' :: "'a vmm_state_scheme" and va
  assume a: "vmm_wf s" "mappable va" "vmm_unmap va s = Inr ((), s')"
  then obtain e where e: "paging_enabled s" "pagemap_at s va = Some e" using vmm_unmap_Inr by blast
  from vmm_unmap_spec [OF a(1) e(1) a(2) e(2)] a(3) e(2)
  show "vmm_wf s' \<and> pagemap_at s va \<noteq> None
      \<and> (\<forall>vb. mappable vb \<longrightarrow> pagemap_at s' vb = (if vb = va then None else pagemap_at s vb))"
    by auto
qed

section \<open>Properties\<close>

text \<open>
  C20: through the recursive mapping the code reads and writes exactly the words of the
  current page directory and of its page tables: the window address of directory entry \<open>i\<close>
  is translated to word \<open>i\<close> of the frame in \<open>cr3\<close>, and the window address of entry \<open>j\<close> of table
  \<open>i\<close> to word \<open>j\<close> of the frame that directory entry \<open>i\<close> names, for reads and for writes.
\<close>

theorem recursive_mapping:
  assumes "vmm_wf s" "unat i < 1024" "unat j < 1024"
  shows "translate s w (pagedir_entry current_pagedir i) = Inr (entry_addr (cr3 s) i)
    \<and> (dirent s i AND PDE_PRESENT \<noteq> 0 \<longrightarrow>
         translate s w (pagedir_entry (get_pagetable \<lparr>dir_index = i, table_index = k\<rparr>) j)
           = Inr (entry_addr (dirent s i) j))"
  using translate_dir [OF assms(1,2)] translate_table [OF assms]
  by (simp add: PDE_PRESENT_def)

text \<open>
  A machine with a page directory in frame \<open>0x2000\<close> and one page table in frame \<open>0x3000\<close>,
  which maps the page at \<open>0x400000\<close>.
\<close>

definition sample_vmm :: vmm_state where
  "sample_vmm = \<lparr>eflags = 0x202, initialized = True, memregions = [sample_region],
     phys = (\<lambda>a. if a = 0x2FFC then 0x2003 else if a = 0x2004 then 0x3007
        else if a = 0x3000 then 0x105003 else 0),
     cr3 = 0x2000, cr0 = 0x80010001, paging_enabled = True, current_pagedir_va = 0xC0002000\<rparr>"

lemma sample_dirent:
  assumes "unat i < 1024"
  shows "dirent sample_vmm i = (if i = 1023 then 0x2003 else if i = 1 then 0x3007 else 0)"
proof -
  have "entry_addr 0x2000 i = 0x2FFC \<longleftrightarrow> i = 1023" "entry_addr 0x2000 i = 0x2004 \<longleftrightarrow> i = 1"
    "entry_addr 0x2000 i \<noteq> 0x3000"
    using entry_addr_inj [of i 1023 "0x2000" "0x2000"] entry_addr_inj [of i 1 "0x2000" "0x2000"]
      entry_addr_inj [of i 0 "0x2000" "0x3000"] assms
    by (simp_all add: entry_addr_def)
  then show ?thesis by (simp add: dirent_def sample_vmm_def)
qed

lemma sample_vmm_wf: "vmm_wf sample_vmm"
proof -
  have d: "dirent sample_vmm 1023 = 0x2003" using sample_dirent [of 1023] by simp
  have z: "dirent sample_vmm i = (if i = 1 then 0x3007 else 0)" if "unat i < 1023" for i
    using sample_dirent [of i] that by auto
  have "pmm_wf sample_vmm" by (simp add: pmm_wf_def sample_vmm_def sample_region_wf)
  moreover have "unat (0x2000 :: u32) \<notin> free_frames sample_vmm" "unat (0x3000 :: u32) \<notin> free_frames sample_vmm"
    by (auto simp: free_frames_def sample_vmm_def region_free_def frame_at_def sample_region_def)
  moreover have "cr3 sample_vmm = 0x2000" by (simp add: sample_vmm_def)
  ultimately show ?thesis using d z by (simp add: vmm_wf_def small_entry_def)
qed

lemma sample_mapped: "pagemap_at sample_vmm 0x400000 = Some (0x105000 OR 3)"
  by code_simp

theorem recursive_mapping_witness:
  "translate sample_vmm True (pagedir_entry current_pagedir 5) = Inr (entry_addr (cr3 sample_vmm) 5)"
  using recursive_mapping [OF sample_vmm_wf, of 5 0 True] by simp

text \<open>
  C4: \<open>vmm_map\<close> refines an update of the map from pages to entries: a page that is mapped
  already stops the kernel; otherwise, if the page table exists or a frame for one can be
  allocated, the page is mapped to the given frame and flags, every other page keeps its
  entry, the interrupt flag is restored, and at most the frame of a new table leaves the
  free set; if neither is the case it does not return.
\<close>

theorem vmm_map_correct:
  assumes "vmm_wf s" "paging_enabled s" "mappable va" "4096 dvd unat pa" "flags AND VMM_PAGE_PRESENT \<noteq> 0"
  shows "if pagemap_at s va \<noteq> None then vmm_map va pa flags s = Inl Abort
    else if dirent s (PAGE_DIRECTORY_INDEX va) AND PDE_PRESENT \<noteq> 0
      \<or> (\<exists>f s1. pmm_alloc s = Inr (f, s1) \<and> f \<noteq> INVALID_FRAME)
    then \<exists>s'. vmm_map va pa flags s = Inr ((), s') \<and> vmm_wf s' \<and> eflags s' = eflags s
      \<and> (\<forall>vb. mappable vb \<longrightarrow> pagemap_at s' vb = (if vb = va then Some (pa OR flags) else pagemap_at s vb))
      \<and> (\<exists>f. free_frames s' \<in> {free_frames s, free_frames s - {f}})
    else \<nexists>r. vmm_map va pa flags s = Inr r"
proof (cases "pagemap_at s va")
  case (Some e)
  then show ?thesis using vmm_map_mapped [OF assms(1-4)] assms(5) by (simp add: VMM_PAGE_PRESENT_def)
next
  case None
  show ?thesis
  proof (cases "dirent s (PAGE_DIRECTORY_INDEX va) AND 1 \<noteq> 0
      \<or> (\<exists>f s1. pmm_alloc s = Inr (f, s1) \<and> f \<noteq> INVALID_FRAME)")
    case True
    then obtain f s1 where "dirent s (PAGE_DIRECTORY_INDEX va) AND 1 \<noteq> 0
        \<or> pmm_alloc s = Inr (f, s1) \<and> f \<noteq> INVALID_FRAME" by blast
    from vmm_map_spec [OF assms(1-4) _ None this, of flags] assms(5)
    obtain s' where s': "vmm_map va pa flags s = Inr ((), s')" "vmm_wf s'"
        "s' = s\<lparr>memregions := memregions s', phys := phys s'\<rparr>"
        "free_frames s' = (if dirent s (PAGE_DIRECTORY_INDEX va) AND 1 \<noteq> 0 then free_frames s
           else free_frames s - {unat f})"
        "\<forall>vb. mappable vb \<longrightarrow> pagemap_at s' vb = (if vb = va then Some (pa OR flags) else pagemap_at s vb)"
      by (auto simp: VMM_PAGE_PRESENT_def)
    have "eflags s' = eflags s" by (subst s'(3)) simp
    moreover have "\<exists>f. free_frames s' \<in> {free_frames s, free_frames s - {f}}"
      using s'(4) by (intro exI [of _ "unat f"]) simp
    ultimately show ?thesis using None True s'(1,2,5) by (simp add: PDE_PRESENT_def)
  next
    case False
    then have "\<nexists>r. vmm_map va pa flags s = Inr r"
      using vmm_map_Inr(5) [OF assms(1,3)] by (metis (full_types) old.unit.exhaust surj_pair)
    then show ?thesis unfolding PDE_PRESENT_def using None False by (simp only: if_False simp_thms)
  qed
qed

theorem vmm_map_correct_witness:
  "\<exists>s'. vmm_map 0x800000 0x105000 3 sample_vmm = Inr ((), s') \<and> vmm_wf s'
    \<and> pagemap_at s' 0x800000 = Some (0x105000 OR 3) \<and> pagemap_at s' 0x400000 = Some (0x105000 OR 3)"
proof -
  have va: "mappable 0x800000" "mappable 0x400000" by (simp_all add: mappable_def)
  have none: "pagemap_at sample_vmm 0x800000 = None" by code_simp
  have "case pmm_alloc sample_vmm of Inl _ \<Rightarrow> False | Inr (f, _) \<Rightarrow> f \<noteq> INVALID_FRAME" by code_simp
  then have "\<exists>f s1. pmm_alloc sample_vmm = Inr (f, s1) \<and> f \<noteq> INVALID_FRAME"
    by (auto split: sum.splits prod.splits)
  moreover have "paging_enabled sample_vmm" by (simp add: sample_vmm_def)
  ultimately show ?thesis
    using vmm_map_correct [OF sample_vmm_wf _ va(1), of "0x105000" 3] none va sample_mapped
    by (auto simp: VMM_PAGE_PRESENT_def)
qed

text \<open>
  C21: \<open>vmm_unmap\<close> refines removal from the map, \<open>vmm_remap\<close> replaces the flags of one entry and
  keeps its frame, and \<open>vmm_get_physical\<close> and \<open>vmm_get_flags\<close> are lookups that change nothing;
  every other page keeps its entry, and unmapping a page that is not mapped fails an assertion.
\<close>

theorem vmm_unmap_remap_lookup:
  assumes "vmm_wf s" "paging_enabled s" "mappable va" "flags AND VMM_PAGE_PRESENT \<noteq> 0"
  shows "case pagemap_at s va of
      None \<Rightarrow> vmm_unmap va s = Inl Assert_Failed \<and> vmm_get_physical va s = Inr (0, s)
    | Some e \<Rightarrow>
        (\<exists>s'. vmm_unmap va s = Inr ((), s') \<and> vmm_wf s' \<and> s' = s\<lparr>phys := phys s'\<rparr> \<and>
           (\<forall>vb. mappable vb \<longrightarrow> pagemap_at s' vb = (if vb = va then None else pagemap_at s vb)))
      \<and> (\<exists>s'. vmm_remap va flags s = Inr ((), s') \<and> vmm_wf s' \<and> s' = s\<lparr>phys := phys s'\<rparr> \<and>
           (\<forall>vb. mappable vb \<longrightarrow> pagemap_at s' vb =
              (if vb = va then Some (e AND PTE_FRAME OR flags) else pagemap_at s vb)))
      \<and> vmm_get_physical va s = Inr (e AND PTE_FRAME, s) \<and> vmm_get_flags va s = Inr (e AND PTE_FLAGS, s)"
proof -
  have al: "4096 dvd unat va" using assms(3) by (simp add: mappable_def)
  show ?thesis
  proof (cases "pagemap_at s va")
    case None
    then show ?thesis
      using vmm_unmap_missing [OF assms(1,3)] vmm_get_eq(1) [OF assms(1,2) al] by simp
  next
    case (Some e)
    have fl: "flags AND 1 \<noteq> 0" using assms(4) by (simp add: VMM_PAGE_PRESENT_def)
    show ?thesis
      unfolding Some option.case
      using vmm_unmap_spec [OF assms(1-3) Some] vmm_remap_spec [OF assms(1-3) Some fl]
        vmm_get_eq [OF assms(1,2) al] Some by simp
  qed
qed

theorem vmm_unmap_remap_lookup_witness:
  "\<exists>s'. vmm_unmap 0x400000 sample_vmm = Inr ((), s') \<and> pagemap_at s' 0x400000 = None"
proof -
  have va: "mappable 0x400000" by (simp add: mappable_def)
  have "(3 :: u32) AND VMM_PAGE_PRESENT \<noteq> 0" by (simp add: VMM_PAGE_PRESENT_def)
  moreover have "paging_enabled sample_vmm" by (simp add: sample_vmm_def)
  ultimately show ?thesis
    using vmm_unmap_remap_lookup [OF sample_vmm_wf _ va, of 3] sample_mapped va by auto
qed

end
