(* ===== verification/Heap.thy ===== *)
theory Heap
  imports Vmm LinkedList
begin

text \<open>
  The kernel heap of \<open>kernel/heap.c\<close>: a chain of blocks, each with a header and, when
  allocated, a canary in its last eight bytes. Headers and canaries are kept in typed
  stores indexed by address; a canary that reaches into the header of its own block changes
  the header byte by byte. The invariant says that the blocks tile the heap without
  gaps or overlap and that no two free blocks are neighbours; allocation and release are
  shown to keep it and to change the set of allocated blocks by exactly one block.
\<close>

section \<open>Headers, heap and the small operations\<close>

record heap_block_header =
  hb_magic :: u32
  hb_flags :: u32
  hb_size :: u32
  hb_next :: u32

record heap =
  heap_head :: u32
  heap_size :: u32
  heap_max_size :: u32
  heap_lock_word :: u32

record heap_state = vmm_state +
  blocks :: "u32 \<Rightarrow> heap_block_header"
  canaries :: "u32 \<Rightarrow> u64"
  kheap :: heap
  kheap_addr :: u32

definition MAGIC_ALLOCATED :: u32 where "MAGIC_ALLOCATED = 0xABCDEF01"
definition MAGIC_FREE :: u32 where "MAGIC_FREE = 0x12345678"
definition CANARY :: u64 where "CANARY = 0x7778798081828384"
definition BLOCK_ALLOCATED :: u32 where "BLOCK_ALLOCATED = 1"
definition KERNEL_BASE_ADDR :: u32 where "KERNEL_BASE_ADDR = 0xC0000000"

text \<open>\<open>sizeof(struct heap_block_header)\<close> and \<open>sizeof(struct heap)\<close>.\<close>

definition HDR :: u32 where "HDR = 16"
definition HEAP_STRUCT :: u32 where "HEAP_STRUCT = 16"

definition valid_header :: "heap_block_header \<Rightarrow> bool" where
  "valid_header h \<longleftrightarrow>
     (if hb_flags h AND BLOCK_ALLOCATED \<noteq> 0 then hb_magic h = MAGIC_ALLOCATED else hb_magic h = MAGIC_FREE)"

definition is_valid_block :: "'a heap_state_scheme \<Rightarrow> u32 \<Rightarrow> bool" where
  "is_valid_block s header = valid_header (blocks s header)"

definition heap_is_free :: "'a heap_state_scheme \<Rightarrow> u32 \<Rightarrow> bool res" where
  "heap_is_free s block =
     (if \<not> is_valid_block s block then Inl Panic
      else Inr (hb_flags (blocks s block) AND BLOCK_ALLOCATED = 0))"

definition heap_is_allocated :: "'a heap_state_scheme \<Rightarrow> u32 \<Rightarrow> bool res" where
  "heap_is_allocated s block =
     assert_then (is_valid_block s block) (Inr (hb_flags (blocks s block) AND BLOCK_ALLOCATED \<noteq> 0))"

definition upd_block :: "u32 \<Rightarrow> (heap_block_header \<Rightarrow> heap_block_header) \<Rightarrow> 'a heap_state_scheme \<Rightarrow> 'a heap_state_scheme" where
  "upd_block a f s = s\<lparr>blocks := (blocks s)(a := f (blocks s a))\<rparr>"

definition set_allocated :: "u32 \<Rightarrow> 'a heap_state_scheme \<Rightarrow> 'a heap_state_scheme res" where
  "set_allocated block s = assert_then (is_valid_block s block)
     (Inr (upd_block block
       (\<lambda>h. h\<lparr>hb_flags := hb_flags h OR BLOCK_ALLOCATED, hb_magic := MAGIC_ALLOCATED\<rparr>) s))"

definition set_free :: "u32 \<Rightarrow> 'a heap_state_scheme \<Rightarrow> 'a heap_state_scheme res" where
  "set_free block s = assert_then (is_valid_block s block)
     (Inr (upd_block block
       (\<lambda>h. h\<lparr>hb_flags := hb_flags h AND NOT BLOCK_ALLOCATED, hb_magic := MAGIC_FREE\<rparr>) s))"

definition canary_addr :: "'a heap_state_scheme \<Rightarrow> u32 \<Rightarrow> u32" where
  "canary_addr s block = block + hb_size (blocks s block) - 8"

text \<open>The bytes of a word and of a header, least significant first, and back.\<close>

definition word_bytes :: "nat \<Rightarrow> 'a::len word \<Rightarrow> u8 list" where
  "word_bytes n w = map (\<lambda>i. ucast (drop_bit (8 * i) w)) [0..<n]"

primrec bytes_word :: "u8 list \<Rightarrow> 'a::len word" where
  "bytes_word [] = 0"
| "bytes_word (b # bs) = ucast b OR push_bit 8 (bytes_word bs)"

definition header_bytes :: "heap_block_header \<Rightarrow> u8 list" where
  "header_bytes h = word_bytes 4 (hb_magic h) @ word_bytes 4 (hb_flags h) @ word_bytes 4 (hb_size h) @ word_bytes 4 (hb_next h)"

definition bytes_header :: "u8 list \<Rightarrow> heap_block_header" where
  "bytes_header bs = \<lparr>hb_magic = bytes_word (take 4 bs), hb_flags = bytes_word (take 4 (drop 4 bs)),
     hb_size = bytes_word (take 4 (drop 8 bs)), hb_next = bytes_word (take 4 (drop 12 bs))\<rparr>"

text \<open>
  The header after the canary was written to the eight bytes that end where the block ends,
  when the block is shorter than header and canary.
\<close>

definition clobbered :: "heap_block_header \<Rightarrow> heap_block_header" where
  "clobbered h =
     (let n = unat (hb_size h); bs = header_bytes h; cs = word_bytes 8 CANARY
      in bytes_header (map (\<lambda>i. if i < n \<and> n \<le> i + 8 then cs ! (i + 8 - n) else bs ! i) [0..<16]))"

definition write_canary :: "u32 \<Rightarrow> 'a heap_state_scheme \<Rightarrow> 'a heap_state_scheme" where
  "write_canary block s =
     (let s1 = s\<lparr>canaries := (canaries s)(canary_addr s block := CANARY)\<rparr>
      in if hb_size (blocks s block) < HDR + 8 then upd_block block clobbered s1 else s1)"

text \<open>The eight bytes at the end of a block, those of them that lie in the header read from there.\<close>

definition read_canary :: "'a heap_state_scheme \<Rightarrow> u32 \<Rightarrow> u64" where
  "read_canary s block =
     (let n = unat (hb_size (blocks s block)); c = canaries s (canary_addr s block)
      in if n < 24
         then bytes_word (map (\<lambda>i. if 8 \<le> n + i \<and> n + i < 24 then header_bytes (blocks s block) ! (n + i - 8)
                else word_bytes 8 c ! i) [0..<8])
         else c)"

definition check_canary :: "'a heap_state_scheme \<Rightarrow> u32 \<Rightarrow> unit res" where
  "check_canary s block =
     (if block = NULL then Inl Abort
      else if read_canary s block \<noteq> CANARY then Inl Panic else Inr ())"

definition create_block :: "u32 \<Rightarrow> u32 \<Rightarrow> 'a heap_state_scheme \<Rightarrow> 'a heap_state_scheme" where
  "create_block addr sz s =
     upd_block addr (\<lambda>_. \<lparr>hb_magic = MAGIC_FREE, hb_flags = 0, hb_size = sz, hb_next = NULL\<rparr>) s"

definition merge_blocks :: "u32 \<Rightarrow> u32 \<Rightarrow> 'a heap_state_scheme \<Rightarrow> (u32 \<times> 'a heap_state_scheme) res" where
  "merge_blocks dest source s =
     assert_then (dest < source) (
     assert_then (hb_magic (blocks s dest) = hb_magic (blocks s source)) (
       Inr (dest, upd_block dest (\<lambda>h. h\<lparr>hb_size := hb_size h + hb_size (blocks s source),
                                       hb_next := hb_next (blocks s source)\<rparr>) s)))"

definition heap_lock :: "'a heap_state_scheme \<Rightarrow> bool \<times> 'a heap_state_scheme" where
  "heap_lock s = (case spinlock_try_lock (heap_lock_word (kheap s)) of (ok, l) \<Rightarrow>
     (ok, s\<lparr>kheap := (kheap s)\<lparr>heap_lock_word := l\<rparr>\<rparr>))"

definition heap_unlock :: "'a heap_state_scheme \<Rightarrow> bool \<times> 'a heap_state_scheme" where
  "heap_unlock s = (case spinlock_try_unlock (heap_lock_word (kheap s)) of (ok, l) \<Rightarrow>
     (ok, s\<lparr>kheap := (kheap s)\<lparr>heap_lock_word := l\<rparr>\<rparr>))"

definition heap_init :: "u32 \<Rightarrow> u32 \<Rightarrow> u32 \<Rightarrow> 'a heap_state_scheme \<Rightarrow> (u32 \<times> 'a heap_state_scheme) res" where
  "heap_init address sz max_size s =
     assert_then (IS_ALIGNED address PAGE_SIZE) (
     assert_then (IS_ALIGNED sz PAGE_SIZE) (
     assert_then (IS_ALIGNED (address + 12) 4) (
       let head = address + HEAP_STRUCT;
           s1 = s\<lparr>kheap := \<lparr>heap_head = head, heap_size = sz, heap_max_size = max_size, heap_lock_word = 0\<rparr>,
                  kheap_addr := address\<rparr>
       in Inr (address, create_block head (sz - HEAP_STRUCT) s1))))"

section \<open>Walks along the chain\<close>

partial_function (option) last_loop :: "'a heap_state_scheme \<Rightarrow> u32 \<Rightarrow> u32 res option" where
  "last_loop s h =
     (if h \<noteq> NULL \<and> hb_next (blocks s h) \<noteq> NULL then
        if is_valid_block s h then last_loop s (hb_next (blocks s h)) else Some (Inl Assert_Failed)
      else Some (Inr h))"

definition last_block :: "'a heap_state_scheme \<Rightarrow> u32 res" where
  "last_block s = loop_result (last_loop s (heap_head (kheap s)))"

partial_function (option) prev_loop :: "'a heap_state_scheme \<Rightarrow> u32 \<Rightarrow> u32 \<Rightarrow> u32 res option" where
  "prev_loop s block prevh =
     (if prevh \<noteq> NULL \<and> hb_next (blocks s prevh) \<noteq> block then
        if is_valid_block s prevh then prev_loop s block (hb_next (blocks s prevh))
        else Some (Inl Assert_Failed)
      else Some (Inr prevh))"

definition prev_block :: "'a heap_state_scheme \<Rightarrow> u32 \<Rightarrow> u32 res" where
  "prev_block s block =
     assert_then (is_valid_block s block)
       (if block = heap_head (kheap s) then Inr NULL
        else loop_result (prev_loop s block (heap_head (kheap s))))"

partial_function (option) check_loop :: "'a heap_state_scheme \<Rightarrow> u32 \<Rightarrow> unit res option" where
  "check_loop s h =
     (if h = NULL then Some (Inr ())
      else if \<not> is_valid_block s h then Some (Inl Panic)
      else check_loop s (hb_next (blocks s h)))"

definition heap_check :: "'a heap_state_scheme \<Rightarrow> unit res" where
  "heap_check s = loop_result (check_loop s (heap_head (kheap s)))"

partial_function (option) info_loop :: "'a heap_state_scheme \<Rightarrow> u32 \<Rightarrow> u32 \<Rightarrow> u32 res option" where
  "info_loop s h acc =
     (if h = NULL then Some (Inr acc)
      else case heap_is_free s h of
          Inl e \<Rightarrow> Some (Inl e)
        | Inr f \<Rightarrow> info_loop s (hb_next (blocks s h))
                    (if f then acc + (hb_size (blocks s h) - HDR) else acc))"

text \<open>\<open>heap_info\<close>: the address, the size and the sum of the free bytes.\<close>

definition heap_info :: "'a heap_state_scheme \<Rightarrow> (u32 \<times> u32 \<times> u32) res" where
  "heap_info s = res_bind (loop_result (info_loop s (heap_head (kheap s)) 0))
     (\<lambda>free. Inr (kheap_addr s, heap_size (kheap s), free))"

section \<open>Growing\<close>

definition grow_page :: "u32 \<Rightarrow> 'a heap_state_scheme \<Rightarrow> (bool \<times> 'a heap_state_scheme) res" where
  "grow_page page s =
     (if vmm_paging_enabled s then
        res_bind (pmm_alloc s) (\<lambda>(frame, s).
          if frame = INVALID_FRAME then Inr (False, s)
          else res_bind (vmm_map page frame (VMM_PAGE_PRESENT OR VMM_PAGE_WRITABLE) s) (\<lambda>(_, s).
            Inr (True, s)))
      else if pmm_initialized s then
        res_bind (pmm_reserve (page - KERNEL_BASE_ADDR) s) (\<lambda>(_, s). Inr (True, s))
      else Inr (True, s))"

partial_function (option) grow_loop ::
    "u32 \<Rightarrow> u32 \<Rightarrow> u32 \<Rightarrow> 'a heap_state_scheme \<Rightarrow> (u32 \<times> 'a heap_state_scheme) res option" where
  "grow_loop page limit allocated s =
     (if page < limit then
        if heap_size (kheap s) \<ge> heap_max_size (kheap s) then Some (Inr (allocated, s))
        else case grow_page page s of
            Inl e \<Rightarrow> Some (Inl e)
          | Inr (ok, s1) \<Rightarrow>
              if \<not> ok then Some (Inr (allocated, s1))
              else grow_loop (page + PAGE_SIZE) limit (allocated + PAGE_SIZE)
                (s1\<lparr>kheap := (kheap s1)\<lparr>heap_size := heap_size (kheap s1) + PAGE_SIZE\<rparr>\<rparr>)
      else Some (Inr (allocated, s)))"

definition heap_grow :: "u32 \<Rightarrow> 'a heap_state_scheme \<Rightarrow> (u32 \<times> 'a heap_state_scheme) res" where
  "heap_grow sz0 s =
     (let sz = ALIGN sz0 PAGE_SIZE in
      res_bind (last_block s) (\<lambda>last.
      assert_then (last \<noteq> NULL) (
      let end_of_heap = last + hb_size (blocks s last) in
      assert_then (IS_ALIGNED end_of_heap PAGE_SIZE) (
      res_bind (loop_result (grow_loop end_of_heap (end_of_heap + sz) 0 s)) (\<lambda>(allocated, s).
        if allocated \<noteq> 0 then
          let s1 = create_block end_of_heap allocated s;
              s2 = upd_block last (\<lambda>h. h\<lparr>hb_next := end_of_heap\<rparr>) s1
          in res_bind (heap_is_free s2 last) (\<lambda>f.
             if f then merge_blocks last end_of_heap s2 else Inr (end_of_heap, s2))
        else Inr (NULL, s))))))"

section \<open>Allocation\<close>

partial_function (option) align_loop :: "u32 \<Rightarrow> u32 \<Rightarrow> u32 \<Rightarrow> u32 option" where
  "align_loop header0 data1 alignment =
     (if data1 - header0 < HDR * 2 then align_loop header0 (data1 + alignment) alignment else Some data1)"

definition unlock_return :: "u32 \<Rightarrow> 'a heap_state_scheme \<Rightarrow> (u32 \<times> 'a heap_state_scheme) res" where
  "unlock_return r s = (case heap_unlock s of (unlocked, s) \<Rightarrow> assert_then unlocked (Inr (r, s)))"

text \<open>
  The three ways a fitting block is used: the block is aligned and large enough to be
  split, the block is aligned and taken whole, or a block in front is cut off so that the
  data is aligned.
\<close>

definition take_split :: "u32 \<Rightarrow> u32 \<Rightarrow> 'a heap_state_scheme \<Rightarrow> (u32 \<times> 'a heap_state_scheme) res" where
  "take_split h sz s =
     (let old_size = hb_size (blocks s h);
          new_block = h + sz + HDR;
          new_block_size = hb_size (blocks s h) - HDR - sz;
          s1 = create_block new_block new_block_size s;
          s2 = upd_block new_block (\<lambda>b. b\<lparr>hb_next := hb_next (blocks s1 h)\<rparr>) s1;
          s3 = upd_block h (\<lambda>b. b\<lparr>hb_size := HDR + sz, hb_next := new_block\<rparr>) s2
      in res_bind (set_allocated h s3) (\<lambda>s4.
         let s5 = write_canary h s4 in
         assert_then (hb_size (blocks s5 new_block) + hb_size (blocks s5 h) = old_size)
           (unlock_return h s5)))"

definition take_whole :: "u32 \<Rightarrow> 'a heap_state_scheme \<Rightarrow> (u32 \<times> 'a heap_state_scheme) res" where
  "take_whole h s = res_bind (set_allocated h s) (\<lambda>s1. unlock_return h (write_canary h s1))"

definition cut_front :: "u32 \<Rightarrow> u32 \<Rightarrow> 'a heap_state_scheme \<Rightarrow> 'a heap_state_scheme res" where
  "cut_front h header1 s =
     (let total_size = hb_size (blocks s h);
          s1 = upd_block h (\<lambda>b. b\<lparr>hb_size := header1 - h\<rparr>) s
      in
      res_bind (set_free h s1) (\<lambda>s2.
      assert_then (is_valid_block s2 h) (
      let s3 = create_block header1 (total_size - hb_size (blocks s2 h)) s2;
          s4 = upd_block header1 (\<lambda>b. b\<lparr>hb_next := hb_next (blocks s3 h)\<rparr>) s3;
          s5 = upd_block h (\<lambda>b. b\<lparr>hb_next := header1\<rparr>) s4
      in
      assert_then (is_valid_block s5 header1) (
      assert_then (hb_size (blocks s5 h) + hb_size (blocks s5 header1) = total_size)
        (Inr s5)))))"

definition split_tail :: "u32 \<Rightarrow> u32 \<Rightarrow> u32 \<Rightarrow> u32 \<Rightarrow> 'a heap_state_scheme \<Rightarrow> 'a heap_state_scheme res" where
  "split_tail h header1 sz total_size s =
     (if hb_size (blocks s header1) > sz + HDR * 2 then
        let header3 = header1 + sz + HDR;
            size3 = hb_size (blocks s header1) - sz - HDR;
            s6 = create_block header3 size3 s
        in
        res_bind (set_free header3 s6) (\<lambda>s7.
        let s8 = upd_block header3 (\<lambda>b. b\<lparr>hb_next := hb_next (blocks s7 header1)\<rparr>) s7;
            s9 = upd_block header1 (\<lambda>b. b\<lparr>hb_next := header3\<rparr>) s8;
            s10 = upd_block header1 (\<lambda>b. b\<lparr>hb_size := sz + HDR\<rparr>) s9
        in
        assert_then (is_valid_block s10 header3) (
        assert_then (hb_size (blocks s10 h) + hb_size (blocks s10 header1)
                       + hb_size (blocks s10 header3) = total_size)
          (Inr s10)))
      else Inr s)"

definition take_aligned :: "u32 \<Rightarrow> u32 \<Rightarrow> u32 \<Rightarrow> 'a heap_state_scheme \<Rightarrow> (u32 \<times> 'a heap_state_scheme) res" where
  "take_aligned h data1 sz s =
     (let total_size = hb_size (blocks s h);
          header1 = data1 - HDR
      in
      res_bind (cut_front h header1 s) (\<lambda>s5.
      res_bind (split_tail h header1 sz total_size s5) (\<lambda>s11.
      res_bind (set_allocated header1 s11) (\<lambda>s12.
      assert_then (is_valid_block s12 header1)
        (unlock_return header1 (write_canary header1 s12))))))"

text \<open>The body of the walk: the block is taken, or the walk goes on.\<close>

definition try_block :: "u32 \<Rightarrow> u32 \<Rightarrow> u32 \<Rightarrow> 'a heap_state_scheme \<Rightarrow> (u32 option \<times> 'a heap_state_scheme) res" where
  "try_block sz alignment h s =
     res_bind (heap_is_free s h) (\<lambda>f.
       if f \<and> hb_size (blocks s h) - HDR \<ge> sz then
         let data1 = ALIGN (h + HDR) alignment in
         if data1 = h + HDR then
           if hb_size (blocks s h) \<ge> HDR + sz then
             let remaining = hb_size (blocks s h) - HDR - sz in
             res_bind (if remaining > HDR then take_split h sz s else take_whole h s)
               (\<lambda>(r, s). Inr (Some r, s))
           else Inr (None, s)
         else
           case align_loop h data1 alignment of
             None \<Rightarrow> Inl Diverge
           | Some data1 \<Rightarrow>
               assert_then (data1 - h \<ge> HDR * 2) (
               if hb_size (blocks s h) > HDR * 2 + sz
               then res_bind (take_aligned h data1 sz s) (\<lambda>(r, s). Inr (Some r, s))
               else Inr (None, s))
       else Inr (None, s))"

partial_function (option) alloc_walk ::
    "u32 \<Rightarrow> u32 \<Rightarrow> u32 \<Rightarrow> 'a heap_state_scheme \<Rightarrow> (u32 option \<times> 'a heap_state_scheme) res option" where
  "alloc_walk sz alignment h s =
     (if h = NULL then Some (Inr (None, s))
      else case try_block sz alignment h s of
          Inl e \<Rightarrow> Some (Inl e)
        | Inr (Some r, s1) \<Rightarrow> Some (Inr (Some r, s1))
        | Inr (None, s1) \<Rightarrow> alloc_walk sz alignment (hb_next (blocks s1 h)) s1)"

partial_function (option) alloc_loop ::
    "u32 \<Rightarrow> u32 \<Rightarrow> 'a heap_state_scheme \<Rightarrow> (u32 \<times> 'a heap_state_scheme) res option" where
  "alloc_loop sz alignment s =
     (case loop_result (alloc_walk sz alignment (heap_head (kheap s)) s) of
          Inl e \<Rightarrow> Some (Inl e)
        | Inr (Some r, s1) \<Rightarrow> Some (Inr (r, s1))
        | Inr (None, s1) \<Rightarrow>
            (case heap_grow sz s1 of
                Inl e \<Rightarrow> Some (Inl e)
              | Inr (new_header, s2) \<Rightarrow>
                  if new_header = NULL then Some (unlock_return NULL s2)
                  else alloc_loop sz alignment s2))"

definition heap_alloc_block_aligned ::
    "u32 \<Rightarrow> u32 \<Rightarrow> 'a heap_state_scheme \<Rightarrow> (u32 \<times> 'a heap_state_scheme) res" where
  "heap_alloc_block_aligned sz alignment s =
     (case heap_lock s of (locked, s) \<Rightarrow>
        if \<not> locked then Inl Panic
        else loop_result (alloc_loop (sz + 8) alignment s))"

definition heap_alloc_block :: "u32 \<Rightarrow> 'a heap_state_scheme \<Rightarrow> (u32 \<times> 'a heap_state_scheme) res" where
  "heap_alloc_block sz s =
     res_bind (heap_alloc_block_aligned sz 8 s) (\<lambda>(result, s).
     res_bind (check_canary s result) (\<lambda>_. Inr (result, s)))"

definition heap_alloc_aligned :: "u32 \<Rightarrow> u32 \<Rightarrow> 'a heap_state_scheme \<Rightarrow> (u32 \<times> 'a heap_state_scheme) res" where
  "heap_alloc_aligned sz alignment s =
     res_bind (heap_alloc_block_aligned sz alignment s) (\<lambda>(hdr, s).
       if hdr = NULL then Inl Abort
       else assert_then (hb_magic (blocks s hdr) = MAGIC_ALLOCATED) (Inr (hdr + HDR, s)))"

definition heap_alloc :: "u32 \<Rightarrow> 'a heap_state_scheme \<Rightarrow> (u32 \<times> 'a heap_state_scheme) res" where
  "heap_alloc sz s = heap_alloc_aligned sz 8 s"

section \<open>Release\<close>

text \<open>The two coalescing steps of \<open>heap_free_block\<close>, with the previous and with the next block.\<close>

definition coalesce_prev :: "u32 \<Rightarrow> 'a heap_state_scheme \<Rightarrow> (u32 \<times> 'a heap_state_scheme) res" where
  "coalesce_prev block s =
     res_bind (prev_block s block) (\<lambda>prevh.
       if prevh = NULL then Inr (block, s)
       else res_bind (heap_is_free s prevh) (\<lambda>f.
         if f then merge_blocks prevh block s else Inr (block, s)))"

definition coalesce_next :: "u32 \<Rightarrow> 'a heap_state_scheme \<Rightarrow> (u32 \<times> 'a heap_state_scheme) res" where
  "coalesce_next block s =
     (if hb_next (blocks s block) = NULL then Inr (block, s)
      else res_bind (heap_is_free s (hb_next (blocks s block))) (\<lambda>f.
        if f then merge_blocks block (hb_next (blocks s block)) s else Inr (block, s)))"

definition heap_free_block :: "u32 \<Rightarrow> 'a heap_state_scheme \<Rightarrow> (unit \<times> 'a heap_state_scheme) res" where
  "heap_free_block block s =
     (if block = NULL then Inr ((), s)
      else if hb_magic (blocks s block) = MAGIC_FREE then Inl Panic
      else if hb_magic (blocks s block) \<noteq> MAGIC_ALLOCATED then Inl Panic
      else
        res_bind (check_canary s block) (\<lambda>_.
        case heap_lock s of (locked, s) \<Rightarrow>
          if \<not> locked then Inl Panic
          else
            assert_then (is_valid_block s block) (
            res_bind (heap_is_allocated s block) (\<lambda>a. assert_then a (
            res_bind (set_free block s) (\<lambda>s.
            res_bind (coalesce_prev block s) (\<lambda>(block, s).
            res_bind (coalesce_next block s) (\<lambda>(block, s).
            case heap_unlock s of (unlocked, s) \<Rightarrow> assert_then unlocked (Inr ((), s))))))))))"

definition heap_free :: "u32 \<Rightarrow> 'a heap_state_scheme \<Rightarrow> (unit \<times> 'a heap_state_scheme) res" where
  "heap_free p s = heap_free_block (p - HDR) s"

declare last_loop.simps [code] prev_loop.simps [code] check_loop.simps [code] info_loop.simps [code]
  grow_loop.simps [code] align_loop.simps [code] alloc_walk.simps [code] alloc_loop.simps [code]

section \<open>The blocks tile the heap\<close>

definition allocated :: "heap_block_header \<Rightarrow> bool" where
  "allocated h \<longleftrightarrow> hb_flags h AND BLOCK_ALLOCATED \<noteq> 0"

definition good_header :: "heap_block_header \<Rightarrow> bool" where
  "good_header h \<longleftrightarrow> valid_header h \<and> 16 \<le> unat (hb_size h)"

text \<open>
  \<open>tiles H a bs e n\<close>: the blocks \<open>bs\<close> lie one after the other from address \<open>a\<close> to address \<open>e\<close>,
  each linked to the following one and the last one to \<open>n\<close>.
\<close>

primrec tiles :: "(u32 \<Rightarrow> heap_block_header) \<Rightarrow> nat \<Rightarrow> u32 list \<Rightarrow> nat \<Rightarrow> u32 \<Rightarrow> bool" where
  "tiles H a [] e n \<longleftrightarrow> a = e"
| "tiles H a (b # bs) e n \<longleftrightarrow>
     unat b = a \<and> good_header (H b) \<and> hb_next (H b) = first_or bs n
     \<and> tiles H (a + unat (hb_size (H b))) bs e n"

lemma tiles_append:
  "tiles H a (xs @ ys) e n \<longleftrightarrow> (\<exists>m. tiles H a xs m (first_or ys n) \<and> tiles H m ys e n)"
  by (induction xs arbitrary: a) auto

lemma tiles_cong: "(\<And>b. b \<in> set bs \<Longrightarrow> H' b = H b) \<Longrightarrow> tiles H' a bs e n = tiles H a bs e n"
  by (induction bs arbitrary: a) auto

lemma tiles_upd_other: "p \<notin> set bs \<Longrightarrow> tiles (H(p := h)) a bs e n = tiles H a bs e n"
  by (rule tiles_cong) auto

lemma tiles_le: "tiles H a bs e n \<Longrightarrow> a + 16 * length bs \<le> e"
proof (induction bs arbitrary: a)
  case (Cons b bs)
  then have "a + unat (hb_size (H b)) + 16 * length bs \<le> e" "16 \<le> unat (hb_size (H b))"
    by (auto simp: good_header_def)
  then show ?case by simp
qed simp

lemma tiles_range:
  assumes "tiles H a bs e n" "b \<in> set bs"
  shows "a \<le> unat b" "unat b + unat (hb_size (H b)) \<le> e" "good_header (H b)"
proof -
  obtain xs ys where "bs = xs @ b # ys" using assms(2) by (auto simp: in_set_conv_decomp)
  with assms(1) obtain m where m: "tiles H a xs m b" "unat b = m" "good_header (H b)"
      "tiles H (m + unat (hb_size (H b))) ys e n"
    by (auto simp: tiles_append)
  show "a \<le> unat b" "unat b + unat (hb_size (H b)) \<le> e" "good_header (H b)"
    using tiles_le [OF m(1)] tiles_le [OF m(4)] m by simp_all
qed

text \<open>Different blocks do not overlap.\<close>

lemma tiles_sorted:
  "tiles H a bs e n \<Longrightarrow> sorted_wrt (\<lambda>b c. unat b + unat (hb_size (H b)) \<le> unat c) bs"
proof (induction bs arbitrary: a)
  case (Cons b bs)
  then have t: "tiles H (a + unat (hb_size (H b))) bs e n" "unat b = a" by auto
  from Cons.IH [OF t(1)] tiles_range(1) [OF t(1)] t(2) show ?case by simp
qed simp

lemma tiles_disjoint:
  assumes "tiles H a bs e n" "b \<in> set bs" "c \<in> set bs" "b \<noteq> c"
  shows "unat b + unat (hb_size (H b)) \<le> unat c \<or> unat c + unat (hb_size (H c)) \<le> unat b"
proof -
  obtain i j where "i < length bs" "j < length bs" "b = bs ! i" "c = bs ! j" "i \<noteq> j"
    using assms(2-4) by (metis in_set_conv_nth)
  then show ?thesis
    using tiles_sorted [OF assms(1)] by (cases "i < j") (auto simp: sorted_wrt_iff_nth_less)
qed

lemma tiles_distinct: "tiles H a bs e n \<Longrightarrow> distinct bs"
proof -
  assume t: "tiles H a bs e n"
  have "b \<noteq> c" if "unat b + unat (hb_size (H b)) \<le> unat c" "b \<in> set bs" for b c
    using that tiles_range(3) [OF t that(2)] by (auto simp: good_header_def)
  moreover have "sorted_wrt (\<lambda>b c. unat b + unat (hb_size (H b)) \<le> unat c) bs" using t by (rule tiles_sorted)
  ultimately show ?thesis by (fastforce simp: distinct_conv_nth sorted_wrt_iff_nth_less linorder_neq_iff)
qed

text \<open>Replacing a part of the tiling by another one between the same addresses.\<close>

lemma tiles_replace:
  assumes "tiles H a (xs @ us @ ys) e n" "us \<noteq> []" "zs \<noteq> []" "hd zs = hd us"
    and "\<And>b. b \<in> set xs \<union> set ys \<Longrightarrow> H' b = H b"
    and "tiles H (unat (hd us)) us m (first_or ys n)" "tiles H' (unat (hd us)) zs m (first_or ys n)"
  shows "tiles H' a (xs @ zs @ ys) e n"
proof -
  obtain u us' z zs' where l: "us = u # us'" "zs = z # zs'" using assms(2,3) by (auto simp: neq_Nil_conv)
  obtain m1 m2 where t: "tiles H a xs m1 (first_or (us @ ys) n)" "tiles H m1 us m2 (first_or ys n)"
      "tiles H m2 ys e n"
    using assms(1) by (auto simp: tiles_append)
  have m1: "m1 = unat (hd us)" using t(2) l by simp
  have "tiles H a bs m p \<Longrightarrow> tiles H a bs m' p \<Longrightarrow> m = m'" for a bs m m' p
    by (induction bs arbitrary: a) auto
  then have "m2 = m" using t(2) assms(6) m1 by blast
  moreover have "tiles H' a xs m1 (first_or (us @ ys) n)" using t(1) assms(5) tiles_cong [of xs H' H] by simp
  moreover have "tiles H' m2 ys e n" using t(3) assms(5) tiles_cong [of ys H' H] by simp
  ultimately show ?thesis
    using assms(4,7) l m1 by (auto simp: tiles_append)
qed

section \<open>The invariant\<close>

definition heap_wf :: "'a heap_state_scheme \<Rightarrow> u32 list \<Rightarrow> bool" where
  "heap_wf s bs \<longleftrightarrow>
     bs \<noteq> [] \<and> heap_head (kheap s) = hd bs \<and> 0 < unat (hd bs)
     \<and> unat (kheap_addr s) + unat (heap_size (kheap s)) < 2 ^ 32
     \<and> tiles (blocks s) (unat (hd bs)) bs (unat (kheap_addr s) + unat (heap_size (kheap s))) NULL
     \<and> 4096 dvd unat (kheap_addr s) + unat (heap_size (kheap s))
     \<and> successively (\<lambda>b c. allocated (blocks s b) \<or> allocated (blocks s c)) bs
     \<and> (\<forall>b\<in>set bs. allocated (blocks s b) \<longrightarrow>
          canaries s (canary_addr s b) = CANARY \<and> 24 \<le> unat (hb_size (blocks s b)))"

abbreviation heap_end :: "'a heap_state_scheme \<Rightarrow> nat" where
  "heap_end s \<equiv> unat (kheap_addr s) + unat (heap_size (kheap s))"

text \<open>The allocated blocks with their sizes.\<close>

definition live :: "'a heap_state_scheme \<Rightarrow> u32 list \<Rightarrow> (u32 \<times> u32) set" where
  "live s bs = (\<lambda>b. (b, hb_size (blocks s b))) ` {b \<in> set bs. allocated (blocks s b)}"

lemma heap_wf_tiles: "heap_wf s bs \<Longrightarrow> tiles (blocks s) (unat (hd bs)) bs (heap_end s) NULL"
  by (simp add: heap_wf_def)

lemma heap_wf_nonnull: "heap_wf s bs \<Longrightarrow> b \<in> set bs \<Longrightarrow> b \<noteq> NULL"
  using tiles_range(1) [OF heap_wf_tiles, of s bs b] by (auto simp: heap_wf_def)

lemma heap_wf_good: "heap_wf s bs \<Longrightarrow> b \<in> set bs \<Longrightarrow> good_header (blocks s b)"
  by (rule tiles_range(3) [OF heap_wf_tiles])

lemma heap_wf_valid: "heap_wf s bs \<Longrightarrow> b \<in> set bs \<Longrightarrow> is_valid_block s b"
  using heap_wf_good by (auto simp: good_header_def is_valid_block_def)

lemma heap_wf_end:
  "heap_wf s bs \<Longrightarrow> b \<in> set bs \<Longrightarrow> unat b + unat (hb_size (blocks s b)) \<le> heap_end s \<and> heap_end s < 4294967296"
  using tiles_range(2) [OF heap_wf_tiles] by (auto simp: heap_wf_def)

lemma live_disjoint:
  assumes "heap_wf s bs" "(b, m) \<in> live s bs" "(c, n) \<in> live s bs" "b \<noteq> c"
  shows "unat b + unat m \<le> unat c \<or> unat c + unat n \<le> unat b"
  using assms(2-4) tiles_disjoint [OF heap_wf_tiles [OF assms(1)], of b c] by (auto simp: live_def)

lemma unat_canary_addr:
  assumes "heap_wf s bs" "b \<in> set bs"
  shows "unat (canary_addr s b) = unat b + unat (hb_size (blocks s b)) - 8"
proof -
  have "unat b + unat (hb_size (blocks s b)) < 4294967296" using heap_wf_end [OF assms] by simp
  then have "unat (b + hb_size (blocks s b)) = unat b + unat (hb_size (blocks s b))" by (rule unat_add32)
  moreover have "16 \<le> unat (hb_size (blocks s b))" using heap_wf_good [OF assms] by (simp add: good_header_def)
  ultimately show ?thesis unfolding canary_addr_def by (subst unat_sub32) simp_all
qed

text \<open>No two free neighbours.\<close>

abbreviation adj :: "(u32 \<Rightarrow> heap_block_header) \<Rightarrow> u32 list \<Rightarrow> bool" where
  "adj H bs \<equiv> successively (\<lambda>b c. allocated (H b) \<or> allocated (H c)) bs"

lemma adj_cong: "(\<And>b. b \<in> set bs \<Longrightarrow> H' b = H b) \<Longrightarrow> adj H' bs = adj H bs"
  by (rule successively_cong) auto

lemma adj_around_free:
  assumes "adj H (xs @ h # ys)" "\<not> allocated (H h)"
  shows "adj H xs" "adj H ys" "xs \<noteq> [] \<Longrightarrow> allocated (H (last xs))" "ys \<noteq> [] \<Longrightarrow> allocated (H (hd ys))"
  using assms by (auto simp: successively_append_iff successively_Cons)

lemma adj_fill:
  assumes "adj H xs" "adj H ys" "xs \<noteq> [] \<Longrightarrow> allocated (H (last xs)) \<or> allocated (H' (hd zs))"
    and "ys \<noteq> [] \<Longrightarrow> allocated (H' (last zs)) \<or> allocated (H (hd ys))"
    and "\<And>b. b \<in> set xs \<union> set ys \<Longrightarrow> H' b = H b" "adj H' zs" "zs \<noteq> []"
  shows "adj H' (xs @ zs @ ys)"
proof -
  have "adj H' xs" "adj H' ys" using assms(1,2,5) adj_cong [of xs H' H] adj_cong [of ys H' H] by auto
  moreover have "H' (last xs) = H (last xs)" if "xs \<noteq> []" using assms(5) that by simp
  moreover have "H' (hd ys) = H (hd ys)" if "ys \<noteq> []" using assms(5) that by simp
  ultimately show ?thesis
    using assms(3,4,6,7) by (cases "xs = []"; cases "ys = []") (auto simp: successively_append_iff)
qed

lemma heap_wf_replace:
  assumes wf: "heap_wf s (xs @ us @ ys)" and ne: "us \<noteq> []" "zs \<noteq> []" "hd zs = hd us"
    and same: "heap_head (kheap s') = heap_head (kheap s)" "heap_size (kheap s') = heap_size (kheap s)"
      "kheap_addr s' = kheap_addr s"
    and H: "\<And>b. b \<in> set xs \<union> set ys \<Longrightarrow> blocks s' b = blocks s b"
    and t: "tiles (blocks s) (unat (hd us)) us m (first_or ys NULL)"
      "tiles (blocks s') (unat (hd us)) zs m (first_or ys NULL)"
    and adj: "adj (blocks s') (xs @ zs @ ys)"
    and can: "\<And>b. b \<in> set xs \<union> set ys \<Longrightarrow> allocated (blocks s b) \<Longrightarrow>
        canaries s' (canary_addr s b) = canaries s (canary_addr s b)"
      "\<And>b. b \<in> set zs \<Longrightarrow> allocated (blocks s' b) \<Longrightarrow>
        canaries s' (canary_addr s' b) = CANARY \<and> 24 \<le> unat (hb_size (blocks s' b))"
  shows "heap_wf s' (xs @ zs @ ys)"
proof -
  have hd: "hd (xs @ zs @ ys) = hd (xs @ us @ ys)" using ne by (cases xs) auto
  have "tiles (blocks s') (unat (hd (xs @ zs @ ys))) (xs @ zs @ ys) (heap_end s) NULL"
    unfolding hd using heap_wf_tiles [OF wf] ne H t by (rule tiles_replace)
  moreover have "canaries s' (canary_addr s' b) = CANARY \<and> 24 \<le> unat (hb_size (blocks s' b))"
    if b: "b \<in> set (xs @ zs @ ys)" "allocated (blocks s' b)" for b
  proof (cases "b \<in> set zs")
    case True
    then show ?thesis using can(2) b(2) by simp
  next
    case False
    then have x: "b \<in> set xs \<union> set ys" using b(1) by auto
    then have "canary_addr s' b = canary_addr s b" by (simp add: canary_addr_def H)
    moreover have "canaries s (canary_addr s b) = CANARY" "24 \<le> unat (hb_size (blocks s b))"
      using wf x b(2) H [OF x] by (auto simp: heap_wf_def)
    ultimately show ?thesis using can(1) [OF x] b(2) H [OF x] by simp
  qed
  ultimately show ?thesis
    using wf ne(2) adj hd same by (simp add: heap_wf_def)
qed

text \<open>A word inside a block is not the canary of another block.\<close>

lemma canary_elsewhere:
  assumes "heap_wf s bs" "h \<in> set bs" "b \<in> set bs" "b \<noteq> h"
    and "unat h \<le> unat c" "unat c < unat h + unat (hb_size (blocks s h))"
  shows "canary_addr s b \<noteq> c"
proof -
  have "16 \<le> unat (hb_size (blocks s b))" using heap_wf_good [OF assms(1,3)] by (simp add: good_header_def)
  then show ?thesis
    using unat_canary_addr [OF assms(1,3)] tiles_disjoint [OF heap_wf_tiles [OF assms(1)] assms(2,3)] assms(4-6)
    by auto
qed

section \<open>The walks end\<close>

text \<open>All walks go along the next pointers of a suffix of the tiling.\<close>

definition suffix_of :: "'a heap_state_scheme \<Rightarrow> u32 list \<Rightarrow> bool" where
  "suffix_of s ys \<longleftrightarrow> (\<exists>a e. tiles (blocks s) a ys e NULL) \<and> NULL \<notin> set ys"

lemma suffix_of_wf: "heap_wf s bs \<Longrightarrow> suffix_of s bs"
  using heap_wf_tiles [of s bs] heap_wf_nonnull [of s bs NULL] by (auto simp: suffix_of_def)

lemma suffix_of_Cons: "suffix_of s (b # ys) \<Longrightarrow>
    suffix_of s ys \<and> b \<noteq> NULL \<and> is_valid_block s b \<and> hb_next (blocks s b) = first_or ys NULL"
  by (auto simp: suffix_of_def good_header_def is_valid_block_def)

lemma first_or_nonnull: "suffix_of s ys \<Longrightarrow> first_or ys NULL \<noteq> NULL \<longleftrightarrow> ys \<noteq> []"
  by (cases ys) (auto simp: suffix_of_def)

lemma last_loop_eq: "suffix_of s ys \<Longrightarrow> ys \<noteq> [] \<Longrightarrow> last_loop s (hd ys) = Some (Inr (last ys))"
proof (induction ys)
  case (Cons b ys)
  note c = suffix_of_Cons [OF Cons.prems(1)]
  show ?case
  proof (cases "ys = []")
    case True
    then show ?thesis using c by (subst last_loop.simps) simp
  next
    case False
    then show ?thesis
      using c Cons.IH first_or_nonnull [of s ys] by (subst last_loop.simps) (cases ys; simp)
  qed
qed simp

lemma last_block_eq: "heap_wf s bs \<Longrightarrow> last_block s = Inr (last bs)"
  using last_loop_eq [OF suffix_of_wf, of s bs] by (simp add: last_block_def heap_wf_def)

lemma prev_loop_eq:
  "suffix_of s (xs @ p # b # ys) \<Longrightarrow> distinct (xs @ p # b # ys) \<Longrightarrow>
     prev_loop s b (first_or (xs @ [p]) NULL) = Some (Inr p)"
proof (induction xs)
  case Nil
  then show ?case
    using suffix_of_Cons [of s p "b # ys"] by (subst prev_loop.simps) simp
next
  case (Cons x xs)
  have c: "suffix_of s (xs @ p # b # ys)" "x \<noteq> NULL" "is_valid_block s x"
      "hb_next (blocks s x) = first_or (xs @ p # b # ys) NULL"
    using suffix_of_Cons [of s x "xs @ p # b # ys"] Cons.prems(1) by auto
  have "first_or (xs @ p # b # ys) NULL = first_or (xs @ [p]) NULL" by (cases xs) auto
  moreover have "first_or (xs @ [p]) NULL \<noteq> b" using Cons.prems(2) by (cases xs) auto
  ultimately show ?case using c Cons by (subst prev_loop.simps) simp
qed

lemma prev_block_eq:
  assumes "heap_wf s (xs @ b # ys)"
  shows "prev_block s b = Inr (last_or xs NULL)"
proof (cases xs rule: rev_cases)
  case Nil
  then show ?thesis
    using assms heap_wf_valid [OF assms, of b] by (simp add: prev_block_def heap_wf_def)
next
  case (snoc xs' p)
  have d: "distinct (xs' @ p # b # ys)" using tiles_distinct [OF heap_wf_tiles [OF assms]] snoc by simp
  have "hd (xs @ b # ys) = first_or (xs' @ [p]) NULL" using snoc by (cases xs') auto
  then have h: "heap_head (kheap s) = first_or (xs' @ [p]) NULL" using assms by (simp add: heap_wf_def)
  moreover have "first_or (xs' @ [p]) NULL \<noteq> b" using d by (cases xs') auto
  moreover have "prev_loop s b (first_or (xs' @ [p]) NULL) = Some (Inr p)"
    using prev_loop_eq [of s xs' p b ys] suffix_of_wf [OF assms] d snoc by simp
  ultimately show ?thesis
    using heap_wf_valid [OF assms, of b] snoc by (simp add: prev_block_def)
qed

lemma check_loop_eq: "suffix_of s ys \<Longrightarrow> check_loop s (first_or ys NULL) = Some (Inr ())"
proof (induction ys)
  case Nil
  then show ?case by (simp add: check_loop.simps)
next
  case (Cons b ys)
  then show ?case using suffix_of_Cons [OF Cons.prems] by (subst check_loop.simps) simp
qed

lemma heap_is_free_eq:
  "is_valid_block s b \<Longrightarrow> heap_is_free s b = Inr (\<not> allocated (blocks s b))"
  by (simp add: heap_is_free_def allocated_def)

lemma info_loop_eq:
  "suffix_of s ys \<Longrightarrow> info_loop s (first_or ys NULL) acc = Some (Inr (acc +
     (\<Sum>b\<leftarrow>ys. if allocated (blocks s b) then 0 else hb_size (blocks s b) - HDR)))"
proof (induction ys arbitrary: acc)
  case Nil
  then show ?case by (simp add: info_loop.simps)
next
  case (Cons b ys)
  then show ?case
    using suffix_of_Cons [OF Cons.prems] by (subst info_loop.simps) (simp add: heap_is_free_eq add.assoc)
qed

text \<open>The search loop: it stops at the first block that is not passed over.\<close>

lemma try_block_None: "try_block sz al h s = Inr (None, s1) \<Longrightarrow> s1 = s"
  by (auto simp: try_block_def res_simps Let_def split: if_splits option.splits prod.splits)

lemma alloc_walk_eq:
  assumes "suffix_of s ys"
  shows "alloc_walk sz al (first_or ys NULL) s = Some
    (case List.find (\<lambda>b. try_block sz al b s \<noteq> Inr (None, s)) ys of
       None \<Rightarrow> Inr (None, s) | Some b \<Rightarrow> try_block sz al b s)"
  using assms
proof (induction ys)
  case Nil
  then show ?case by (simp add: alloc_walk.simps)
next
  case (Cons b ys)
  note c = suffix_of_Cons [OF Cons.prems]
  show ?case
  proof (cases "try_block sz al b s = Inr (None, s)")
    case True
    then show ?thesis using Cons.IH c by (subst alloc_walk.simps) simp
  next
    case False
    then show ?thesis
      using c try_block_None [of sz al b s]
      by (subst alloc_walk.simps) (auto split: sum.split prod.split option.split)
  qed
qed

section \<open>Taking a block\<close>

definition alloc_header :: "heap_block_header \<Rightarrow> u32 \<Rightarrow> u32 \<Rightarrow> heap_block_header" where
  "alloc_header h sz nxt =
     \<lparr>hb_magic = MAGIC_ALLOCATED, hb_flags = hb_flags h OR BLOCK_ALLOCATED, hb_size = sz, hb_next = nxt\<rparr>"

definition free_header :: "u32 \<Rightarrow> u32 \<Rightarrow> heap_block_header" where
  "free_header sz nxt = \<lparr>hb_magic = MAGIC_FREE, hb_flags = 0, hb_size = sz, hb_next = nxt\<rparr>"

lemma header_sel [simp]:
  "hb_size (alloc_header h sz n) = sz" "hb_next (alloc_header h sz n) = n"
  "hb_size (free_header sz n) = sz" "hb_next (free_header sz n) = n"
  "hb_magic (alloc_header h sz n) = MAGIC_ALLOCATED" "hb_magic (free_header sz n) = MAGIC_FREE"
  by (simp_all add: alloc_header_def free_header_def)

lemma or_and_1: "(w OR 1 :: u32) AND 1 = 1"
  by (rule u32_eqI) (auto simp: bit_simps)

lemma header_state [simp]:
  "allocated (alloc_header h sz n)" "\<not> allocated (free_header sz n)"
  "valid_header (alloc_header h sz n)" "valid_header (free_header sz n)"
  by (simp_all add: allocated_def valid_header_def alloc_header_def free_header_def BLOCK_ALLOCATED_def or_and_1)

lemma header_eq: "\<lparr>hb_magic = MAGIC_FREE, hb_flags = 0, hb_size = sz, hb_next = n\<rparr> = free_header sz n"
  "h\<lparr>hb_flags := hb_flags h OR BLOCK_ALLOCATED, hb_magic := MAGIC_ALLOCATED, hb_size := sz, hb_next := n\<rparr>
     = alloc_header h sz n"
  by (simp_all add: free_header_def alloc_header_def)

text \<open>The state after the block at \<open>h\<close> was turned into an allocated one and the lock released.\<close>

definition with_canary :: "u32 \<Rightarrow> (u32 \<Rightarrow> heap_block_header) \<Rightarrow> u32 \<Rightarrow> heap_block_header" where
  "with_canary h H = (if hb_size (H h) < HDR + 8 then H(h := clobbered (H h)) else H)"

lemma with_canary_fits: "24 \<le> unat (hb_size (H h)) \<Longrightarrow> with_canary h H = H"
  by (simp add: with_canary_def word_less_nat_alt HDR_def)

definition taken :: "u32 \<Rightarrow> (u32 \<Rightarrow> heap_block_header) \<Rightarrow> 'a heap_state_scheme \<Rightarrow> 'a heap_state_scheme" where
  "taken h H s = s\<lparr>blocks := with_canary h H, canaries := (canaries s)(h + hb_size (H h) - 8 := CANARY),
     kheap := (kheap s)\<lparr>heap_lock_word := 0\<rparr>\<rparr>"

lemma taken_sel [simp]:
  "blocks (taken h H s) = with_canary h H" "kheap_addr (taken h H s) = kheap_addr s"
  "heap_head (kheap (taken h H s)) = heap_head (kheap s)" "heap_size (kheap (taken h H s)) = heap_size (kheap s)"
  "heap_max_size (kheap (taken h H s)) = heap_max_size (kheap s)" "heap_lock_word (kheap (taken h H s)) = 0"
  by (simp_all add: taken_def)

lemma unlock_return_eq:
  "heap_lock_word (kheap s) = 1 \<Longrightarrow> unlock_return r s = Inr (r, s\<lparr>kheap := (kheap s)\<lparr>heap_lock_word := 0\<rparr>\<rparr>)"
  by (simp add: unlock_return_def heap_unlock_def spinlock_try_unlock_def cmpxchg_def)

lemma take_whole_eq:
  assumes "is_valid_block s h" "heap_lock_word (kheap s) = 1"
  shows "take_whole h s = Inr (h, taken h ((blocks s)(h := alloc_header (blocks s h) (hb_size (blocks s h)) (hb_next (blocks s h)))) s)"
  using assms
  by (cases "blocks s h") (simp add: unlock_return_eq take_whole_def set_allocated_def upd_block_def write_canary_def canary_addr_def taken_def with_canary_def
      alloc_header_def)

lemma free_flags:
  "\<not> allocated h \<Longrightarrow> valid_header (h\<lparr>hb_size := x, hb_next := y\<rparr>) = valid_header h"
  by (simp add: valid_header_def)

lemma take_split_eq:
  assumes v: "is_valid_block s h" and l: "heap_lock_word (kheap s) = 1" and n: "h + sz + HDR \<noteq> h" "\<not> HDR + sz < HDR + 8"
  shows "take_split h sz s = Inr (h, taken h ((blocks s)
      (h + sz + HDR := free_header (hb_size (blocks s h) - HDR - sz) (hb_next (blocks s h)),
       h := alloc_header (blocks s h) (HDR + sz) (h + sz + HDR))) s)"
proof -
  define nb where "nb = h + sz + HDR"
  have nb: "nb \<noteq> h" "h \<noteq> nb" using n by (auto simp: nb_def)
  have "valid_header ((blocks s h)\<lparr>hb_size := HDR + sz, hb_next := nb\<rparr>)"
    using v by (simp add: is_valid_block_def valid_header_def)
  then show ?thesis
    unfolding take_split_def nb_def [symmetric] Let_def
    using nb l n(2)
    by (cases "blocks s h") (simp add: unlock_return_eq set_allocated_def upd_block_def create_block_def is_valid_block_def write_canary_def
        canary_addr_def taken_def with_canary_def alloc_header_def free_header_def add.commute)
qed

text \<open>
  The bookkeeping common to the three cases: the free block \<open>h\<close> is replaced by blocks of
  which one is allocated.
\<close>

lemma heap_wf_taken:
  assumes wf: "heap_wf s (xs @ h # ys)" and fr: "\<not> allocated (blocks s h)"
    and zs: "zs \<noteq> []" "hd zs = h" "r \<in> set zs" "\<And>b. b \<in> set zs \<Longrightarrow> allocated (H b) \<longleftrightarrow> b = r" "adj H zs"
    and H: "\<And>b. b \<in> set xs \<union> set ys \<Longrightarrow> H b = blocks s b"
    and t: "tiles H (unat h) zs (unat h + unat (hb_size (blocks s h))) (first_or ys NULL)"
    and room: "24 \<le> unat (hb_size (H r))"
  shows "heap_wf (taken r H s) (xs @ zs @ ys)
    \<and> live (taken r H s) (xs @ zs @ ys) = insert (r, hb_size (H r)) (live s (xs @ h # ys))"
proof -
  let ?s = "taken r H s"
  have B [simp]: "with_canary r H = H" using room by (rule with_canary_fits)
  have d: "distinct (xs @ h # ys)" using tiles_distinct [OF heap_wf_tiles [OF wf]] .
  have a: "adj (blocks s) (xs @ h # ys)" using wf by (simp add: heap_wf_def)
  have end32: "unat h + unat (hb_size (blocks s h)) < 4294967296"
    using heap_wf_end [OF wf, of h] by simp
  have r: "unat h \<le> unat r" "unat r + unat (hb_size (H r)) \<le> unat h + unat (hb_size (blocks s h))"
      "good_header (H r)"
    using tiles_range [OF t zs(3)] by auto
  have rc: "unat (r + hb_size (H r) - 8) = unat r + unat (hb_size (H r)) - 8"
  proof -
    have "unat (r + hb_size (H r)) = unat r + unat (hb_size (H r))"
      using r end32 by (intro unat_add32) simp
    then show ?thesis using r(3) by (subst unat_sub32) (simp_all add: good_header_def)
  qed
  have "heap_wf ?s (xs @ zs @ ys)"
  proof (rule heap_wf_replace [where us = "[h]" and m = "unat h + unat (hb_size (blocks s h))"])
    show "heap_wf s (xs @ [h] @ ys)" using wf by simp
    have "tiles (blocks s) (unat (hd (xs @ h # ys))) (xs @ h # ys) (heap_end s) NULL"
      using wf by (rule heap_wf_tiles)
    then show "tiles (blocks s) (unat (hd [h])) [h] (unat h + unat (hb_size (blocks s h))) (first_or ys NULL)"
      by (auto simp: tiles_append)
    show "tiles (blocks ?s) (unat (hd [h])) zs (unat h + unat (hb_size (blocks s h))) (first_or ys NULL)"
      using t by simp
    show "adj (blocks ?s) (xs @ zs @ ys)"
      using adj_around_free [OF a fr] zs H by (intro adj_fill [of "blocks s"]) auto
    show "canaries ?s (canary_addr s b) = canaries s (canary_addr s b)" if "b \<in> set xs \<union> set ys" for b
    proof -
      have "canary_addr s b \<noteq> r + hb_size (H r) - 8"
      proof (rule canary_elsewhere [OF wf])
        show "b \<noteq> h" "b \<in> set (xs @ h # ys)" using that d by auto
        show "unat h \<le> unat (r + hb_size (H r) - 8)"
            "unat (r + hb_size (H r) - 8) < unat h + unat (hb_size (blocks s h))"
          using r rc by (auto simp: good_header_def)
      qed simp
      then show ?thesis by (simp add: taken_def)
    qed
    show "canaries ?s (canary_addr ?s b) = CANARY \<and> 24 \<le> unat (hb_size (blocks ?s b))" if "b \<in> set zs" "allocated (blocks ?s b)" for b
      using that zs(4) room by (simp add: canary_addr_def taken_def)
  qed (use zs H in auto)
  moreover have "live ?s (xs @ zs @ ys) = insert (r, hb_size (H r)) (live s (xs @ h # ys))"
    using zs(3,4) H fr by (auto simp: live_def image_iff)
  ultimately show ?thesis by blast
qed

definition shrunk :: "heap_block_header \<Rightarrow> u32 \<Rightarrow> u32 \<Rightarrow> heap_block_header" where
  "shrunk h sz n = \<lparr>hb_magic = MAGIC_FREE, hb_flags = hb_flags h AND NOT BLOCK_ALLOCATED, hb_size = sz, hb_next = n\<rparr>"

lemma shrunk_simps [simp]:
  "hb_size (shrunk h sz n) = sz" "hb_next (shrunk h sz n) = n" "hb_magic (shrunk h sz n) = MAGIC_FREE"
  "\<not> allocated (shrunk h sz n)" "valid_header (shrunk h sz n)"
proof -
  have "(w AND NOT 1) AND 1 = (0 :: u32)" for w by (simp add: and.assoc)
  then show "\<not> allocated (shrunk h sz n)" "valid_header (shrunk h sz n)"
    by (simp_all add: allocated_def valid_header_def shrunk_def BLOCK_ALLOCATED_def)
qed (simp_all add: shrunk_def)

text \<open>The headers after a front block was cut off.\<close>

definition cut_headers :: "(u32 \<Rightarrow> heap_block_header) \<Rightarrow> u32 \<Rightarrow> u32 \<Rightarrow> u32 \<Rightarrow> u32 \<Rightarrow> heap_block_header" where
  "cut_headers H h header1 sz =
     (let rest = hb_size (H h) - (header1 - h);
          header3 = header1 + sz + HDR;
          front = shrunk (H h) (header1 - h) header1
      in if rest > sz + HDR * 2
         then H(h := front, header1 := alloc_header (free_header 0 0) (sz + HDR) header3,
                header3 := free_header (rest - sz - HDR) (hb_next (H h)))
         else H(h := front, header1 := alloc_header (free_header 0 0) rest (hb_next (H h))))"

lemma valid_free_header:
  "valid_header \<lparr>hb_magic = MAGIC_FREE, hb_flags = f AND NOT BLOCK_ALLOCATED, hb_size = x, hb_next = y\<rparr>"
  "valid_header \<lparr>hb_magic = MAGIC_FREE, hb_flags = 0, hb_size = x, hb_next = y\<rparr>"
  using shrunk_simps(5) [of "\<lparr>hb_magic = 0, hb_flags = f, hb_size = 0, hb_next = 0\<rparr>" x y]
  by (simp_all add: shrunk_def valid_header_def BLOCK_ALLOCATED_def)

lemma cut_front_eq:
  assumes v: "is_valid_block s h" and d: "h \<noteq> header1"
  shows "cut_front h header1 s = Inr (s\<lparr>blocks := (blocks s)
      (h := shrunk (blocks s h) (header1 - h) header1,
       header1 := free_header (hb_size (blocks s h) - (header1 - h)) (hb_next (blocks s h)))\<rparr>)"
proof -
  have v1: "valid_header ((blocks s h)\<lparr>hb_size := x\<rparr>)" for x
    using v by (simp add: is_valid_block_def valid_header_def)
  obtain mg fl sz0 nx where hh: "blocks s h = \<lparr>hb_magic = mg, hb_flags = fl, hb_size = sz0, hb_next = nx\<rparr>"
    by (cases "blocks s h") auto
  show ?thesis
    using d v1 hh valid_free_header
    by (simp add: cut_front_def Let_def set_free_def upd_block_def create_block_def is_valid_block_def
        free_header_def shrunk_def fun_upd_twist)
qed

lemma split_tail_eq:
  assumes n: "header1 + sz + HDR \<noteq> h" "header1 + sz + HDR \<noteq> header1" "h \<noteq> header1"
    and b: "blocks s header1 = free_header rest nx" "rest > sz + HDR * 2" "hb_size (blocks s h) + rest = tot"
  shows "split_tail h header1 sz tot s = Inr (s\<lparr>blocks := (blocks s)
      (header1 := free_header (sz + HDR) (header1 + sz + HDR),
       header1 + sz + HDR := free_header (rest - sz - HDR) nx)\<rparr>)"
proof -
  define h3 where "h3 = header1 + sz + HDR"
  have n': "h3 \<noteq> h" "h3 \<noteq> header1" "h \<noteq> h3" "header1 \<noteq> h3" "header1 \<noteq> h" using n by (auto simp: h3_def)
  have e: "hb_size (blocks s h) + (sz + HDR) + (rest - sz - HDR) = tot" using b(3) by (simp add: algebra_simps)
  show ?thesis
    unfolding split_tail_def Let_def h3_def [symmetric]
    using n' n(3) b(1,2) e valid_free_header(2)
    by (simp add: set_free_def upd_block_def create_block_def is_valid_block_def free_header_def fun_upd_twist)
qed

lemma take_aligned_eq:
  assumes v: "is_valid_block s h" and l: "heap_lock_word (kheap s) = 1"
    and d: "header1 = data1 - HDR" "h \<noteq> header1"
    and d3: "hb_size (blocks s h) - (header1 - h) > sz + HDR * 2 \<Longrightarrow>
      header1 + sz + HDR \<noteq> h \<and> header1 + sz + HDR \<noteq> header1"
  shows "take_aligned h data1 sz s = Inr (header1, taken header1 (cut_headers (blocks s) h header1 sz) s)"
proof -
  define rest where "rest = hb_size (blocks s h) - (header1 - h)"
  define s5 where "s5 = s\<lparr>blocks := (blocks s)(h := shrunk (blocks s h) (header1 - h) header1,
       header1 := free_header rest (hb_next (blocks s h)))\<rparr>"
  have c: "cut_front h header1 s = Inr s5" using cut_front_eq [OF v d(2)] by (simp add: s5_def rest_def)
  have b5: "blocks s5 header1 = free_header rest (hb_next (blocks s h))"
      "hb_size (blocks s5 h) + rest = hb_size (blocks s h)"
    using d(2) by (simp_all add: s5_def rest_def)
  have a: "(free_header x y)\<lparr>hb_flags := hb_flags (free_header x y) OR BLOCK_ALLOCATED, hb_magic := MAGIC_ALLOCATED\<rparr>
      = alloc_header (free_header 0 0) x y" for x y
    by (simp add: free_header_def alloc_header_def)
  show ?thesis
  proof (cases "rest > sz + HDR * 2")
    case True
    define h3 where "h3 = header1 + sz + HDR"
    have n: "header1 + sz + HDR \<noteq> h" "header1 + sz + HDR \<noteq> header1" using d3 True by (auto simp: rest_def)
    have n3: "h3 \<noteq> h" "h3 \<noteq> header1" using n by (simp_all add: h3_def)
    define s6 where "s6 = s5\<lparr>blocks := (blocks s5)(header1 := free_header (sz + HDR) h3,
       h3 := free_header (rest - sz - HDR) (hb_next (blocks s h)))\<rparr>"
    have t: "split_tail h header1 sz (hb_size (blocks s h)) s5 = Inr s6"
      using split_tail_eq [OF n d(2) b5(1) True b5(2)] by (simp add: s6_def h3_def)
    have ch: "(blocks s6)(header1 := alloc_header (free_header 0 0) (sz + HDR) h3)
        = cut_headers (blocks s) h header1 sz"
      using True n3 d(2) unfolding cut_headers_def Let_def rest_def [symmetric] h3_def [symmetric]
      by (auto simp: fun_eq_iff s6_def s5_def)
    moreover have "valid_header (cut_headers (blocks s) h header1 sz header1)"
      unfolding ch [symmetric] by simp
    moreover have b6: "blocks s6 header1 = free_header (sz + HDR) h3" using n3 by (simp add: s6_def)
    moreover have "kheap s6 = kheap s" "canaries s6 = canaries s"
        "s6\<lparr>blocks := X, canaries := Y, kheap := Z\<rparr> = s\<lparr>blocks := X, canaries := Y, kheap := Z\<rparr>"
        "s6\<lparr>canaries := Y, blocks := X, kheap := Z\<rparr> = s\<lparr>blocks := X, canaries := Y, kheap := Z\<rparr>" for X Y Z
      by (simp_all add: s6_def s5_def)
    ultimately show ?thesis
      unfolding take_aligned_def d(1) [symmetric] Let_def c res_bind_Inr t
      using l a [of "sz + HDR" h3]
      by (simp add: set_allocated_def upd_block_def is_valid_block_def write_canary_def canary_addr_def
          taken_def with_canary_def unlock_return_eq)
  next
    case False
    then have "split_tail h header1 sz (hb_size (blocks s h)) s5 = Inr s5"
      using b5(1) by (simp add: split_tail_def)
    then show ?thesis
      unfolding take_aligned_def d(1) [symmetric] Let_def c res_bind_Inr
      using False d(2) l a
      by (simp add: set_allocated_def upd_block_def is_valid_block_def write_canary_def canary_addr_def
          taken_def with_canary_def cut_headers_def rest_def [symmetric] unlock_return_eq s5_def)
  qed
qed

section \<open>Alignment of the data\<close>

lemma align_loop_eq:
  assumes "0 < unat al" "unat h + 32 + unat al < 4294967296" "unat h \<le> unat d" "unat d < unat h + 32 + unat al"
  shows "\<exists>d' j. align_loop h d al = Some d' \<and> unat d' = unat d + j * unat al
    \<and> unat h + 32 \<le> unat d' \<and> unat d' < unat h + 32 + unat al"
  using assms(3,4)
proof (induction "unat h + 32 - unat d" arbitrary: d rule: less_induct)
  case less
  have u: "unat (d - h) = unat d - unat h" using less.prems(1) by (rule unat_sub32)
  show ?case
  proof (cases "d - h < HDR * 2")
    case True
    then have lt: "unat d < unat h + 32" using u less.prems(1) by (simp add: word_less_nat_alt HDR_def)
    have a: "unat (d + al) = unat d + unat al" using lt assms(2) by (intro unat_add32) simp
    have "unat h + 32 - unat (d + al) < unat h + 32 - unat d" using a lt assms(1) by simp
    then obtain d' j where "align_loop h (d + al) al = Some d'" "unat d' = unat (d + al) + j * unat al"
        "unat h + 32 \<le> unat d'" "unat d' < unat h + 32 + unat al"
      using less.hyps [of "d + al"] a lt less.prems by auto
    then show ?thesis using True a
      by (subst align_loop.simps) (auto intro!: exI [of _ "Suc j"])
  next
    case False
    then have "unat h + 32 \<le> unat d" using u less.prems(1) by (simp add: word_less_nat_alt HDR_def)
    then show ?thesis using False less.prems by (subst align_loop.simps) (auto intro!: exI [of _ 0])
  qed
qed

text \<open>
  Where the data of a block at \<open>h\<close> goes: right behind the header if that address is aligned,
  otherwise far enough behind it for another header, at an offset between 33 and
  \<open>31 + 2 ^ k\<close>.
\<close>

lemma data_position:
  assumes "k < 32" "unat h + 32 + 2 ^ k < 4294967296"
  shows "unat (h + HDR) = unat h + 16"
    and "ALIGN (h + HDR) (2 ^ k) = h + HDR \<longleftrightarrow> 2 ^ k dvd unat h + 16"
    and "\<exists>d. (ALIGN (h + HDR) (2 ^ k) \<noteq> h + HDR \<longrightarrow> align_loop h (ALIGN (h + HDR) (2 ^ k)) (2 ^ k) = Some d)
        \<and> 2 ^ k dvd unat d \<and> unat h + 32 \<le> unat d \<and> unat d < unat h + 32 + 2 ^ k"
proof -
  show h: "unat (h + HDR) = unat h + 16"
    using assms(2) by (subst unat_add32) (simp_all add: HDR_def)
  define a where "a = unat (ALIGN (h + HDR) (2 ^ k))"
  have room: "unat (h + HDR) + 2 ^ k - 1 < 2 ^ 32" using assms(2) h by simp
  have ar: "a = (unat h + 16 + 2 ^ k - 1) div 2 ^ k * 2 ^ k"
    using unat_ALIGN [OF assms(1) room] h by (simp add: a_def)
  then have dv: "2 ^ k dvd a" by simp
  have b: "unat h + 16 \<le> a" "a < unat h + 16 + 2 ^ k"
    using round_up_bounds [of "2 ^ k" "unat h + 16"] ar by simp_all
  show "ALIGN (h + HDR) (2 ^ k) = h + HDR \<longleftrightarrow> 2 ^ k dvd unat h + 16"
  proof
    assume "2 ^ k dvd unat h + 16"
    then obtain x y where xy: "unat h + 16 = 2 ^ k * x" "a = 2 ^ k * y" using dv by (auto simp: dvd_def)
    with b have "2 ^ k * x \<le> 2 ^ k * y" "2 ^ k * y < 2 ^ k * (x + 1)" by simp_all
    then have "x \<le> y" "y < x + 1" by (simp_all only: mult_le_cancel1 mult_less_cancel1)
    then have "x = y" by simp
    then have "a = unat (h + HDR)" using xy h by simp
    then show "ALIGN (h + HDR) (2 ^ k) = h + HDR" by (simp add: a_def word_unat_eq_iff)
  next
    assume "ALIGN (h + HDR) (2 ^ k) = h + HDR"
    then have "a = unat h + 16" using h by (simp add: a_def)
    then show "2 ^ k dvd unat h + 16" using dv by simp
  qed
  have al: "unat (2 ^ k :: u32) = 2 ^ k" using assms(1) by (rule unat_pow2)
  have "\<exists>d' j. align_loop h (ALIGN (h + HDR) (2 ^ k)) (2 ^ k) = Some d'
      \<and> unat d' = unat (ALIGN (h + HDR) (2 ^ k)) + j * unat (2 ^ k :: u32)
      \<and> unat h + 32 \<le> unat d' \<and> unat d' < unat h + 32 + unat (2 ^ k :: u32)"
    using b assms(2) al by (intro align_loop_eq) (simp_all add: a_def)
  then show "\<exists>d. (ALIGN (h + HDR) (2 ^ k) \<noteq> h + HDR \<longrightarrow> align_loop h (ALIGN (h + HDR) (2 ^ k)) (2 ^ k) = Some d)
        \<and> 2 ^ k dvd unat d \<and> unat h + 32 \<le> unat d \<and> unat d < unat h + 32 + 2 ^ k"
    using dv unfolding al a_def by (metis dvd_add dvd_triv_right)
qed

section \<open>One step of the search\<close>

definition request_ok :: "u32 \<Rightarrow> nat \<Rightarrow> 'a heap_state_scheme \<Rightarrow> bool" where
  "request_ok sz k s \<longleftrightarrow>
     k < 32 \<and> heap_end s + 32 + 2 ^ k < 2 ^ 32 \<and> 8 \<le> unat sz \<and> unat sz + 48 < 2 ^ 32 \<and> 2 ^ k \<le> unat sz + 1"

text \<open>
  A request, its canary included, for which the block is never too short for header and
  canary: the cut-off front block takes less than \<open>16 + 2 ^ k\<close> bytes.
\<close>

definition canary_fits :: "u32 \<Rightarrow> nat \<Rightarrow> bool" where
  "canary_fits sz k \<longleftrightarrow> 2 ^ k + 6 \<le> unat sz"

text \<open>
  What a successful step delivers: the block is added to the live ones, its data is
  aligned, and its size covers header and request except for at most \<open>2 ^ k - 2\<close> bytes.
\<close>

definition same_bounds :: "'a heap_state_scheme \<Rightarrow> 'a heap_state_scheme \<Rightarrow> bool" where
  "same_bounds s s' \<longleftrightarrow>
     kheap_addr s' = kheap_addr s \<and> heap_max_size (kheap s') = heap_max_size (kheap s)
     \<and> (unat (heap_size (kheap s)) < unat (heap_max_size (kheap s)) + 4096 \<longrightarrow>
        unat (heap_size (kheap s')) < unat (heap_max_size (kheap s)) + 4096)"

definition delivers :: "u32 \<Rightarrow> nat \<Rightarrow> 'a heap_state_scheme \<Rightarrow> u32 list \<Rightarrow> u32 \<Rightarrow> 'a heap_state_scheme \<Rightarrow> bool" where
  "delivers sz k s bs r s' \<longleftrightarrow>
     (\<exists>bs'. heap_wf s' bs' \<and> live s' bs' = insert (r, hb_size (blocks s' r)) (live s bs)
        \<and> r \<in> set bs' \<and> allocated (blocks s' r) \<and> hb_magic (blocks s' r) = MAGIC_ALLOCATED
        \<and> r \<notin> fst ` live s bs)
     \<and> 2 ^ k dvd unat r + 16
     \<and> (unat sz + 16 \<le> unat (hb_size (blocks s' r)) \<or> unat sz + 18 \<le> unat (hb_size (blocks s' r)) + 2 ^ k)
     \<and> heap_lock_word (kheap s') = 0 \<and> same_bounds s s'"

lemma same_bounds_taken [simp]: "same_bounds s (taken h H s)"
  by (simp add: same_bounds_def)

lemma not_live_free:
  assumes "heap_wf s (xs @ h # ys)" "\<not> allocated (blocks s h)" "unat h \<le> unat r"
    "unat r < unat h + unat (hb_size (blocks s h))"
  shows "r \<notin> fst ` live s (xs @ h # ys)"
proof
  assume "r \<in> fst ` live s (xs @ h # ys)"
  then have r: "r \<in> set (xs @ h # ys)" "allocated (blocks s r)" by (auto simp: live_def)
  then have "r \<noteq> h" using assms(2) by auto
  then show False
    using tiles_disjoint [OF heap_wf_tiles [OF assms(1)] _ r(1), of h] heap_wf_good [OF assms(1) r(1)] assms(3,4)
    by (auto simp: good_header_def)
qed

lemma take_whole_delivers:
  assumes wf: "heap_wf s (xs @ h # ys)" "\<not> allocated (blocks s h)" "heap_lock_word (kheap s) = 1"
    and al: "2 ^ k dvd unat h + 16" and fit: "unat sz + 16 \<le> unat (hb_size (blocks s h))" "8 \<le> unat sz"
  shows "\<exists>s'. take_whole h s = Inr (h, s') \<and> delivers sz k s (xs @ h # ys) h s'"
proof -
  let ?H = "(blocks s)(h := alloc_header (blocks s h) (hb_size (blocks s h)) (hb_next (blocks s h)))"
  have d: "distinct (xs @ h # ys)" using tiles_distinct [OF heap_wf_tiles [OF wf(1)]] .
  have g: "good_header (blocks s h)" using heap_wf_good [OF wf(1)] by simp
  have nx: "hb_next (blocks s h) = first_or ys NULL"
    using heap_wf_tiles [OF wf(1)] by (auto simp: tiles_append)
  have "heap_wf (taken h ?H s) (xs @ [h] @ ys)
      \<and> live (taken h ?H s) (xs @ [h] @ ys) = insert (h, hb_size (?H h)) (live s (xs @ h # ys))"
    by (rule heap_wf_taken) (use wf d g nx fit in \<open>auto simp: good_header_def\<close>)
  moreover have "with_canary h ?H = ?H" using fit by (intro with_canary_fits) simp
  moreover have "h \<notin> fst ` live s (xs @ h # ys)" using wf by (auto simp: live_def)
  moreover have "take_whole h s = Inr (h, taken h ?H s)"
    using take_whole_eq heap_wf_valid [OF wf(1), of h] wf(3) by simp
  ultimately show ?thesis
    using al fit unfolding delivers_def by (auto intro!: exI [of _ "xs @ h # ys"])
qed

lemma take_split_delivers:
  assumes wf: "heap_wf s (xs @ h # ys)" "\<not> allocated (blocks s h)" "heap_lock_word (kheap s) = 1"
    and al: "2 ^ k dvd unat h + 16" and fit: "unat sz + 32 < unat (hb_size (blocks s h))" "8 \<le> unat sz"
  shows "\<exists>s'. take_split h sz s = Inr (h, s') \<and> delivers sz k s (xs @ h # ys) h s'"
proof -
  define nb where "nb = h + sz + HDR"
  have d: "distinct (xs @ h # ys)" using tiles_distinct [OF heap_wf_tiles [OF wf(1)]] .
  have nx: "hb_next (blocks s h) = first_or ys NULL"
    using heap_wf_tiles [OF wf(1)] by (auto simp: tiles_append)
  have e: "unat h + unat (hb_size (blocks s h)) < 4294967296" using heap_wf_end [OF wf(1), of h] by simp
  have "unat (h + sz) = unat h + unat sz" using e fit by (intro unat_add32) simp
  then have nb: "unat nb = unat h + unat sz + 16"
    unfolding nb_def using e fit by (subst unat_add32) (simp_all add: HDR_def)
  have sz: "unat (HDR + sz) = unat sz + 16" using e fit by (subst unat_add32) (simp_all add: HDR_def)
  have rs: "unat (hb_size (blocks s h) - HDR - sz) = unat (hb_size (blocks s h)) - 16 - unat sz"
    using fit by (subst unat_sub32; subst unat_sub32; simp add: HDR_def)
  have ne: "nb \<noteq> h" using nb by auto
  let ?H = "(blocks s)(nb := free_header (hb_size (blocks s h) - HDR - sz) (hb_next (blocks s h)),
     h := alloc_header (blocks s h) (HDR + sz) nb)"
  have out: "nb \<notin> set xs \<union> set ys"
    using tiles_disjoint [OF heap_wf_tiles [OF wf(1)], of h nb] heap_wf_good [OF wf(1), of nb] nb ne fit
    by (auto simp: good_header_def)
  have "heap_wf (taken h ?H s) (xs @ [h, nb] @ ys)
      \<and> live (taken h ?H s) (xs @ [h, nb] @ ys) = insert (h, hb_size (?H h)) (live s (xs @ h # ys))"
  proof (rule heap_wf_taken [OF wf(1,2)])
    show "tiles ?H (unat h) [h, nb] (unat h + unat (hb_size (blocks s h))) (first_or ys NULL)"
      using ne nb sz rs nx fit by (simp add: good_header_def)
  qed (use d out ne sz fit in auto)
  moreover have "with_canary h ?H = ?H" using sz fit by (intro with_canary_fits) simp
  moreover have "\<not> HDR + sz < HDR + 8" using sz fit(2) by (simp add: word_less_nat_alt HDR_def)
  moreover have "h \<notin> fst ` live s (xs @ h # ys)" using wf by (auto simp: live_def)
  moreover have "take_split h sz s = Inr (h, taken h ?H s)"
    unfolding nb_def using take_split_eq [of s h sz] heap_wf_valid [OF wf(1), of h] wf(3) ne sz fit(2)
    by (simp add: nb_def word_less_nat_alt HDR_def)
  ultimately show ?thesis
    using al sz unfolding delivers_def by (auto intro!: exI [of _ "xs @ [h, nb] @ ys"])
qed

text \<open>Cutting a front block off leaves a tiling of the same range.\<close>

lemma cut_rest_positions:
  assumes "unat h + 16 \<le> unat header1" "unat header1 - unat h + 16 \<le> T" "T = unat (n0)"
    and "unat h + T < 4294967296" "unat sz + 32 < 4294967296" "rest = n0 - (header1 - h)"
  shows "unat (header1 - h) = unat header1 - unat h" "unat rest = T - (unat header1 - unat h)"
    and "unat (sz + HDR) = unat sz + 16"
    and "rest > sz + HDR * 2 \<longleftrightarrow> unat sz + 32 < unat rest"
    and "rest > sz + HDR * 2 \<Longrightarrow> unat (header1 + sz + HDR) = unat header1 + unat sz + 16"
    and "rest > sz + HDR * 2 \<Longrightarrow> unat (rest - sz - HDR) = unat rest - unat sz - 16"
proof -
  show u: "unat (header1 - h) = unat header1 - unat h" using assms(1) by (intro unat_sub32) simp
  show r: "unat rest = T - (unat header1 - unat h)"
    unfolding assms(6) using assms(2,3) u by (subst unat_sub32) simp_all
  show "unat (sz + HDR) = unat sz + 16" using assms(5) by (subst unat_add32) (simp_all add: HDR_def)
  have "unat (sz + HDR * 2) = unat sz + 32" using assms(5) by (subst unat_add32) (simp_all add: HDR_def)
  then show lt: "rest > sz + HDR * 2 \<longleftrightarrow> unat sz + 32 < unat rest" by (simp add: word_less_nat_alt)
  assume "rest > sz + HDR * 2"
  then have b: "unat sz + 32 < unat rest" using lt by simp
  then have "unat header1 + unat sz + 32 < 4294967296" using r assms(1,4) by linarith
  moreover from this have "unat (header1 + sz) = unat header1 + unat sz" by (intro unat_add32) simp
  ultimately show "unat (header1 + sz + HDR) = unat header1 + unat sz + 16"
    by (subst unat_add32) (simp_all add: HDR_def)
  show "unat (rest - sz - HDR) = unat rest - unat sz - 16"
    using b by (subst unat_sub32; subst unat_sub32; simp add: HDR_def)
qed

lemma cut_headers_tiles:
  assumes u: "unat h + 16 \<le> unat header1" "unat header1 - unat h + 16 \<le> T" "T = unat (hb_size (H h))"
    and b: "unat h + T < 4294967296" "unat sz + 32 < 4294967296" "rest = hb_size (H h) - (header1 - h)"
    and nx: "hb_next (H h) = n" and out: "\<And>b. unat h \<le> unat b \<Longrightarrow> unat b < unat h + T \<Longrightarrow> b \<notin> A"
  shows "\<exists>zs. zs \<noteq> [] \<and> hd zs = h \<and> header1 \<in> set zs
      \<and> (\<forall>b\<in>set zs. allocated (cut_headers H h header1 sz b) \<longleftrightarrow> b = header1)
      \<and> adj (cut_headers H h header1 sz) zs
      \<and> tiles (cut_headers H h header1 sz) (unat h) zs (unat h + T) n
      \<and> (\<forall>b\<in>A. cut_headers H h header1 sz b = H b)
      \<and> min (unat sz + 16) (unat rest) \<le> unat (hb_size (cut_headers H h header1 sz header1))"
proof -
  note p = cut_rest_positions [OF u b]
  have h1: "header1 \<noteq> h" "h \<noteq> header1" "h \<notin> A" "header1 \<notin> A" using u out [of h] out [of header1] by auto
  show ?thesis
  proof (cases "rest > sz + HDR * 2")
    case True
    define h3 where "h3 = header1 + sz + HDR"
    have u3: "unat h3 = unat header1 + unat sz + 16" "unat sz + 32 < unat rest"
      using p(4,5) True by (simp_all add: h3_def)
    have n3: "h3 \<noteq> header1" "h3 \<noteq> h" "header1 \<noteq> h3" "h \<noteq> h3" "h3 \<notin> A"
      using u3 u p(2) out [of h3] by auto
    have H: "cut_headers H h header1 sz = H(h := shrunk (H h) (header1 - h) header1,
        header1 := alloc_header (free_header 0 0) (sz + HDR) h3,
        h3 := free_header (rest - sz - HDR) (hb_next (H h)))"
      using True by (simp add: cut_headers_def b(3) [symmetric] h3_def [symmetric])
    have "tiles (cut_headers H h header1 sz) (unat h) [h, header1, h3] (unat h + T) n"
      unfolding H using h1 n3 u u3 p(1,2,3) p(6) [OF True] nx by (simp add: good_header_def) linarith
    then show ?thesis
      using h1 n3 p(3) by (intro exI [of _ "[h, header1, h3]"]) (auto simp: H)
  next
    case False
    have H: "cut_headers H h header1 sz = H(h := shrunk (H h) (header1 - h) header1,
        header1 := alloc_header (free_header 0 0) rest (hb_next (H h)))"
      using False by (simp add: cut_headers_def b(3) [symmetric])
    have "tiles (cut_headers H h header1 sz) (unat h) [h, header1] (unat h + T) n"
      unfolding H using h1 u p(1,2) nx by (simp add: good_header_def) linarith
    then show ?thesis
      using h1 by (intro exI [of _ "[h, header1]"]) (auto simp: H)
  qed
qed

text \<open>A block cut out of the middle of a free one, which may be shorter than the request by \<open>2 ^ k - 2\<close> bytes.\<close>

lemma take_aligned_shape:
  assumes wf: "heap_wf s (xs @ h # ys)" "\<not> allocated (blocks s h)" "heap_lock_word (kheap s) = 1"
    and d: "unat h + 32 \<le> unat data1" "unat data1 < unat h + 32 + 2 ^ k"
    and fit: "unat sz + 32 < unat (hb_size (blocks s h))" "2 ^ k \<le> unat sz + 1"
    and c: "c = data1 - HDR" "H = cut_headers (blocks s) h c sz"
  shows "take_aligned h data1 sz s = Inr (c, taken c H s)" "unat c = unat data1 - 16"
    "unat c < unat h + unat (hb_size (blocks s h))"
    "\<exists>zs. zs \<noteq> [] \<and> hd zs = h \<and> c \<in> set zs \<and> (\<forall>b\<in>set zs. allocated (H b) \<longleftrightarrow> b = c) \<and> adj H zs
      \<and> tiles H (unat h) zs (unat h + unat (hb_size (blocks s h))) (first_or ys NULL)
      \<and> (\<forall>b\<in>set xs \<union> set ys. H b = blocks s b)"
    "unat sz + 16 \<le> unat (hb_size (H c)) \<or> unat sz + 18 \<le> unat (hb_size (H c)) + 2 ^ k"
proof -
  define T where "T = unat (hb_size (blocks s h))"
  define rest where "rest = hb_size (blocks s h) - (c - h)"
  show u1: "unat c = unat data1 - 16"
    unfolding c(1) using d(1) by (subst unat_sub32) (simp_all add: HDR_def)
  have u: "unat h + 16 \<le> unat c" "unat c - unat h + 16 \<le> T"
    using u1 d fit unfolding T_def by linarith+
  show "unat c < unat h + unat (hb_size (blocks s h))" using u unfolding T_def by linarith
  have e: "unat h + T < 4294967296" using heap_wf_end [OF wf(1), of h] by (simp add: T_def)
  have s32: "unat sz + 32 < 4294967296" using e fit(1) by (simp add: T_def)
  note p = cut_rest_positions [OF u T_def e s32 rest_def]
  have dst: "distinct (xs @ h # ys)" using tiles_distinct [OF heap_wf_tiles [OF wf(1)]] .
  have nx: "hb_next (blocks s h) = first_or ys NULL"
    using heap_wf_tiles [OF wf(1)] by (auto simp: tiles_append)
  have out: "b \<notin> set xs \<union> set ys" if "unat h \<le> unat b" "unat b < unat h + T" for b
    using tiles_disjoint [OF heap_wf_tiles [OF wf(1)], of h b] heap_wf_good [OF wf(1), of b] that dst
    by (cases "b = h") (auto simp: good_header_def T_def)
  have "c + sz + HDR \<noteq> h \<and> c + sz + HDR \<noteq> c" if "rest > sz + HDR * 2"
  proof -
    have "unat (c + sz + HDR) \<noteq> unat h" "unat (c + sz + HDR) \<noteq> unat c"
      unfolding p(5) [OF that] using u(1) by linarith+
    then show ?thesis by metis
  qed
  then show "take_aligned h data1 sz s = Inr (c, taken c H s)"
    unfolding c(2) using heap_wf_valid [OF wf(1), of h] u(1) by (intro take_aligned_eq wf(3) c(1)) (auto simp: rest_def)
  note z = cut_headers_tiles [where H = "blocks s", OF u T_def e s32 rest_def nx out, folded c(2)]
  show "\<exists>zs. zs \<noteq> [] \<and> hd zs = h \<and> c \<in> set zs \<and> (\<forall>b\<in>set zs. allocated (H b) \<longleftrightarrow> b = c) \<and> adj H zs
      \<and> tiles H (unat h) zs (unat h + unat (hb_size (blocks s h))) (first_or ys NULL)
      \<and> (\<forall>b\<in>set xs \<union> set ys. H b = blocks s b)"
    using z unfolding T_def by blast
  have "min (unat sz + 16) (unat rest) \<le> unat (hb_size (H c))" using z by blast
  then show "unat sz + 16 \<le> unat (hb_size (H c)) \<or> unat sz + 18 \<le> unat (hb_size (H c)) + 2 ^ k"
    using p(2) u1 d fit(1) unfolding T_def by linarith
qed

lemma take_aligned_delivers:
  assumes wf: "heap_wf s (xs @ h # ys)" "\<not> allocated (blocks s h)" "heap_lock_word (kheap s) = 1"
    and d: "2 ^ k dvd unat data1" "unat h + 32 \<le> unat data1" "unat data1 < unat h + 32 + 2 ^ k"
    and fit: "unat sz + 32 < unat (hb_size (blocks s h))" "2 ^ k \<le> unat sz + 1" "8 \<le> unat sz" "canary_fits sz k"
  shows "\<exists>s'. take_aligned h data1 sz s = Inr (data1 - HDR, s') \<and> delivers sz k s (xs @ h # ys) (data1 - HDR) s'"
proof -
  define c where "c = data1 - HDR"
  let ?H = "cut_headers (blocks s) h c sz"
  note t = take_aligned_shape [OF wf d(2,3) fit(1,2) c_def refl]
  have room: "24 \<le> unat (hb_size (?H c))" using t(5) fit(3,4) unfolding canary_fits_def by linarith
  obtain zs where zs: "zs \<noteq> []" "hd zs = h" "c \<in> set zs" "\<And>b. b \<in> set zs \<Longrightarrow> allocated (?H b) \<longleftrightarrow> b = c"
      "adj ?H zs" "tiles ?H (unat h) zs (unat h + unat (hb_size (blocks s h))) (first_or ys NULL)"
      "\<And>b. b \<in> set xs \<union> set ys \<Longrightarrow> ?H b = blocks s b"
    using t(4) by blast
  have "heap_wf (taken c ?H s) (xs @ zs @ ys)
      \<and> live (taken c ?H s) (xs @ zs @ ys) = insert (c, hb_size (?H c)) (live s (xs @ h # ys))"
    using wf(1,2) zs(1-5,7,6) room by (rule heap_wf_taken)
  moreover have "c \<notin> fst ` live s (xs @ h # ys)"
    using not_live_free [OF wf(1,2), of c] t(2,3) d(2) by simp
  moreover have "unat c + 16 = unat data1" using t(2) d(2) by simp
  moreover have "allocated (?H c)" using zs(3,4) by blast
  moreover from this have "hb_magic (?H c) = MAGIC_ALLOCATED"
    using tiles_range(3) [OF zs(6,3)] by (simp add: good_header_def valid_header_def allocated_def)
  moreover have "with_canary c ?H = ?H" using room by (rule with_canary_fits)
  ultimately show ?thesis
    using t(1,5) d(1) zs(3) unfolding delivers_def c_def [symmetric]
    by (auto intro!: exI [of _ "xs @ zs @ ys"])
qed

text \<open>A block that is not passed over is taken in one of three ways.\<close>

lemma try_block_cases:
  assumes wf: "heap_wf s (xs @ h # ys)" and rq: "request_ok sz k s"
    and not_none: "try_block sz (2 ^ k) h s \<noteq> Inr (None, s)"
  obtains (front) f where "\<not> allocated (blocks s h)" "2 ^ k dvd unat h + 16" "unat sz + 16 \<le> unat (hb_size (blocks s h))"
      "try_block sz (2 ^ k) h s = res_bind f (\<lambda>(r, s). Inr (Some r, s))"
      "f = (if unat sz + 32 < unat (hb_size (blocks s h)) then take_split h sz s else take_whole h s)"
    | (inner) d where "\<not> allocated (blocks s h)" "2 ^ k dvd unat d" "unat h + 32 \<le> unat d" "unat d < unat h + 32 + 2 ^ k"
      "unat sz + 32 < unat (hb_size (blocks s h))"
      "try_block sz (2 ^ k) h s = res_bind (take_aligned h d sz s) (\<lambda>(r, s). Inr (Some r, s))"
proof -
  have k: "k < 32" "unat sz + 48 < 4294967296" using rq by (simp_all add: request_ok_def)
  have e: "unat h + unat (hb_size (blocks s h)) \<le> heap_end s" using heap_wf_end [OF wf, of h] by simp
  have hk: "unat h + 32 + 2 ^ k < 4294967296" using e rq by (simp add: request_ok_def)
  note p = data_position [OF k(1) hk]
  have v: "is_valid_block s h" using heap_wf_valid [OF wf] by simp
  have g: "16 \<le> unat (hb_size (blocks s h))" using heap_wf_good [OF wf, of h] by (simp add: good_header_def)
  have u: "unat (hb_size (blocks s h) - HDR) = unat (hb_size (blocks s h)) - 16"
    using g by (subst unat_sub32) (simp_all add: HDR_def)
  have sz: "unat (HDR + sz) = unat sz + 16" "unat (HDR * 2 + sz) = unat sz + 32"
    using k(2) by (subst unat_add32; simp add: HDR_def)+
  have fr: "\<not> allocated (blocks s h)" and fit: "unat sz + 16 \<le> unat (hb_size (blocks s h))"
    using not_none v u g by (auto simp: try_block_def heap_is_free_eq word_le_nat_alt split: if_splits)
  have c1: "hb_size (blocks s h) - HDR \<ge> sz" "hb_size (blocks s h) \<ge> HDR + sz"
    using u fit sz by (simp_all add: word_le_nat_alt)
  have rem: "hb_size (blocks s h) - HDR - sz > HDR \<longleftrightarrow> unat sz + 32 < unat (hb_size (blocks s h))"
    using c1(1) u fit by (subst word_less_nat_alt, subst unat_sub32) (auto simp: word_le_nat_alt HDR_def)
  show thesis
  proof (cases "2 ^ k dvd unat h + 16")
    case True
    then have "try_block sz (2 ^ k) h s = res_bind (if unat sz + 32 < unat (hb_size (blocks s h))
        then take_split h sz s else take_whole h s) (\<lambda>(r, s). Inr (Some r, s))"
      using v fr c1 p(2) rem by (simp add: try_block_def heap_is_free_eq Let_def)
    from front [OF fr True fit this refl] show ?thesis .
  next
    case False
    obtain d where d: "align_loop h (ALIGN (h + HDR) (2 ^ k)) (2 ^ k) = Some d" "2 ^ k dvd unat d"
        "unat h + 32 \<le> unat d" "unat d < unat h + 32 + 2 ^ k"
      using p(2,3) False by blast
    have "unat (d - h) = unat d - unat h" using d(3) by (intro unat_sub32) simp
    then have dh: "d - h \<ge> HDR * 2" using d(3) by (simp add: word_le_nat_alt HDR_def)
    have big: "hb_size (blocks s h) > HDR * 2 + sz \<longleftrightarrow> unat sz + 32 < unat (hb_size (blocks s h))"
      using sz by (simp add: word_less_nat_alt)
    have t: "try_block sz (2 ^ k) h s = (if unat sz + 32 < unat (hb_size (blocks s h))
        then res_bind (take_aligned h d sz s) (\<lambda>(r, s). Inr (Some r, s)) else Inr (None, s))"
      using v fr c1(1) p(2) False d(1) dh big by (simp add: try_block_def heap_is_free_eq Let_def)
    then have lt: "unat sz + 32 < unat (hb_size (blocks s h))" using not_none by (auto split: if_splits)
    from inner [OF fr d(2,3,4) lt] t lt show ?thesis by simp
  qed
qed

lemma try_block_spec:
  assumes wf: "heap_wf s (xs @ h # ys)" "heap_lock_word (kheap s) = 1" and rq: "request_ok sz k s" "canary_fits sz k"
    and not_none: "try_block sz (2 ^ k) h s \<noteq> Inr (None, s)"
  shows "\<exists>r s'. try_block sz (2 ^ k) h s = Inr (Some r, s') \<and> delivers sz k s (xs @ h # ys) r s'"
proof -
  have k: "2 ^ k \<le> unat sz + 1" "8 \<le> unat sz" using rq by (simp_all add: request_ok_def)
  from wf(1) rq(1) not_none show ?thesis
  proof (cases rule: try_block_cases)
    case (front f)
    then show ?thesis
      using take_split_delivers [OF wf(1) front(1) wf(2) front(2) _ k(2)] take_whole_delivers [OF wf(1) front(1) wf(2) front(2,3) k(2)]
      by (cases "unat sz + 32 < unat (hb_size (blocks s h))") fastforce+
  next
    case (inner d)
    then show ?thesis using take_aligned_delivers [OF wf(1) inner(1) wf(2) inner(2-5) k rq(2)] by auto
  qed
qed

lemma alloc_walk_spec:
  assumes wf: "heap_wf s bs" "heap_lock_word (kheap s) = 1" and rq: "request_ok sz k s" "canary_fits sz k"
  shows "alloc_walk sz (2 ^ k) (heap_head (kheap s)) s = Some (Inr (None, s))
    \<or> (\<exists>r s'. alloc_walk sz (2 ^ k) (heap_head (kheap s)) s = Some (Inr (Some r, s')) \<and> delivers sz k s bs r s')"
proof -
  have "heap_head (kheap s) = first_or bs NULL" using wf(1) by (cases bs) (auto simp: heap_wf_def)
  then have w: "alloc_walk sz (2 ^ k) (heap_head (kheap s)) s = Some
      (case List.find (\<lambda>b. try_block sz (2 ^ k) b s \<noteq> Inr (None, s)) bs of
         None \<Rightarrow> Inr (None, s) | Some b \<Rightarrow> try_block sz (2 ^ k) b s)"
    using alloc_walk_eq [OF suffix_of_wf [OF wf(1)], of sz "2 ^ k"] by simp
  show ?thesis
  proof (cases "List.find (\<lambda>b. try_block sz (2 ^ k) b s \<noteq> Inr (None, s)) bs")
    case None
    then show ?thesis using w by simp
  next
    case (Some b)
    then have b: "b \<in> set bs" "try_block sz (2 ^ k) b s \<noteq> Inr (None, s)" by (auto simp: find_Some_iff)
    then obtain xs ys where "bs = xs @ b # ys" by (auto simp: in_set_conv_decomp)
    then show ?thesis using try_block_spec [OF _ wf(2) rq b(2)] wf(1) w Some by auto
  qed
qed

text \<open>
  Without the bound on the alignment the block may be so short that its canary changes its own
  header, but only the fields behind magic number and flags: a block is still handed out.
\<close>

lemma bytes_word_bytes: "bytes_word (word_bytes 4 w) = (w :: u32)"
proof (rule u32_eqI)
  fix n :: nat
  have [simp]: "[0..<4] = [0, 1, 2, 3 :: nat]" by (simp add: upt_rec)
  assume "n < 32"
  then show "bit (bytes_word (word_bytes 4 w) :: u32) n = bit w n"
    by (cases "n < 8"; cases "n < 16"; cases "n < 24") (auto simp: word_bytes_def bit_simps)
qed

lemma clobbered_front:
  assumes "16 \<le> unat (hb_size h)"
  shows "hb_magic (clobbered h) = hb_magic h" "hb_flags (clobbered h) = hb_flags h"
proof -
  let ?n = "unat (hb_size h)"
  let ?f = "\<lambda>i. if i < ?n \<and> ?n \<le> i + 8 then word_bytes 8 CANARY ! (i + 8 - ?n) else header_bytes h ! i"
  have l [simp]: "length (word_bytes m w) = m" for m and w :: "'c::len word" by (simp add: word_bytes_def)
  have u: "[0..<16] = [0..<4] @ [4..<8] @ [8..<16 :: nat]" by (simp add: upt_rec)
  have "map ?f [0..<4] = map (\<lambda>i. header_bytes h ! i) [0..<4]" by (rule map_cong) (use assms in auto)
  also have "\<dots> = word_bytes 4 (hb_magic h)" by (rule nth_equalityI) (simp_all add: header_bytes_def nth_append)
  finally have a: "map ?f [0..<4] = word_bytes 4 (hb_magic h)" .
  have "map ?f [4..<8] = map (\<lambda>i. header_bytes h ! i) [4..<8]" by (rule map_cong) (use assms in auto)
  also have "\<dots> = word_bytes 4 (hb_flags h)" by (simp add: header_bytes_def nth_append word_bytes_def upt_rec)
  finally have b: "map ?f [4..<8] = word_bytes 4 (hb_flags h)" .
  have e: "clobbered h = bytes_header (map ?f [0..<4] @ map ?f [4..<8] @ map ?f [8..<16])"
    unfolding clobbered_def Let_def u map_append ..
  show "hb_magic (clobbered h) = hb_magic h" "hb_flags (clobbered h) = hb_flags h"
    unfolding e a b by (simp_all add: bytes_header_def bytes_word_bytes)
qed

lemma with_canary_magic: "16 \<le> unat (hb_size (H h)) \<Longrightarrow> hb_magic (with_canary h H h) = hb_magic (H h)"
  by (simp add: with_canary_def clobbered_front)

lemma try_block_gives:
  assumes wf: "heap_wf s (xs @ h # ys)" "heap_lock_word (kheap s) = 1" and rq: "request_ok sz k s"
    and not_none: "try_block sz (2 ^ k) h s \<noteq> Inr (None, s)"
  shows "\<exists>r s'. try_block sz (2 ^ k) h s = Inr (Some r, s') \<and> r \<noteq> NULL \<and> hb_magic (blocks s' r) = MAGIC_ALLOCATED"
proof -
  have k: "2 ^ k \<le> unat sz + 1" "8 \<le> unat sz" using rq by (simp_all add: request_ok_def)
  from wf(1) rq not_none show ?thesis
  proof (cases rule: try_block_cases)
    case (front f)
    then obtain s' where "f = Inr (h, s')" "delivers sz k s (xs @ h # ys) h s'"
      using take_split_delivers [OF wf(1) front(1) wf(2) front(2) _ k(2)] take_whole_delivers [OF wf(1) front(1) wf(2) front(2,3) k(2)]
      by (cases "unat sz + 32 < unat (hb_size (blocks s h))") fastforce+
    then show ?thesis using front(4) heap_wf_nonnull [OF wf(1), of h] by (auto simp: delivers_def)
  next
    case (inner d)
    define c where "c = d - HDR"
    let ?H = "cut_headers (blocks s) h c sz"
    note t = take_aligned_shape [OF wf(1) inner(1) wf(2) inner(3,4,5) k(1) c_def refl]
    obtain zs where zs: "c \<in> set zs" "\<And>b. b \<in> set zs \<Longrightarrow> allocated (?H b) \<longleftrightarrow> b = c"
        "tiles ?H (unat h) zs (unat h + unat (hb_size (blocks s h))) (first_or ys NULL)"
      using t(4) by blast
    have g: "good_header (?H c)" "allocated (?H c)" using tiles_range(3) [OF zs(3,1)] zs(1,2) by auto
    then have "hb_magic (with_canary c ?H c) = MAGIC_ALLOCATED"
      by (simp add: with_canary_magic good_header_def valid_header_def allocated_def)
    moreover have "c \<noteq> NULL" using t(2) inner(3) by auto
    ultimately show ?thesis using t(1) inner(6) by auto
  qed
qed

end
