(* ===== verification/HeapGrow.thy ===== *)
theory HeapGrow
  imports Heap
begin

text \<open>
  Growing the heap page by page (\<open>heap_grow\<close>) and the allocation loop around the search:
  the loop ends, and what it returns.
\<close>

section \<open>Growing\<close>

text \<open>What the page table and frame operations leave alone.\<close>

definition only_pages :: "'a vmm_state_scheme \<Rightarrow> 'a vmm_state_scheme \<Rightarrow> bool" where
  "only_pages s s' \<longleftrightarrow> (\<exists>m p. s' = s\<lparr>memregions := m, phys := p\<rparr>)"

lemma only_pages_refl [intro]: "only_pages s s"
  unfolding only_pages_def by (intro exI [of _ "memregions s"] exI [of _ "phys s"]) simp

lemma only_pages_memregions [intro]: "only_pages s (s\<lparr>memregions := m\<rparr>)"
  unfolding only_pages_def by (intro exI [of _ m] exI [of _ "phys s"]) simp

lemma only_pages_phys [intro]: "only_pages s (s\<lparr>phys := p\<rparr>)"
  unfolding only_pages_def by (intro exI [of _ "memregions s"] exI [of _ p]) simp

lemma only_pages_trans [trans]: "only_pages s t \<Longrightarrow> only_pages t u \<Longrightarrow> only_pages s u"
  unfolding only_pages_def by (elim exE, simp, intro exI, rule refl)

lemma zero_words_frame: "zero_words js va s = Inr s' \<Longrightarrow> only_pages s s'"
proof (induction js arbitrary: s)
  case (Cons j js)
  then obtain s1 where s1: "store32 s (va + 4 * of_nat j) 0 = Inr s1" "zero_words js va s1 = Inr s'"
    by (auto simp: res_simps)
  then have "only_pages s s1" by (auto simp: store32_def res_simps)
  with Cons.IH [OF s1(2)] show ?case by (rule only_pages_trans [rotated])
qed auto

lemma store32_frame: "store32 s va w = Inr s' \<Longrightarrow> only_pages s s'"
  by (auto simp: store32_def res_simps)

lemma pmm_alloc_frame: "pmm_alloc s = Inr (f, s') \<Longrightarrow> only_pages s s'"
  by (auto simp: pmm_alloc_eq res_simps)

lemma vmm_map_body_frame:
  assumes "vmm_map_body va pa fl s = Inr ((), s')"
  shows "only_pages s s'"
proof -
  let ?info = "va_info va"
  let ?pde = "pagedir_entry current_pagedir (dir_index ?info)"
  obtain pde where pde: "load32 s ?pde = Inr pde" using assms by (auto simp: vmm_map_body_def Let_def res_simps)
  show ?thesis
  proof (cases "pde AND PDE_PRESENT = 0")
    case True
    then obtain f s1 s2 s3 where s1: "pmm_alloc s = Inr (f, s1)"
      and s2: "store32 s1 ?pde (f OR PDE_PRESENT OR PDE_USER OR PDE_WRITABLE) = Inr s2"
      and s3: "bzero_table (get_pagetable ?info) s2 = Inr s3"
      and s4: "store32 s3 (pagedir_entry (get_pagetable ?info) (table_index ?info)) (pa AND PTE_FRAME OR fl) = Inr s'"
      using assms pde by (auto simp: vmm_map_body_def Let_def res_simps flush_tlb_eq)
    have "only_pages s s1" using s1 by (rule pmm_alloc_frame)
    also have "only_pages s1 s2" using s2 by (rule store32_frame)
    also have "only_pages s2 s3" using s3 unfolding bzero_table_def by (rule zero_words_frame)
    also have "only_pages s3 s'" using s4 by (rule store32_frame)
    finally show ?thesis .
  next
    case False
    then obtain w where "store32 s (pagedir_entry (get_pagetable ?info) (table_index ?info)) w = Inr s'"
      using assms pde by (auto simp: vmm_map_body_def Let_def res_simps flush_tlb_eq split: if_splits)
    then show ?thesis by (rule store32_frame)
  qed
qed

lemma only_pages_eflags: "only_pages s s' \<Longrightarrow> eflags s' = eflags s"
  by (auto simp: only_pages_def)

lemma vmm_map_frame:
  assumes "vmm_map va pa fl s = Inr ((), s')"
  shows "only_pages s s'"
proof -
  have c: "critical (vmm_map_body va pa fl) s = Inr ((), s')" using assms by (auto simp: vmm_map_def res_simps)
  obtain s2 where s2: "vmm_map_body va pa fl (cli s) = Inr ((), s2)" "s' = s2\<lparr>eflags := eflags s\<rparr>"
    using c by (rule critical_frame) (use vmm_map_body_frame only_pages_eflags in blast)+
  obtain m p where "s2 = (cli s)\<lparr>memregions := m, phys := p\<rparr>"
    using vmm_map_body_frame [OF s2(1)] by (auto simp: only_pages_def)
  then have "s' = s\<lparr>memregions := m, phys := p\<rparr>" using s2(2) by (simp add: cli_def)
  then show ?thesis unfolding only_pages_def by (intro exI)
qed

lemma grow_page_frame:
  assumes "grow_page page s = Inr (ok, s')"
  shows "only_pages s s'"
proof (cases "paging_enabled s")
  case True
  then obtain f s1 where s1: "pmm_alloc s = Inr (f, s1)"
      "s' = s1 \<or> vmm_map page f (VMM_PAGE_PRESENT OR VMM_PAGE_WRITABLE) s1 = Inr ((), s')"
    using assms by (auto simp: grow_page_def vmm_paging_enabled_def res_simps split: if_splits)
  have "only_pages s s1" using s1(1) by (rule pmm_alloc_frame)
  also have "only_pages s1 s'" using s1(2) vmm_map_frame by blast
  finally show ?thesis .
next
  case False
  then show ?thesis using assms
    by (auto simp: grow_page_def vmm_paging_enabled_def res_simps pmm_reserve_eq split: if_splits)
qed

text \<open>Operations without a loop that could run on.\<close>

definition ends :: "'a res \<Rightarrow> bool" where
  "ends r \<longleftrightarrow> r \<noteq> Inl Diverge"

named_theorems ends_rules \<open>operations that end\<close>

lemma ends_basic [ends_rules]:
  "ends (Inr x)" "e \<noteq> Diverge \<Longrightarrow> ends (Inl e)" "ends r \<Longrightarrow> ends (assert_then b r)"
  by (simp_all add: ends_def assert_then_def)

lemma ends_bind [ends_rules]: "ends m \<Longrightarrow> (\<And>x. ends (f x)) \<Longrightarrow> ends (res_bind m f)"
  by (cases m) (auto simp: ends_def)

lemma ends_critical [ends_rules]: "(\<And>t. ends (body t)) \<Longrightarrow> ends (critical body s)"
  unfolding critical_def by (cases "disable_if s") (auto intro!: ends_rules)

lemma ends_for_find [ends_rules]: "(\<And>i. ends (test i)) \<Longrightarrow> ends (for_find test xs)"
  by (induction xs) (auto intro!: ends_rules)

lemma ends_elements [ends_rules]: "ends (get_element b i)" "ends (put_element b i w)"
  by (simp_all add: get_element_def put_element_def ends_def)

lemma ends_bitset [ends_rules]: "ends (bitset_test b i)" "ends (bitset_set b i)" "ends (bitset_find b v)"
  unfolding bitset_test_def bitset_set_def bitset_find_def find_element_def find_in_element_def Let_def
  by (auto intro!: ends_rules split: option.split)

lemma ends_pmm [ends_rules]: "ends (pmm_alloc s)" "ends (pmm_reserve page s)"
proof -
  have "ends (alloc_in rs)" for rs by (induction rs) (auto intro!: ends_rules)
  moreover have "ends (reserve_in page rs)" for rs by (induction rs) (auto intro!: ends_rules)
  ultimately show "ends (pmm_alloc s)" "ends (pmm_reserve page s)"
    unfolding pmm_alloc_def pmm_reserve_def by (auto intro!: ends_rules)
qed

lemma ends_memory [ends_rules]: "ends (load32 s va)" "ends (store32 s va w)" "ends (flush_tlb s)"
  unfolding load32_def store32_def flush_tlb_def by (auto intro!: ends_rules simp: translate_def Let_def)

lemma ends_bzero [ends_rules]: "ends (bzero_table va s)"
proof -
  have "ends (zero_words js va s)" for js by (induction js arbitrary: s) (auto intro!: ends_rules)
  then show ?thesis by (simp add: bzero_table_def)
qed

lemma ends_vmm_map [ends_rules]: "ends (vmm_map va pa fl s)"
  unfolding vmm_map_def vmm_map_body_def Let_def by (auto intro!: ends_rules)

lemma ends_grow_page: "ends (grow_page page s)"
  unfolding grow_page_def by (auto intro!: ends_rules)

lemma grow_loop_spec:
  assumes "unat page + 4096 * n = unat limit"
  shows "\<exists>res. grow_loop page limit acc s = Some res \<and> ends res \<and> (\<forall>a s'. res = Inr (a, s') \<longrightarrow>
    (\<exists>j\<le>n. a = acc + of_nat j * PAGE_SIZE \<and> blocks s' = blocks s \<and> canaries s' = canaries s
       \<and> kheap_addr s' = kheap_addr s
       \<and> kheap s' = (kheap s)\<lparr>heap_size := heap_size (kheap s) + of_nat j * PAGE_SIZE\<rparr>
       \<and> (j \<noteq> 0 \<longrightarrow> heap_size (kheap s) + of_nat (j - 1) * PAGE_SIZE < heap_max_size (kheap s))))"
  using assms
proof (induction n arbitrary: page acc s)
  case 0
  then show ?case by (subst grow_loop.simps) (auto simp: word_less_nat_alt intro: ends_rules)
next
  case (Suc n)
  have lt: "page < limit" using Suc.prems by (simp add: word_less_nat_alt)
  show ?case
  proof (cases "heap_size (kheap s) \<ge> heap_max_size (kheap s)")
    case True
    then show ?thesis using lt by (subst grow_loop.simps) (auto intro: ends_rules)
  next
    case False
    show ?thesis
    proof (cases "grow_page page s")
      case (Inl e)
      then show ?thesis using lt False ends_grow_page [of page s] by (subst grow_loop.simps) (simp add: ends_def)
    next
      case (Inr r)
      obtain ok s1 where r: "r = (ok, s1)" by (cases r)
      obtain m p where f: "s1 = s\<lparr>memregions := m, phys := p\<rparr>"
        using grow_page_frame [of page s ok s1] Inr r by (auto simp: only_pages_def)
      show ?thesis
      proof (cases ok)
        case True
        let ?s = "s1\<lparr>kheap := (kheap s1)\<lparr>heap_size := heap_size (kheap s1) + PAGE_SIZE\<rparr>\<rparr>"
        have "unat page + 4096 \<le> unat limit" using Suc.prems by simp
        then have "unat page + 4096 < 4294967296" using unat_lt32 by (rule le_less_trans)
        then have "unat (page + PAGE_SIZE) = unat page + 4096" by (subst unat_add32) (simp_all add: PAGE_SIZE_def)
        then have "unat (page + PAGE_SIZE) + 4096 * n = unat limit" using Suc.prems by simp
        from Suc.IH [OF this, of "acc + PAGE_SIZE" ?s]
        obtain res where res: "grow_loop (page + PAGE_SIZE) limit (acc + PAGE_SIZE) ?s = Some res" and en: "ends res" and R:
          "\<And>a s'. res = Inr (a, s') \<Longrightarrow> \<exists>j\<le>n. a = acc + PAGE_SIZE + of_nat j * PAGE_SIZE \<and> blocks s' = blocks ?s
             \<and> canaries s' = canaries ?s \<and> kheap_addr s' = kheap_addr ?s
             \<and> kheap s' = (kheap ?s)\<lparr>heap_size := heap_size (kheap ?s) + of_nat j * PAGE_SIZE\<rparr>
             \<and> (j \<noteq> 0 \<longrightarrow> heap_size (kheap ?s) + of_nat (j - 1) * PAGE_SIZE < heap_max_size (kheap ?s))"
          by blast
        have "grow_loop page limit acc s = Some res"
          using lt False Inr r True res by (subst grow_loop.simps) simp
        moreover have "\<exists>j\<le>Suc n. a = acc + of_nat j * PAGE_SIZE \<and> blocks s' = blocks s \<and> canaries s' = canaries s
             \<and> kheap_addr s' = kheap_addr s
             \<and> kheap s' = (kheap s)\<lparr>heap_size := heap_size (kheap s) + of_nat j * PAGE_SIZE\<rparr>
             \<and> (j \<noteq> 0 \<longrightarrow> heap_size (kheap s) + of_nat (j - 1) * PAGE_SIZE < heap_max_size (kheap s))" if eq: "res = Inr (a, s')" for a s'
        proof -
          obtain j where "j \<le> n" "a = acc + PAGE_SIZE + of_nat j * PAGE_SIZE" "blocks s' = blocks ?s"
            "canaries s' = canaries ?s" "kheap_addr s' = kheap_addr ?s"
            "kheap s' = (kheap ?s)\<lparr>heap_size := heap_size (kheap ?s) + of_nat j * PAGE_SIZE\<rparr>"
            "j \<noteq> 0 \<longrightarrow> heap_size (kheap ?s) + of_nat (j - 1) * PAGE_SIZE < heap_max_size (kheap ?s)"
            using R [OF eq] by blast
          then show ?thesis using f False
            by (intro exI [of _ "Suc j"]) (cases j; simp add: algebra_simps)
        qed
        ultimately show ?thesis using en by blast
      next
        case nok: False
        then show ?thesis using lt False Inr r f by (subst grow_loop.simps) (auto intro: ends_rules)
      qed
    qed
  qed
qed

text \<open>The heap gets longer and its last block becomes one or more blocks.\<close>

lemma heap_wf_extend:
  assumes wf: "heap_wf s (xs @ [l])" and zs: "zs \<noteq> []" "hd zs = l" "adj (blocks s') zs"
    and t: "tiles (blocks s') (unat l) zs (heap_end s') NULL"
    and fields: "heap_head (kheap s') = heap_head (kheap s)" "canaries s' = canaries s"
      "heap_end s' < 2 ^ 32" "4096 dvd heap_end s'"
    and xs: "\<And>b. b \<in> set xs \<Longrightarrow> blocks s' b = blocks s b"
    and l: "allocated (blocks s' l) = allocated (blocks s l)"
    and al: "\<And>b. b \<in> set zs \<Longrightarrow> allocated (blocks s' b) \<Longrightarrow> b = l \<and> hb_size (blocks s' l) = hb_size (blocks s l)"
  shows "heap_wf s' (xs @ zs) \<and> live s' (xs @ zs) = live s (xs @ [l])"
proof -
  have lz: "l \<in> set zs" using zs(1,2) by auto
  have hd: "hd (xs @ zs) = hd (xs @ [l])" using zs(1,2) by (cases xs) simp_all
  have t0: "tiles (blocks s) (unat (hd (xs @ [l]))) xs (unat l) l"
    using heap_wf_tiles [OF wf] by (auto simp: tiles_append)
  then have "tiles (blocks s') (unat (hd (xs @ [l]))) xs (unat l) l"
    by (subst tiles_cong [of xs "blocks s'" "blocks s"]) (simp_all add: xs)
  then have "tiles (blocks s') (unat (hd (xs @ zs))) (xs @ zs) (heap_end s') NULL"
    unfolding hd using t zs(1,2) by (cases zs) (auto simp: tiles_append)
  moreover have "adj (blocks s') (xs @ zs)"
  proof -
    have a: "adj (blocks s) (xs @ [l])" using wf by (simp add: heap_wf_def)
    then have "adj (blocks s') xs"
      using adj_cong [of xs "blocks s'" "blocks s"] xs by (simp add: successively_append_iff)
    moreover have "allocated (blocks s' (last xs)) \<or> allocated (blocks s' l)" if "xs \<noteq> []"
      using a xs [of "last xs"] l that by (simp add: successively_append_iff)
    ultimately show ?thesis using zs by (cases "xs = []") (simp_all add: successively_append_iff)
  qed
  moreover have char: "b \<in> set (xs @ zs) \<and> allocated (blocks s' b) \<longleftrightarrow> b \<in> set (xs @ [l]) \<and> allocated (blocks s b)" for b
  proof (cases "b = l \<or> b \<in> set xs")
    case True
    then show ?thesis using l lz xs [of b] by auto
  next
    case False
    then have "\<not> (b \<in> set zs \<and> allocated (blocks s' b))" using al [of b] by blast
    then show ?thesis using False by simp
  qed
  moreover have size: "hb_size (blocks s' b) = hb_size (blocks s b)" if "b \<in> set (xs @ [l])" "allocated (blocks s b)" for b
    using that xs [of b] al [OF lz] l by (cases "b = l") auto
  moreover have "canaries s' (canary_addr s' b) = CANARY \<and> 24 \<le> unat (hb_size (blocks s' b))"
    if "b \<in> set (xs @ zs)" "allocated (blocks s' b)" for b
  proof -
    have b: "b \<in> set (xs @ [l])" "allocated (blocks s b)" using that char [of b] by simp_all
    then show ?thesis using wf fields(2) size [OF b] by (auto simp: heap_wf_def canary_addr_def)
  qed
  ultimately have "heap_wf s' (xs @ zs)"
    using wf fields zs(1) hd by (simp add: heap_wf_def)
  moreover have "live s' (xs @ zs) = live s (xs @ [l])"
    unfolding live_def char by (rule image_cong) (use size in auto)
  ultimately show ?thesis by blast
qed

lemma header_upd [simp]:
  "allocated (h\<lparr>hb_next := x\<rparr>) = allocated h" "allocated (h\<lparr>hb_size := y\<rparr>) = allocated h"
  "valid_header (h\<lparr>hb_next := x\<rparr>) = valid_header h" "valid_header (h\<lparr>hb_size := y\<rparr>) = valid_header h"
  by (simp_all add: allocated_def valid_header_def)

text \<open>Appending \<open>n\<close> pages behind the last block: a new block, or a longer last block if that is free.\<close>

lemma heap_extend_spec:
  assumes wf: "heap_wf s (xs @ [l])" and n: "0 < n" "heap_end s + 4096 * n < 4294967296"
    and s': "blocks s' = blocks s" "canaries s' = canaries s" "kheap_addr s' = kheap_addr s"
      "kheap s' = (kheap s)\<lparr>heap_size := heap_size (kheap s) + of_nat n * PAGE_SIZE\<rparr>"
    and e: "unat e = heap_end s"
    and s2: "s2 = upd_block l (\<lambda>h. h\<lparr>hb_next := e\<rparr>) (create_block e (of_nat n * PAGE_SIZE) s')"
  shows "if allocated (blocks s l) then heap_wf s2 (xs @ [l, e]) \<and> live s2 (xs @ [l, e]) = live s (xs @ [l])
    else \<exists>s3. merge_blocks l e s2 = Inr (l, s3) \<and> heap_wf s3 (xs @ [l]) \<and> live s3 (xs @ [l]) = live s (xs @ [l])
        \<and> kheap s3 = kheap s'"
proof -
  have t: "tiles (blocks s) (unat (hd (xs @ [l]))) (xs @ [l]) (heap_end s) NULL" using wf by (rule heap_wf_tiles)
  then have l: "good_header (blocks s l)" "hb_next (blocks s l) = NULL"
      "unat l + unat (hb_size (blocks s l)) = heap_end s"
    by (auto simp: tiles_append)
  have g: "16 \<le> unat (hb_size (blocks s l))" "valid_header (blocks s l)" using l(1) by (simp_all add: good_header_def)
  have "n < 1048576" using n(2) by simp
  then have u: "unat (of_nat n * PAGE_SIZE :: u32) = 4096 * n"
    by (simp add: PAGE_SIZE_def unat_word_ariths unat_of_nat)
  have end': "heap_end s' = heap_end s + 4096 * n"
    using s'(3,4) u n(2) by (simp add: unat_word_ariths(1))
  have out: "e \<notin> set (xs @ [l])"
    using heap_wf_end [OF wf, of e] heap_wf_good [OF wf, of e] e by (auto simp: good_header_def)
  have d: "distinct (xs @ [l])" using t by (rule tiles_distinct)
  have le: "l \<noteq> e" "e \<noteq> l" using out by auto
  have b2: "blocks s2 l = (blocks s l)\<lparr>hb_next := e\<rparr>" "blocks s2 e = free_header (of_nat n * PAGE_SIZE) NULL"
      "\<And>b. b \<in> set xs \<Longrightarrow> blocks s2 b = blocks s b"
    using le s'(1) out d by (auto simp: s2 upd_block_def create_block_def free_header_def)
  have k2: "kheap s2 = kheap s'" "kheap_addr s2 = kheap_addr s" "canaries s2 = canaries s"
    using s' by (simp_all add: s2 upd_block_def create_block_def)
  have fields: "heap_head (kheap s2) = heap_head (kheap s)" and end2: "heap_end s2 = heap_end s + 4096 * n"
    using k2 s' end' by simp_all
  have bnd: "heap_end s2 < 2 ^ 32" "4096 dvd heap_end s2"
    unfolding end2 using n(2) wf by (simp_all add: heap_wf_def)
  show ?thesis
  proof (cases "allocated (blocks s l)")
    case True
    have "heap_wf s2 (xs @ [l, e]) \<and> live s2 (xs @ [l, e]) = live s (xs @ [l])"
    proof (rule heap_wf_extend [OF wf _ _ _ _ fields k2(3) bnd b2(3)])
      show "tiles (blocks s2) (unat l) [l, e] (heap_end s2) NULL"
        unfolding end2 using b2(1,2) l g e u n by (simp add: good_header_def)
    qed (use True b2(1,2) in auto)
    then show ?thesis using True by simp
  next
    case False
    define s3 where "s3 = upd_block l (\<lambda>h. h\<lparr>hb_size := hb_size h + hb_size (blocks s2 e), hb_next := hb_next (blocks s2 e)\<rparr>) s2"
    have "hb_magic (blocks s l) = MAGIC_FREE" using g(2) False by (simp add: valid_header_def allocated_def)
    moreover have "l < e" using e l(3) g by (simp add: word_less_nat_alt)
    ultimately have m: "merge_blocks l e s2 = Inr (l, s3)" by (simp add: merge_blocks_def s3_def b2)
    have us: "unat (hb_size (blocks s l) + of_nat n * PAGE_SIZE) = unat (hb_size (blocks s l)) + 4096 * n"
      using u l(3) n(2) by (subst unat_add32) simp_all
    have b3: "blocks s3 l = (blocks s l)\<lparr>hb_size := hb_size (blocks s l) + of_nat n * PAGE_SIZE, hb_next := NULL\<rparr>"
        "\<And>b. b \<in> set xs \<Longrightarrow> blocks s3 b = blocks s b" "kheap s3 = kheap s2" "kheap_addr s3 = kheap_addr s2"
        "canaries s3 = canaries s2"
      using b2 d by (auto simp: s3_def upd_block_def)
    have "heap_wf s3 (xs @ [l]) \<and> live s3 (xs @ [l]) = live s (xs @ [l])"
    proof (rule heap_wf_extend [OF wf])
      show "tiles (blocks s3) (unat l) [l] (heap_end s3) NULL"
        unfolding b3(3,4) end2 using b3(1) l g us by (simp add: good_header_def)
    qed (use False b3 fields bnd k2(3) in auto)
    then show ?thesis using m False b3(3) k2(1) by simp
  qed
qed

text \<open>The pages the loop of \<open>heap_grow\<close> adds.\<close>

definition grown :: "'a heap_state_scheme \<Rightarrow> nat \<Rightarrow> u32 \<Rightarrow> 'a heap_state_scheme \<Rightarrow> bool" where
  "grown s j a s' \<longleftrightarrow> a = of_nat j * PAGE_SIZE \<and> blocks s' = blocks s \<and> canaries s' = canaries s
     \<and> kheap_addr s' = kheap_addr s
     \<and> kheap s' = (kheap s)\<lparr>heap_size := heap_size (kheap s) + of_nat j * PAGE_SIZE\<rparr>
     \<and> (j \<noteq> 0 \<longrightarrow> heap_size (kheap s) + of_nat (j - 1) * PAGE_SIZE < heap_max_size (kheap s))"

lemma grow_pages:
  assumes "unat e = heap_end s" "heap_end s < 4294967296" "4096 dvd unat A"
  shows "\<exists>res. grow_loop e (e + A) 0 s = Some res \<and> ends res \<and>
    (\<forall>a s'. res = Inr (a, s') \<longrightarrow> (\<exists>j. heap_end s + 4096 * j < 4294967296 \<and> grown s j a s'))"
proof (cases "heap_end s + unat A < 4294967296")
  case True
  obtain n where n: "unat A = 4096 * n" using assms(3) by (auto simp: dvd_def)
  have "unat (e + A) = unat e + unat A" using True assms(1) by (intro unat_add32) simp
  then have "unat e + 4096 * n = unat (e + A)" using n by simp
  from grow_loop_spec [OF this, of 0 s]
  obtain res where res: "grow_loop e (e + A) 0 s = Some res" "\<And>a s'. res = Inr (a, s') \<Longrightarrow> \<exists>j\<le>n. grown s j a s'" "ends res"
    by (auto simp: grown_def)
  have "\<exists>j. heap_end s + 4096 * j < 4294967296 \<and> grown s j a s'" if R: "res = Inr (a, s')" for a s'
  proof -
    obtain j where "j \<le> n" "grown s j a s'" using res(2) [OF R] by blast
    moreover from this(1) have "heap_end s + 4096 * j < 4294967296" using True n by linarith
    ultimately show ?thesis by blast
  qed
  with res(1,3) show ?thesis by blast
next
  case False
  have "unat (e + A) = (unat e + unat A) mod 4294967296" by (simp add: unat_word_ariths)
  also have "\<dots> = unat e + unat A - 4294967296"
    using False assms(1) add_strict_mono [OF unat_lt32 [of e] unat_lt32 [of A]]
    by (subst le_mod_geq) simp_all
  also have "\<dots> \<le> unat e" using unat_lt32 [of A] by linarith
  finally have "\<not> e < e + A" by (simp only: word_less_nat_alt not_less)
  then have "grow_loop e (e + A) 0 s = Some (Inr (0, s))" by (subst grow_loop.simps) simp
  moreover have "grown s 0 0 s" by (simp add: grown_def)
  ultimately show ?thesis using assms(2) by (auto intro!: exI [of _ 0] ends_rules)
qed

lemma grown_sizes:
  assumes "grown s j a s'" "heap_end s + 4096 * j < 4294967296"
  shows "unat a = 4096 * j" "unat (heap_size (kheap s')) = unat (heap_size (kheap s)) + 4096 * j"
    and "j \<noteq> 0 \<Longrightarrow> unat (heap_size (kheap s)) + 4096 * (j - 1) < unat (heap_max_size (kheap s))"
proof -
  have u: "unat (of_nat i * PAGE_SIZE :: u32) = 4096 * i" if "i \<le> j" for i
  proof -
    have "i < 1048576" using assms(2) that by simp
    then show ?thesis by (simp add: PAGE_SIZE_def unat_word_ariths unat_of_nat)
  qed
  have us: "unat (heap_size (kheap s) + of_nat i * PAGE_SIZE) = unat (heap_size (kheap s)) + 4096 * i" if "i \<le> j" for i
    using assms(2) that u [OF that] by (subst unat_add32) simp_all
  show "unat a = 4096 * j" using assms(1) u by (simp add: grown_def)
  show "unat (heap_size (kheap s')) = unat (heap_size (kheap s)) + 4096 * j"
    using assms(1) us [of j] by (simp add: grown_def)
  show "unat (heap_size (kheap s)) + 4096 * (j - 1) < unat (heap_max_size (kheap s))" if "j \<noteq> 0"
    using assms(1) us [of "j - 1"] that by (simp add: grown_def word_less_nat_alt)
qed

text \<open>The three outcomes of \<open>heap_grow\<close>.\<close>

definition grows :: "'a heap_state_scheme \<Rightarrow> u32 list \<Rightarrow> 'a heap_state_scheme \<Rightarrow> u32 list \<Rightarrow> bool" where
  "grows s bs s' bs' \<longleftrightarrow> heap_wf s' bs' \<and> live s' bs' = live s bs \<and> kheap_addr s' = kheap_addr s
     \<and> heap_lock_word (kheap s') = heap_lock_word (kheap s)
     \<and> heap_max_size (kheap s') = heap_max_size (kheap s)
     \<and> unat (heap_size (kheap s)) < unat (heap_size (kheap s'))
     \<and> unat (heap_size (kheap s')) < unat (heap_max_size (kheap s)) + 4096
     \<and> unat (heap_size (kheap s)) < unat (heap_max_size (kheap s))"

lemma grown_grows:
  assumes wf: "heap_wf s (xs @ [l])" and g: "grown s j a s1" "heap_end s + 4096 * j < 4294967296" "j \<noteq> 0"
    and e: "unat e = heap_end s" and s2: "s2 = upd_block l (\<lambda>h. h\<lparr>hb_next := e\<rparr>) (create_block e a s1)"
  shows "if allocated (blocks s l) then grows s (xs @ [l]) s2 (xs @ [l, e])
    else \<exists>s3. merge_blocks l e s2 = Inr (l, s3) \<and> grows s (xs @ [l]) s3 (xs @ [l])"
proof -
  note z = grown_sizes [OF g(1,2)]
  have f: "blocks s1 = blocks s" "canaries s1 = canaries s" "kheap_addr s1 = kheap_addr s"
      "kheap s1 = (kheap s)\<lparr>heap_size := heap_size (kheap s) + of_nat j * PAGE_SIZE\<rparr>" "a = of_nat j * PAGE_SIZE"
    using g(1) by (simp_all add: grown_def)
  have size: "unat (heap_size (kheap s)) < unat (heap_size (kheap s1))"
      "unat (heap_size (kheap s1)) < unat (heap_max_size (kheap s)) + 4096"
      "unat (heap_size (kheap s)) < unat (heap_max_size (kheap s))"
    using z(2) z(3) [OF g(3)] g(3) by linarith+
  have ext: "if allocated (blocks s l) then heap_wf s2 (xs @ [l, e]) \<and> live s2 (xs @ [l, e]) = live s (xs @ [l])
    else \<exists>s3. merge_blocks l e s2 = Inr (l, s3) \<and> heap_wf s3 (xs @ [l]) \<and> live s3 (xs @ [l]) = live s (xs @ [l])
        \<and> kheap s3 = kheap s1"
    by (rule heap_extend_spec [OF wf _ g(2) f(1-4) e]) (use g(3) s2 f(5) in simp_all)
  have k2: "kheap s2 = kheap s1" "kheap_addr s2 = kheap_addr s"
    using f(3) by (simp_all add: s2 upd_block_def create_block_def)
  have "kheap_addr s3 = kheap_addr s" if "merge_blocks l e s2 = Inr (l, s3)" for s3
    using that k2(2) by (auto simp: merge_blocks_def res_simps upd_block_def)
  then show ?thesis using ext k2 size f(4) by (auto simp: grows_def)
qed

lemma heap_grow_spec:
  assumes wf: "heap_wf s (xs @ [l])"
  shows "(\<exists>e. heap_grow sz s = Inl e \<and> e \<noteq> Diverge)
    \<or> (\<exists>s'. heap_grow sz s = Inr (NULL, s') \<and> heap_wf s' (xs @ [l]) \<and> live s' (xs @ [l]) = live s (xs @ [l])
         \<and> kheap s' = kheap s \<and> kheap_addr s' = kheap_addr s)
    \<or> (\<exists>r s' bs'. heap_grow sz s = Inr (r, s') \<and> r \<noteq> NULL \<and> grows s (xs @ [l]) s' bs')"
proof -
  have t: "tiles (blocks s) (unat (hd (xs @ [l]))) (xs @ [l]) (heap_end s) NULL" using wf by (rule heap_wf_tiles)
  have ln: "l \<noteq> NULL" "is_valid_block s l" "last_block s = Inr l"
    using heap_wf_nonnull [OF wf, of l] heap_wf_valid [OF wf, of l] last_block_eq [OF wf] by simp_all
  have lt: "heap_end s < 4294967296" "4096 dvd heap_end s" using wf by (simp_all add: heap_wf_def)
  define e where "e = l + hb_size (blocks s l)"
  have e: "unat e = heap_end s"
    unfolding e_def using t lt(1) by (subst unat_add32) (auto simp: tiles_append)
  have en: "e \<noteq> NULL" using e heap_wf_end [OF wf, of l] ln(1) by (auto simp: unat_eq_0)
  have "PAGE_SIZE - 1 = mask 12" by (simp add: PAGE_SIZE_def mask_eq_exp_minus_1)
  then have A: "4096 dvd unat (ALIGN sz PAGE_SIZE)"
    using unat_and_not_mask [of "sz + (PAGE_SIZE - 1)" 12] by (simp add: ALIGN_def)
  from grow_pages [OF e lt(1) A] obtain res where res: "grow_loop e (e + ALIGN sz PAGE_SIZE) 0 s = Some res"
    "\<And>a s'. res = Inr (a, s') \<Longrightarrow> \<exists>j. heap_end s + 4096 * j < 4294967296 \<and> grown s j a s'" "ends res" by blast
  have run: "heap_grow sz s = res_bind res (\<lambda>(allocated, s).
        if allocated \<noteq> 0 then
          let s2 = upd_block l (\<lambda>h. h\<lparr>hb_next := e\<rparr>) (create_block e allocated s)
          in res_bind (heap_is_free s2 l) (\<lambda>f. if f then merge_blocks l e s2 else Inr (e, s2))
        else Inr (NULL, s))"
    unfolding heap_grow_def Let_def ln(3) res_bind_Inr e_def [symmetric]
    using ln(1) res(1) e lt(2) by (simp add: page_aligned_iff)
  show ?thesis
  proof (cases res)
    case (Inl f)
    then show ?thesis using run res(3) by (simp add: ends_def)
  next
    case (Inr as)
    obtain a s1 where as: "as = (a, s1)" by (cases as)
    obtain j where j: "heap_end s + 4096 * j < 4294967296" "grown s j a s1" using res(2) Inr as by blast
    have a0: "a = 0 \<longleftrightarrow> j = 0" using grown_sizes(1) [OF j(2,1)] by (auto simp: unat_eq_0)
    show ?thesis
    proof (cases "j = 0")
      case True
      then have "heap_grow sz s = Inr (NULL, s1)" using run Inr as a0 by simp
      moreover have "heap_wf s1 (xs @ [l])" "kheap s1 = kheap s" "kheap_addr s1 = kheap_addr s" "blocks s1 = blocks s"
        using wf j(2) True by (simp_all add: grown_def heap_wf_def canary_addr_def)
      ultimately show ?thesis by (auto simp: live_def)
    next
      case False
      define s2 where "s2 = upd_block l (\<lambda>h. h\<lparr>hb_next := e\<rparr>) (create_block e a s1)"
      have "l \<noteq> e" using e heap_wf_end [OF wf, of l] heap_wf_good [OF wf, of l] by (auto simp: good_header_def e_def)
      then have "blocks s2 l = (blocks s l)\<lparr>hb_next := e\<rparr>"
        using j(2) by (simp add: s2_def upd_block_def create_block_def grown_def)
      then have "heap_grow sz s = (if allocated (blocks s l) then Inr (e, s2) else merge_blocks l e s2)"
        using run Inr as a0 False ln(2) by (simp add: s2_def [symmetric] heap_is_free_eq is_valid_block_def)
      then show ?thesis using grown_grows [OF wf j(2,1) False e s2_def] en ln(1) by (auto split: if_splits)
    qed
  qed
qed

section \<open>Allocation as a whole\<close>

definition alloc_ok :: "u32 \<Rightarrow> nat \<Rightarrow> 'a heap_state_scheme \<Rightarrow> bool" where
  "alloc_ok sz k s \<longleftrightarrow>
     k < 32 \<and> unat (kheap_addr s) + unat (heap_max_size (kheap s)) + 4096 + 32 + 2 ^ k < 2 ^ 32
     \<and> unat (heap_size (kheap s)) < unat (heap_max_size (kheap s)) + 4096
     \<and> 8 \<le> unat sz \<and> unat sz + 48 < 2 ^ 32 \<and> 2 ^ k \<le> unat sz + 1"

lemma same_bounds_trans: "same_bounds s t \<Longrightarrow> same_bounds t u \<Longrightarrow> same_bounds s u"
  by (simp add: same_bounds_def)

lemma alloc_ok_request: "alloc_ok sz k s \<Longrightarrow> request_ok sz k s"
  by (simp add: alloc_ok_def request_ok_def)

lemma delivers_cong:
  "live s bs = live t cs \<Longrightarrow> same_bounds t s \<Longrightarrow> delivers sz k s bs r s' \<Longrightarrow> delivers sz k t cs r s'"
  using same_bounds_trans [of t s s'] by (simp add: delivers_def)

lemma delivers_nonnull: "delivers sz k s bs r s' \<Longrightarrow> r \<noteq> NULL"
  using heap_wf_nonnull by (auto simp: delivers_def)

definition alloc_result :: "u32 \<Rightarrow> nat \<Rightarrow> 'a heap_state_scheme \<Rightarrow> u32 list \<Rightarrow> u32 \<Rightarrow> 'a heap_state_scheme \<Rightarrow> bool" where
  "alloc_result sz k s bs r s' \<longleftrightarrow>
     (if r = NULL then (\<exists>bs'. heap_wf s' bs' \<and> live s' bs' = live s bs)
        \<and> heap_lock_word (kheap s') = 0 \<and> same_bounds s s'
      else delivers sz k s bs r s')"

lemma alloc_result_cong:
  "live s bs = live t cs \<Longrightarrow> same_bounds t s \<Longrightarrow> alloc_result sz k s bs r s' \<Longrightarrow> alloc_result sz k t cs r s'"
  using delivers_cong [of s bs t cs sz k r s'] same_bounds_trans [of t s s']
  by (auto simp: alloc_result_def split: if_splits)

lemma alloc_loop_spec:
  assumes "heap_wf s bs" "heap_lock_word (kheap s) = 1" "alloc_ok sz k s" "canary_fits sz k"
  shows "\<exists>res. alloc_loop sz (2 ^ k) s = Some res \<and> ends res \<and> (\<forall>r s'. res = Inr (r, s') \<longrightarrow> alloc_result sz k s bs r s')"
  using assms
proof (induction "unat (heap_max_size (kheap s)) - unat (heap_size (kheap s))" arbitrary: s bs rule: less_induct)
  case less
  note wf = less.prems(1) and lk = less.prems(2)
  from alloc_walk_spec [OF wf lk alloc_ok_request [OF less.prems(3)] less.prems(4)]
  consider (none) "alloc_walk sz (2 ^ k) (heap_head (kheap s)) s = Some (Inr (None, s))"
    | (found) r s' where "alloc_walk sz (2 ^ k) (heap_head (kheap s)) s = Some (Inr (Some r, s'))" "delivers sz k s bs r s'"
    by blast
  then show ?case
  proof cases
    case found
    then show ?thesis
      using delivers_nonnull [OF found(2)] by (subst alloc_loop.simps) (simp add: alloc_result_def ends_def)
  next
    case none
    obtain xs l where bs: "bs = xs @ [l]" using wf by (metis append_butlast_last_id heap_wf_def)
    from heap_grow_spec [OF wf [unfolded bs], of sz]
    consider (fault) e where "heap_grow sz s = Inl e" "e \<noteq> Diverge"
      | (full) s' where "heap_grow sz s = Inr (NULL, s')" "heap_wf s' bs" "live s' bs = live s bs" "kheap s' = kheap s" "kheap_addr s' = kheap_addr s"
      | (more) r s' bs' where "heap_grow sz s = Inr (r, s')" "r \<noteq> NULL" "grows s bs s' bs'"
      using bs by blast
    then show ?thesis
    proof cases
      case fault
      then show ?thesis using none by (subst alloc_loop.simps) (simp add: ends_def)
    next
      case full
      let ?s = "s'\<lparr>kheap := (kheap s')\<lparr>heap_lock_word := 0\<rparr>\<rparr>"
      have "heap_wf ?s bs" "live ?s bs = live s bs"
        using full(2,3) by (simp_all add: heap_wf_def canary_addr_def live_def)
      then show ?thesis using none full(1,4,5) lk
        by (subst alloc_loop.simps) (auto simp: unlock_return_eq alloc_result_def same_bounds_def ends_def)
    next
      case more
      have g: "heap_wf s' bs'" "live s' bs' = live s bs" "heap_lock_word (kheap s') = 1" "alloc_ok sz k s'"
        "unat (heap_max_size (kheap s')) - unat (heap_size (kheap s'))
           < unat (heap_max_size (kheap s)) - unat (heap_size (kheap s))"
        using more(3) lk less.prems(3) by (simp_all add: grows_def alloc_ok_def diff_less_mono2)
      have "same_bounds s s'" using more(3) by (simp add: grows_def same_bounds_def)
      then show ?thesis using less.hyps [OF g(5,1,3,4) less.prems(4)] none more(1,2) alloc_result_cong [OF g(2)]
        by (subst alloc_loop.simps) auto
    qed
  qed
qed

lemma heap_lock_eq:
  "heap_lock_word (kheap s) = 0 \<Longrightarrow> heap_lock s = (True, s\<lparr>kheap := (kheap s)\<lparr>heap_lock_word := 1\<rparr>\<rparr>)"
  by (simp add: heap_lock_def spinlock_try_lock_def cmpxchg_def)

lemma heap_alloc_block_aligned_result:
  assumes "heap_wf s bs" "heap_lock_word (kheap s) = 0" "alloc_ok (sz + 8) k s" "canary_fits (sz + 8) k"
  shows "\<exists>res. heap_alloc_block_aligned sz (2 ^ k) s = res
    \<and> (\<exists>x. alloc_loop (sz + 8) (2 ^ k) (s\<lparr>kheap := (kheap s)\<lparr>heap_lock_word := 1\<rparr>\<rparr>) = Some x \<and> res = x)
    \<and> (\<forall>r s'. res = Inr (r, s') \<longrightarrow> alloc_result (sz + 8) k s bs r s')"
proof -
  let ?s = "s\<lparr>kheap := (kheap s)\<lparr>heap_lock_word := 1\<rparr>\<rparr>"
  have l: "live ?s bs = live s bs" by (simp add: live_def)
  have "same_bounds s ?s" by (simp add: same_bounds_def)
  note c = alloc_result_cong [OF l this]
  have "heap_wf ?s bs" using assms(1) by (simp add: heap_wf_def canary_addr_def)
  moreover have "alloc_ok (sz + 8) k ?s" using assms(3) by (simp add: alloc_ok_def)
  ultimately show ?thesis
    using alloc_loop_spec [of ?s bs "sz + 8" k] assms(4) c heap_lock_eq [OF assms(2)]
    by (auto simp: heap_alloc_block_aligned_def)
qed

end
