(* ===== verification/HeapFree.thy ===== *)
theory HeapFree
  imports HeapGrow
begin

text \<open>
  Releasing blocks (\<open>heap_free_block\<close> with its two coalescing steps), the fresh heap of
  \<open>heap_init\<close>, and the properties of the allocator over any sequence of requests.
\<close>

section \<open>Release\<close>

text \<open>The invariant without the condition on free neighbours, which holds between the steps of a release.\<close>

definition heap_loose :: "'a heap_state_scheme \<Rightarrow> u32 list \<Rightarrow> bool" where
  "heap_loose s bs \<longleftrightarrow>
     bs \<noteq> [] \<and> heap_head (kheap s) = hd bs \<and> 0 < unat (hd bs)
     \<and> unat (kheap_addr s) + unat (heap_size (kheap s)) < 2 ^ 32
     \<and> tiles (blocks s) (unat (hd bs)) bs (unat (kheap_addr s) + unat (heap_size (kheap s))) NULL
     \<and> 4096 dvd unat (kheap_addr s) + unat (heap_size (kheap s))
     \<and> (\<forall>b\<in>set bs. allocated (blocks s b) \<longrightarrow>
          canaries s (canary_addr s b) = CANARY \<and> 24 \<le> unat (hb_size (blocks s b)))"

lemma heap_wf_iff: "heap_wf s bs \<longleftrightarrow> heap_loose s bs \<and> adj (blocks s) bs"
  by (auto simp: heap_wf_def heap_loose_def)

lemma heap_loose_tiles:
  "heap_loose s bs \<Longrightarrow> tiles (blocks s) (unat (hd bs)) bs (heap_end s) NULL"
  by (simp add: heap_loose_def)

lemma heap_loose_distinct: "heap_loose s bs \<Longrightarrow> distinct bs"
  by (rule tiles_distinct [OF heap_loose_tiles])

lemma heap_loose_nonnull: "heap_loose s bs \<Longrightarrow> b \<in> set bs \<Longrightarrow> b \<noteq> NULL"
  using tiles_range(1) [OF heap_loose_tiles, of s bs b] by (auto simp: heap_loose_def)

lemma heap_loose_suffix: "heap_loose s bs \<Longrightarrow> suffix_of s bs"
  using heap_loose_nonnull heap_loose_tiles by (fastforce simp: suffix_of_def)

lemma heap_loose_good: "heap_loose s bs \<Longrightarrow> b \<in> set bs \<Longrightarrow> good_header (blocks s b)"
  by (rule tiles_range(3) [OF heap_loose_tiles])

lemma heap_loose_valid: "heap_loose s bs \<Longrightarrow> b \<in> set bs \<Longrightarrow> is_valid_block s b"
  using heap_loose_good heap_loose_nonnull by (auto simp: good_header_def is_valid_block_def)

lemma prev_block_loose:
  assumes "heap_loose s (xs @ b # ys)"
  shows "prev_block s b = Inr (last_or xs NULL)"
proof (cases xs rule: rev_cases)
  case Nil
  then show ?thesis
    using assms heap_loose_valid [OF assms, of b] by (simp add: prev_block_def heap_loose_def)
next
  case (snoc xs' p)
  have d: "distinct (xs' @ p # b # ys)" using heap_loose_distinct [OF assms] snoc by simp
  have "hd (xs @ b # ys) = first_or (xs' @ [p]) NULL" using snoc by (cases xs') auto
  then have h: "heap_head (kheap s) = first_or (xs' @ [p]) NULL" using assms by (simp add: heap_loose_def)
  moreover have "first_or (xs' @ [p]) NULL \<noteq> b" using d by (cases xs') auto
  moreover have "prev_loop s b (first_or (xs' @ [p]) NULL) = Some (Inr p)"
    using prev_loop_eq [of s xs' p b ys] heap_loose_suffix [OF assms] d snoc by simp
  ultimately show ?thesis
    using heap_loose_valid [OF assms, of b] snoc by (simp add: prev_block_def)
qed

lemma free_magic: "valid_header h \<Longrightarrow> \<not> allocated h \<Longrightarrow> hb_magic h = MAGIC_FREE"
  by (auto simp: valid_header_def allocated_def)

lemma allocated_magic: "valid_header h \<Longrightarrow> allocated h \<Longrightarrow> hb_magic h = MAGIC_ALLOCATED"
  by (auto simp: valid_header_def allocated_def)

text \<open>\<open>same_live s bs t cs\<close>: \<open>t\<close> has the same live blocks as \<open>s\<close>, in the tiling \<open>cs\<close>.\<close>

definition same_live :: "'a heap_state_scheme \<Rightarrow> u32 list \<Rightarrow> 'a heap_state_scheme \<Rightarrow> u32 list \<Rightarrow> bool" where
  "same_live s bs t cs \<longleftrightarrow> heap_loose t cs \<and> live t cs = live s bs \<and> kheap t = kheap s \<and> kheap_addr t = kheap_addr s"

lemma merged_tiles:
  assumes "tiles H a (xs @ p # q # ys) e NULL" "e < 2 ^ 32"
    and H': "H' = H(p := (H p)\<lparr>hb_size := hb_size (H p) + hb_size (H q), hb_next := hb_next (H q)\<rparr>)"
  shows "tiles H' a (xs @ p # ys) e NULL"
proof -
  obtain m where m: "tiles H a xs m p" "unat p = m" "good_header (H p)" "hb_next (H p) = q"
      "unat q = m + unat (hb_size (H p))" "good_header (H q)" "hb_next (H q) = first_or ys NULL"
      "tiles H (m + unat (hb_size (H p)) + unat (hb_size (H q))) ys e NULL"
    using assms(1) by (auto simp: tiles_append)
  have "unat q + unat (hb_size (H q)) \<le> e" using tiles_le [OF m(8)] m(5) by simp
  then have sz: "unat (hb_size (H p) + hb_size (H q)) = unat (hb_size (H p)) + unat (hb_size (H q))"
    using m(5) assms(2) by (intro unat_add32) simp
  have "p \<notin> set xs \<union> set ys" using tiles_distinct [OF assms(1)] by auto
  then have "tiles H' a xs m p" "tiles H' (m + unat (hb_size (H p)) + unat (hb_size (H q))) ys e NULL"
    using m(1,8) by (simp_all add: H' tiles_upd_other)
  moreover have "good_header (H' p)"
    using m(3) sz H' by (simp add: good_header_def valid_header_def)
  ultimately show ?thesis
    using m sz H' by (auto simp: tiles_append add.assoc intro!: exI [of _ m])
qed

lemma merge_step:
  assumes wf: "heap_loose s (xs @ p # q # ys)" and fr: "\<not> allocated (blocks s p)" "\<not> allocated (blocks s q)"
  obtains t where "merge_blocks p q s = Inr (p, t)" "same_live s (xs @ p # q # ys) t (xs @ p # ys)"
    "\<not> allocated (blocks t p)" "\<And>b. b \<noteq> p \<Longrightarrow> blocks t b = blocks s b"
proof -
  let ?h = "(blocks s p)\<lparr>hb_size := hb_size (blocks s p) + hb_size (blocks s q), hb_next := hb_next (blocks s q)\<rparr>"
  let ?t = "s\<lparr>blocks := (blocks s)(p := ?h)\<rparr>"
  have good: "good_header (blocks s p)" "good_header (blocks s q)" using heap_loose_good [OF wf] by auto
  then have magic: "hb_magic (blocks s p) = hb_magic (blocks s q)"
    using fr free_magic by (simp add: good_header_def)
  have lt: "p < q"
    using tiles_sorted [OF heap_loose_tiles [OF wf]] good(1)
    by (simp add: sorted_wrt_append good_header_def word_less_nat_alt)
  have fp: "\<not> allocated ?h" using fr(1) by (simp add: allocated_def)
  have "heap_end s < 2 ^ 32" using wf by (simp add: heap_loose_def)
  then have "tiles (blocks ?t) (unat (hd (xs @ p # q # ys))) (xs @ p # ys) (heap_end s) NULL"
    using merged_tiles [OF heap_loose_tiles [OF wf]] by simp
  moreover have "hd (xs @ p # q # ys) = hd (xs @ p # ys)" by (cases xs) auto
  ultimately have "heap_loose ?t (xs @ p # ys)"
    using wf fp by (auto simp: heap_loose_def canary_addr_def)
  moreover have "live ?t (xs @ p # ys) = live s (xs @ p # q # ys)"
    using fr fp by (auto simp: live_def image_iff)
  ultimately have "same_live s (xs @ p # q # ys) ?t (xs @ p # ys)" by (simp add: same_live_def)
  moreover have "merge_blocks p q s = Inr (p, ?t)"
    using lt magic by (simp add: merge_blocks_def upd_block_def)
  ultimately show thesis using that [of ?t] fp by simp
qed

lemma coalesce_prev_spec:
  assumes wf: "heap_loose s (xs @ b # ys)" and fr: "\<not> allocated (blocks s b)"
    and adj: "adj (blocks s) xs" "adj (blocks s) ys"
  obtains c t xs' where "coalesce_prev b s = Inr (c, t)" "same_live s (xs @ b # ys) t (xs' @ c # ys)"
    "\<not> allocated (blocks t c)" "adj (blocks t) xs'" "adj (blocks t) ys"
    "xs' = [] \<or> allocated (blocks t (last xs'))"
proof (cases "xs = [] \<or> allocated (blocks s (last xs))")
  case True
  have "coalesce_prev b s = Inr (b, s)"
  proof (cases xs rule: rev_cases)
    case Nil
    then show ?thesis using prev_block_loose [OF wf] by (simp add: coalesce_prev_def)
  next
    case (snoc xs' p)
    then show ?thesis
      using True prev_block_loose [OF wf] heap_is_free_eq [OF heap_loose_valid [OF wf, of p]]
      by (simp add: coalesce_prev_def)
  qed
  then show thesis using that [of b s xs] wf fr adj True by (simp add: same_live_def)
next
  case False
  then obtain xs' p where xs: "xs = xs' @ [p]" and p: "\<not> allocated (blocks s p)"
    by (cases xs rule: rev_cases) auto
  have wf': "heap_loose s (xs' @ p # b # ys)" using wf xs by simp
  obtain t where t: "merge_blocks p b s = Inr (p, t)" "same_live s (xs' @ p # b # ys) t (xs' @ p # ys)"
      "\<not> allocated (blocks t p)" "\<And>b. b \<noteq> p \<Longrightarrow> blocks t b = blocks s b"
    using merge_step [OF wf' p fr] by blast
  have d: "distinct (xs' @ p # b # ys)" using heap_loose_distinct [OF wf'] .
  have same: "blocks t x = blocks s x" if "x \<in> set xs' \<union> set ys" for x
    using d that by (intro t(4)) auto
  have "adj (blocks t) xs'" "adj (blocks t) ys"
    using adj adj_cong [of xs' "blocks t" "blocks s"] adj_cong [of ys "blocks t" "blocks s"] same xs
    by (auto simp: successively_append_iff)
  moreover have "xs' = [] \<or> allocated (blocks t (last xs'))"
    using adj(1) xs p same [of "last xs'"] by (cases "xs' = []") (auto simp: successively_append_iff)
  moreover have "p \<noteq> NULL" using heap_loose_nonnull [OF wf'] by simp
  then have "coalesce_prev b s = Inr (p, t)"
    using xs p t(1) prev_block_loose [OF wf] heap_is_free_eq [OF heap_loose_valid [OF wf', of p]]
    by (simp add: coalesce_prev_def)
  ultimately show thesis using that [of p t xs'] t(2,3) xs by simp
qed

lemma coalesce_next_spec:
  assumes wf: "heap_loose s (xs @ b # ys)" and fr: "\<not> allocated (blocks s b)"
    and adj: "adj (blocks s) xs" "adj (blocks s) ys" "xs = [] \<or> allocated (blocks s (last xs))"
  obtains t ys' where "coalesce_next b s = Inr (b, t)" "same_live s (xs @ b # ys) t (xs @ b # ys')"
    "heap_wf t (xs @ b # ys')"
proof (cases "ys = [] \<or> allocated (blocks s (hd ys))")
  case True
  have nx: "hb_next (blocks s b) = first_or ys NULL"
    using heap_loose_tiles [OF wf] by (auto simp: tiles_append)
  have "coalesce_next b s = Inr (b, s)"
  proof (cases ys)
    case Nil
    then show ?thesis using nx by (simp add: coalesce_next_def)
  next
    case (Cons q zs)
    then show ?thesis
      using True nx heap_is_free_eq [OF heap_loose_valid [OF wf, of q]] by (simp add: coalesce_next_def)
  qed
  moreover have "adj (blocks s) (xs @ b # ys)"
    using True adj by (auto simp: successively_append_iff successively_Cons)
  ultimately show thesis using that [of s ys] wf fr True by (simp add: same_live_def heap_wf_iff)
next
  case False
  then obtain q zs where ys: "ys = q # zs" and q: "\<not> allocated (blocks s q)" by (cases ys) auto
  have wf': "heap_loose s (xs @ b # q # zs)" using wf ys by simp
  obtain t where t: "merge_blocks b q s = Inr (b, t)" "same_live s (xs @ b # q # zs) t (xs @ b # zs)"
      "\<not> allocated (blocks t b)" "\<And>x. x \<noteq> b \<Longrightarrow> blocks t x = blocks s x"
    using merge_step [OF wf' fr q] by blast
  have d: "distinct (xs @ b # q # zs)" using heap_loose_distinct [OF wf'] .
  have same: "blocks t x = blocks s x" if "x \<in> set xs \<union> set zs" for x
    using d that by (intro t(4)) auto
  have a: "adj (blocks t) xs" "adj (blocks t) zs"
    using adj adj_cong [of xs "blocks t" "blocks s"] adj_cong [of zs "blocks t" "blocks s"] same ys
    by (auto simp: successively_Cons)
  moreover have "xs = [] \<or> allocated (blocks t (last xs))" using adj(3) same [of "last xs"] by (cases "xs = []") auto
  moreover have "zs = [] \<or> allocated (blocks t (hd zs))"
    using adj(2) ys q same [of "hd zs"] by (cases "zs = []") (auto simp: successively_Cons)
  ultimately have "adj (blocks t) (xs @ b # zs)" by (auto simp: successively_append_iff successively_Cons)
  moreover have "hb_next (blocks s b) = q" using heap_loose_tiles [OF wf'] by (auto simp: tiles_append)
  then have "coalesce_next b s = Inr (b, t)"
    using q t(1) heap_is_free_eq [OF heap_loose_valid [OF wf', of q]] heap_loose_nonnull [OF wf', of q]
    by (simp add: coalesce_next_def)
  ultimately show thesis using that [of t zs] t(2) ys by (simp add: same_live_def heap_wf_iff)
qed

text \<open>The state after the lock was taken and the block was marked free.\<close>

definition marked :: "u32 \<Rightarrow> 'a heap_state_scheme \<Rightarrow> 'a heap_state_scheme" where
  "marked b s = s\<lparr>kheap := (kheap s)\<lparr>heap_lock_word := 1\<rparr>,
     blocks := (blocks s)(b := (blocks s b)\<lparr>hb_flags := hb_flags (blocks s b) AND NOT BLOCK_ALLOCATED,
                                           hb_magic := MAGIC_FREE\<rparr>)\<rparr>"

lemma marked_header:
  "\<not> allocated (blocks (marked b s) b)" "valid_header (blocks (marked b s) b)"
  "hb_size (blocks (marked b s) b) = hb_size (blocks s b)" "hb_next (blocks (marked b s) b) = hb_next (blocks s b)"
  "x \<noteq> b \<Longrightarrow> blocks (marked b s) x = blocks s x"
  by (simp_all add: marked_def allocated_def valid_header_def and.assoc)

lemma marked_spec:
  assumes wf: "heap_wf s (xs @ b # ys)" and al: "allocated (blocks s b)"
  shows "heap_loose (marked b s) (xs @ b # ys)" "adj (blocks (marked b s)) xs" "adj (blocks (marked b s)) ys"
    "live (marked b s) (xs @ b # ys) = live s (xs @ b # ys) - {(b, hb_size (blocks s b))}"
proof -
  let ?H = "blocks (marked b s)" and ?e = "heap_end s"
  have d: "distinct (xs @ b # ys)" using tiles_distinct [OF heap_wf_tiles [OF wf]] .
  have same: "?H x = blocks s x" if "x \<in> set xs \<union> set ys" for x
    using d that by (intro marked_header(5)) auto
  have T: "tiles ?H a zs e n = tiles (blocks s) a zs e n" if "set zs \<subseteq> set xs \<union> set ys" for a zs e n
    using that same by (intro tiles_cong) blast
  have m: "tiles (blocks s) (unat (hd (xs @ b # ys))) xs (unat b) b" "good_header (blocks s b)"
      "hb_next (blocks s b) = first_or ys NULL" "tiles (blocks s) (unat b + unat (hb_size (blocks s b))) ys ?e NULL"
    using heap_wf_tiles [OF wf] by (auto simp: tiles_append)
  have "tiles ?H (unat (hd (xs @ b # ys))) xs (unat b) b" "tiles ?H (unat b + unat (hb_size (blocks s b))) ys ?e NULL"
    using m(1,4) T by simp_all
  then have "tiles ?H (unat (hd (xs @ b # ys))) (xs @ b # ys) ?e NULL"
    using m(2,3) marked_header(2-4) [of b s] by (simp add: tiles_append good_header_def)
  moreover have "canaries (marked b s) (canary_addr (marked b s) x) = CANARY \<and> 24 \<le> unat (hb_size (blocks (marked b s) x))"
    if "x \<in> set (xs @ b # ys)" "allocated (?H x)" for x
    using that wf marked_header(1-4) [of b s] by (cases "x = b") (auto simp: heap_wf_def canary_addr_def marked_def)
  ultimately show "heap_loose (marked b s) (xs @ b # ys)"
    using wf by (simp add: heap_loose_def heap_wf_def marked_def)
  have "adj (blocks s) xs" "adj (blocks s) ys"
    using wf by (auto simp: heap_wf_def successively_append_iff successively_Cons)
  then show "adj ?H xs" "adj ?H ys"
    using adj_cong [of xs ?H "blocks s"] adj_cong [of ys ?H "blocks s"] same by blast+
  have "{x \<in> set (xs @ b # ys). allocated (?H x)} = {x \<in> set (xs @ b # ys). allocated (blocks s x)} - {b}"
    using same marked_header(1) [of b s] by (auto simp: marked_def)
  moreover have "hb_size (?H x) = hb_size (blocks s x)" for x by (simp add: marked_def)
  ultimately show "live (marked b s) (xs @ b # ys) = live s (xs @ b # ys) - {(b, hb_size (blocks s b))}"
    by (auto simp: live_def image_iff)
qed

lemma heap_free_block_run:
  assumes wf: "heap_wf s bs" and b: "b \<in> set bs" "allocated (blocks s b)" and lk: "heap_lock_word (kheap s) = 0"
  shows "heap_free_block b s =
    res_bind (coalesce_prev b (marked b s)) (\<lambda>(block, s). res_bind (coalesce_next block s) (\<lambda>(block, s).
      case heap_unlock s of (unlocked, s) \<Rightarrow> assert_then unlocked (Inr ((), s))))"
proof -
  let ?s = "s\<lparr>kheap := (kheap s)\<lparr>heap_lock_word := 1\<rparr>\<rparr>"
  have v: "valid_header (blocks s b)" using heap_wf_good [OF wf b(1)] by (simp add: good_header_def)
  have m: "hb_magic (blocks s b) = MAGIC_ALLOCATED" using allocated_magic [OF v b(2)] .
  have nb: "b \<noteq> NULL" using heap_wf_nonnull [OF wf b(1)] .
  have c: "check_canary s b = Inr ()" using wf b nb by (auto simp: check_canary_def read_canary_def heap_wf_def)
  have v1: "is_valid_block ?s b" using v by (simp add: is_valid_block_def)
  have a1: "heap_is_allocated ?s b = Inr True" using v1 b(2) by (simp add: heap_is_allocated_def allocated_def)
  have f1: "set_free b ?s = Inr (marked b s)" using v1 by (simp add: set_free_def upd_block_def marked_def)
  show ?thesis
    unfolding heap_free_block_def heap_lock_eq [OF lk] prod.case
    using nb m c v1 a1 f1 by (simp add: MAGIC_ALLOCATED_def MAGIC_FREE_def)
qed

lemma heap_free_block_spec:
  assumes wf: "heap_wf s bs" and b: "(b, n) \<in> live s bs" and lk: "heap_lock_word (kheap s) = 0"
  obtains t cs where "heap_free_block b s = Inr ((), t)" "heap_wf t cs" "live t cs = live s bs - {(b, n)}"
    "kheap t = kheap s" "kheap_addr t = kheap_addr s"
proof -
  have bb: "b \<in> set bs" "allocated (blocks s b)" "n = hb_size (blocks s b)" using b by (auto simp: live_def)
  obtain xs ys where bs: "bs = xs @ b # ys" using bb(1) by (auto simp: in_set_conv_decomp)
  note mk = marked_spec [OF wf [unfolded bs] bb(2)]
  obtain c t xs' where t: "coalesce_prev b (marked b s) = Inr (c, t)"
      "same_live (marked b s) (xs @ b # ys) t (xs' @ c # ys)"
      "\<not> allocated (blocks t c)" "adj (blocks t) xs'" "adj (blocks t) ys" "xs' = [] \<or> allocated (blocks t (last xs'))"
    using coalesce_prev_spec [OF mk(1) marked_header(1) mk(2,3)] by blast
  have "heap_loose t (xs' @ c # ys)" using t(2) by (simp add: same_live_def)
  then obtain u ys' where u: "coalesce_next c t = Inr (c, u)" "same_live t (xs' @ c # ys) u (xs' @ c # ys')"
      "heap_wf u (xs' @ c # ys')"
    using coalesce_next_spec [OF _ t(3,4,5,6)] by blast
  define v where "v = u\<lparr>kheap := kheap s\<rparr>"
  have ku: "kheap u = (kheap s)\<lparr>heap_lock_word := 1\<rparr>" "kheap_addr u = kheap_addr s"
    using t(2) u(2) by (simp_all add: same_live_def marked_def)
  have "live v (xs' @ c # ys') = live s bs - {(b, n)}"
    using t(2) u(2) mk(4) by (simp add: same_live_def v_def live_def bs bb(3))
  moreover have "heap_wf v (xs' @ c # ys')"
    using u(3) ku by (simp add: heap_wf_def v_def canary_addr_def)
  moreover have "heap_unlock u = (True, v)"
    using ku lk by (simp add: heap_unlock_def spinlock_try_unlock_def cmpxchg_def v_def)
  then have "heap_free_block b s = Inr ((), v)"
    using heap_free_block_run [OF wf bb(1,2) lk] t(1) u(1) by simp
  ultimately show thesis using that ku by (simp add: v_def)
qed

section \<open>The fresh heap\<close>

lemma heap_init_spec:
  assumes "heap_init a sz mx s = Inr (r, s')" "4096 \<le> unat sz" "unat a + unat sz < 2 ^ 32"
  shows "heap_wf s' [a + 16]" "live s' [a + 16] = {}" "kheap_addr s' = a" "heap_lock_word (kheap s') = 0"
    "heap_size (kheap s') = sz" "heap_max_size (kheap s') = mx"
proof -
  have al: "4096 dvd unat a" "4096 dvd unat sz" and
    s': "s' = create_block (a + 16) (sz - 16) (s\<lparr>kheap := \<lparr>heap_head = a + 16, heap_size = sz,
      heap_max_size = mx, heap_lock_word = 0\<rparr>, kheap_addr := a\<rparr>)"
    using assms(1) by (auto simp: heap_init_def res_simps Let_def page_aligned_iff HEAP_STRUCT_def)
  have u: "unat (a + 16) = unat a + 16" "unat (sz - 16) = unat sz - 16"
    using assms(2,3) by (simp_all add: unat_add32 unat_sub32)
  have "4096 dvd unat a + unat sz" using al by (rule dvd_add)
  then show "heap_wf s' [a + 16]"
    using assms(2,3) u by (simp add: s' heap_wf_def create_block_def upd_block_def good_header_def header_eq
        header_sel header_state)
  show "live s' [a + 16] = {}"
    by (simp add: s' live_def create_block_def upd_block_def header_eq header_state)
  show "kheap_addr s' = a" "heap_lock_word (kheap s') = 0" "heap_size (kheap s') = sz" "heap_max_size (kheap s') = mx"
    by (simp_all add: s' create_block_def upd_block_def)
qed

section \<open>Sequences of requests\<close>

text \<open>
  \<open>heap_run s L\<close>: the heap \<open>s\<close> arises from \<open>heap_init\<close> by successful calls of
  \<open>heap_alloc_aligned\<close> and \<open>heap_free\<close>, and \<open>L\<close> are the pointers that were returned and not
  yet released. The heap may grow up to its maximum and then lie below the end of the address
  space; an alignment is a power of two up to a page and exceeds the request by at most two
  bytes, so that no block is too short for header and canary (the callers use 8 and 4096; of
  8-aligned requests this leaves out those of 1 to 5 bytes, see \<open>heap_small_request_clobbers\<close>).
\<close>

inductive heap_run :: "'a heap_state_scheme \<Rightarrow> u32 set \<Rightarrow> bool" where
  fresh: "heap_run s' {}"
    if "heap_init a sz mx s = Inr (r, s')" "4096 \<le> unat sz" "unat sz < unat mx + 4096"
      "unat a + unat mx + 8192 + 32 < 2 ^ 32"
| alloc: "heap_run s' (insert p L)"
    if "heap_run s L" "heap_alloc_aligned n (2 ^ k) s = Inr (p, s')" "k \<le> 12" "2 ^ k \<le> unat n + 2"
      "unat n + 56 < 2 ^ 32"
| release: "heap_run s' (L - {p})"
    if "heap_run s L" "p \<in> L" "heap_free p s = Inr ((), s')"

definition heap_inv :: "'a heap_state_scheme \<Rightarrow> u32 set \<Rightarrow> u32 list \<Rightarrow> bool" where
  "heap_inv s L bs \<longleftrightarrow>
     heap_wf s bs \<and> L = (\<lambda>b. b + HDR) ` fst ` live s bs \<and> heap_lock_word (kheap s) = 0
     \<and> unat (heap_size (kheap s)) < unat (heap_max_size (kheap s)) + 4096
     \<and> unat (kheap_addr s) + unat (heap_max_size (kheap s)) + 8192 + 32 < 2 ^ 32"

lemma heap_alloc_aligned_cases:
  assumes wf: "heap_wf s bs" and lk: "heap_lock_word (kheap s) = 0" and ok: "alloc_ok (n + 8) k s" "canary_fits (n + 8) k"
    and run: "heap_alloc_aligned n (2 ^ k) s = Inr (p, s')"
  shows "delivers (n + 8) k s bs (p - HDR) s'"
proof -
  obtain hdr where h: "heap_alloc_block_aligned n (2 ^ k) s = Inr (hdr, s')" "hdr \<noteq> NULL" "p = hdr + HDR"
    using run by (auto simp: heap_alloc_aligned_def res_simps split: if_splits)
  have "alloc_result (n + 8) k s bs hdr s'"
    using heap_alloc_block_aligned_result [OF wf lk ok] h(1) by auto
  then show ?thesis using h by (simp add: alloc_result_def)
qed

lemma live_fst_diff:
  assumes "heap_wf s bs" "(b, n) \<in> live s bs"
  shows "fst ` (live s bs - {(b, n)}) = fst ` live s bs - {b}"
proof -
  have "m = n" if "(b, m) \<in> live s bs" for m using that assms(2) by (auto simp: live_def)
  then show ?thesis by force
qed

lemma heap_inv_alloc:
  assumes "heap_inv s L bs" "heap_alloc_aligned n (2 ^ k) s = Inr (p, s')" "k \<le> 12" "2 ^ k \<le> unat n + 2"
    "unat n + 56 < 2 ^ 32"
  shows "\<exists>bs'. heap_inv s' (insert p L) bs'"
proof -
  have "(2 :: nat) ^ k \<le> 2 ^ 12" using assms(3) by (rule power_increasing) simp
  moreover have "unat (n + 8) = unat n + 8" using assms(5) by (subst unat_add32) simp_all
  ultimately have "alloc_ok (n + 8) k s" "canary_fits (n + 8) k"
    using assms by (simp_all add: heap_inv_def alloc_ok_def canary_fits_def)
  then have d: "delivers (n + 8) k s bs (p - HDR) s'"
    using assms(1,2) heap_alloc_aligned_cases by (auto simp: heap_inv_def)
  then obtain bs' where b: "heap_wf s' bs'"
      "live s' bs' = insert (p - HDR, hb_size (blocks s' (p - HDR))) (live s bs)"
      "heap_lock_word (kheap s') = 0" "same_bounds s s'"
    by (auto simp: delivers_def)
  have "heap_inv s' (insert p L) bs'"
    using assms(1) b by (simp add: heap_inv_def same_bounds_def)
  then show ?thesis by blast
qed

lemma heap_inv_release:
  assumes "heap_inv s L bs" "p \<in> L"
  obtains s' bs' where "heap_free p s = Inr ((), s')" "heap_inv s' (L - {p}) bs'"
proof -
  obtain b n where b: "p = b + HDR" "(b, n) \<in> live s bs" using assms by (force simp: heap_inv_def)
  obtain t cs where t: "heap_free_block b s = Inr ((), t)" "heap_wf t cs" "live t cs = live s bs - {(b, n)}"
      "kheap t = kheap s" "kheap_addr t = kheap_addr s"
    using heap_free_block_spec [OF _ b(2)] assms(1) by (auto simp: heap_inv_def)
  have "inj (\<lambda>b. b + HDR)" by (rule injI) simp
  then have "L - {p} = (\<lambda>b. b + HDR) ` (fst ` live s bs - {b})"
    using assms(1) b(1) by (simp add: heap_inv_def image_set_diff)
  also have "fst ` live s bs - {b} = fst ` live t cs"
    using live_fst_diff [OF _ b(2)] assms(1) t(3) by (simp add: heap_inv_def)
  finally have "heap_inv t (L - {p}) cs"
    using assms(1) t by (simp add: heap_inv_def)
  with t(1) b(1) show thesis using that [of t cs] by (simp add: heap_free_def)
qed

lemma heap_run_inv: "heap_run s L \<Longrightarrow> \<exists>bs. heap_inv s L bs"
proof (induction rule: heap_run.induct)
  case (fresh a sz mx s r s')
  then have "unat a + unat sz < 2 ^ 32" by simp
  then have "heap_inv s' {} [a + 16]"
    using heap_init_spec [OF fresh(1,2)] fresh(3,4) by (simp add: heap_inv_def)
  then show ?case by blast
next
  case (alloc s L n k p s')
  then show ?case using heap_inv_alloc by blast
next
  case (release s L p s')
  then obtain bs where "heap_inv s L bs" by blast
  then obtain t cs where "heap_free p s = Inr ((), t)" "heap_inv t (L - {p}) cs"
    using heap_inv_release release(2) by blast
  then show ?case using release(3) by auto
qed

section \<open>The allocator as an interface\<close>

text \<open>
  What the clients of an allocator rely on: a returned pointer is not one of the outstanding
  ones, and every outstanding pointer can be released.
\<close>

primrec release_all :: "('p \<Rightarrow> 's \<Rightarrow> (unit \<times> 's) res) \<Rightarrow> 'p list \<Rightarrow> 's \<Rightarrow> 's res" where
  "release_all rel [] s = Inr s"
| "release_all rel (p # ps) s = res_bind (rel p s) (\<lambda>(_, s). release_all rel ps s)"

primrec alloc_all :: "('q \<Rightarrow> 's \<Rightarrow> ('p \<times> 's) res) \<Rightarrow> 'q list \<Rightarrow> 's \<Rightarrow> ('p list \<times> 's) res" where
  "alloc_all al [] s = Inr ([], s)"
| "alloc_all al (q # qs) s = res_bind (al q s) (\<lambda>(p, s). res_bind (alloc_all al qs s) (\<lambda>(ps, s). Inr (p # ps, s)))"

locale block_allocator =
  fixes inv :: "'s \<Rightarrow> 'p set \<Rightarrow> bool"
    and ok :: "'q \<Rightarrow> bool"
    and al :: "'q \<Rightarrow> 's \<Rightarrow> ('p \<times> 's) res"
    and rel :: "'p \<Rightarrow> 's \<Rightarrow> (unit \<times> 's) res"
  assumes al_new: "inv s L \<Longrightarrow> ok q \<Longrightarrow> al q s = Inr (p, s') \<Longrightarrow> p \<notin> L \<and> inv s' (insert p L)"
    and rel_any: "inv s L \<Longrightarrow> p \<in> L \<Longrightarrow> \<exists>s'. rel p s = Inr ((), s') \<and> inv s' (L - {p})"
begin

lemma release_list:
  "inv s L \<Longrightarrow> distinct ps \<Longrightarrow> set ps \<subseteq> L \<Longrightarrow> \<exists>s'. release_all rel ps s = Inr s' \<and> inv s' (L - set ps)"
proof (induction ps arbitrary: s L)
  case (Cons p ps)
  then obtain t where t: "rel p s = Inr ((), t)" "inv t (L - {p})" using rel_any [of s L p] by auto
  have "set ps \<subseteq> L - {p}" using Cons.prems by auto
  then obtain u where "release_all rel ps t = Inr u" "inv u (L - {p} - set ps)"
    using Cons.IH [OF t(2)] Cons.prems by auto
  moreover have "L - {p} - set ps = L - set (p # ps)" by auto
  ultimately show ?case using t(1) by simp
qed simp

lemma alloc_list:
  "inv s L \<Longrightarrow> \<forall>q\<in>set qs. ok q \<Longrightarrow> alloc_all al qs s = Inr (ps, s') \<Longrightarrow>
     distinct ps \<and> set ps \<inter> L = {} \<and> inv s' (L \<union> set ps)"
proof (induction qs arbitrary: s L ps)
  case (Cons q qs)
  then obtain p t ps' where p: "al q s = Inr (p, t)" "alloc_all al qs t = Inr (ps', s')" "ps = p # ps'"
    by (auto simp: res_simps)
  have n: "p \<notin> L" "inv t (insert p L)" using al_new [OF Cons.prems(1) _ p(1)] Cons.prems(2) by auto
  have "distinct ps' \<and> set ps' \<inter> insert p L = {} \<and> inv s' (insert p L \<union> set ps')"
    using Cons.IH [OF n(2) _ p(2)] Cons.prems(2) by simp
  then show ?case using p(3) n(1) by auto
qed simp

text \<open>Whatever was allocated can be released again in any order, which leaves the others alone.\<close>

lemma alloc_release_list:
  assumes "inv s L" "\<forall>q\<in>set qs. ok q" "alloc_all al qs s = Inr (ps, s')" "distinct rs" "set rs = set ps"
  shows "\<exists>s''. release_all rel rs s' = Inr s'' \<and> inv s'' L"
proof -
  have a: "distinct ps" "set ps \<inter> L = {}" "inv s' (L \<union> set ps)" using alloc_list [OF assms(1-3)] by auto
  have "L \<union> set ps - set rs = L" using a(2) assms(5) by auto
  then show ?thesis using release_list [OF a(3) assms(4)] assms(5) by auto
qed

end

type_synonym heap_request = "u32 \<times> nat"

definition request_in_range :: "heap_request \<Rightarrow> bool" where
  "request_in_range q \<longleftrightarrow> snd q \<le> 12 \<and> 2 ^ snd q \<le> unat (fst q) + 2 \<and> unat (fst q) + 56 < 2 ^ 32"

definition heap_request :: "heap_request \<Rightarrow> 'a heap_state_scheme \<Rightarrow> (u32 \<times> 'a heap_state_scheme) res" where
  "heap_request q s = heap_alloc_aligned (fst q) (2 ^ snd q) s"

lemma heap_inv_alloc_new:
  assumes i: "heap_inv s L bs" and "heap_alloc_aligned n (2 ^ k) s = Inr (p, s')" "k \<le> 12" "2 ^ k \<le> unat n + 2"
    "unat n + 56 < 2 ^ 32"
  shows "p \<notin> L" "2 ^ k dvd unat p" "unat n + 24 \<le> unat (hb_size (blocks s' (p - HDR))) + (2 ^ k - 2)"
    "q \<in> L \<Longrightarrow> hb_size (blocks s' (q - HDR)) = hb_size (blocks s (q - HDR))"
proof -
  have "(2 :: nat) ^ k \<le> 2 ^ 12" using assms(3) by (rule power_increasing) simp
  moreover have n8: "unat (n + 8) = unat n + 8" using assms(5) by (subst unat_add32) simp_all
  ultimately have "alloc_ok (n + 8) k s" "canary_fits (n + 8) k"
    using i assms by (simp_all add: heap_inv_def alloc_ok_def canary_fits_def)
  then have d: "delivers (n + 8) k s bs (p - HDR) s'"
    using i assms(2) heap_alloc_aligned_cases by (auto simp: heap_inv_def)
  then have nl: "p - HDR \<notin> fst ` live s bs" by (auto simp: delivers_def)
  show "p \<notin> L"
  proof
    assume "p \<in> L"
    then obtain b where "b \<in> fst ` live s bs" "p = b + HDR" using i by (auto simp: heap_inv_def)
    then show False using nl by simp
  qed
  obtain cs where wf': "heap_wf s' cs" and lv: "live s' cs = insert (p - HDR, hb_size (blocks s' (p - HDR))) (live s bs)"
      and "p - HDR \<in> set cs"
    using d by (auto simp: delivers_def)
  have "unat (p - HDR) + 16 = unat p"
  proof -
    have "unat (p - HDR) + 16 < 4294967296"
      using heap_wf_end [OF wf' \<open>p - HDR \<in> set cs\<close>] heap_wf_good [OF wf' \<open>p - HDR \<in> set cs\<close>]
      by (simp add: good_header_def)
    then have "unat (p - HDR + 16) = unat (p - HDR) + 16" by (subst unat_add32) simp_all
    then show ?thesis by (simp add: HDR_def)
  qed
  then show "2 ^ k dvd unat p" using d by (simp add: delivers_def)
  have "(1 :: nat) \<le> 2 ^ k" by simp
  then show "unat n + 24 \<le> unat (hb_size (blocks s' (p - HDR))) + (2 ^ k - 2)"
    using d n8 by (auto simp: delivers_def)
  show "hb_size (blocks s' (q - HDR)) = hb_size (blocks s (q - HDR))" if q: "q \<in> L"
  proof -
    obtain b m where b: "(b, m) \<in> live s bs" "q = b + HDR" using i q by (force simp: heap_inv_def)
    then have "(b, m) \<in> live s' cs" using lv by simp
    then show ?thesis using b by (auto simp: live_def)
  qed
qed

lemma heap_run_alloc_new:
  assumes "heap_run s L" "heap_alloc_aligned n (2 ^ k) s = Inr (p, s')" "k \<le> 12" "2 ^ k \<le> unat n + 2"
    "unat n + 56 < 2 ^ 32"
  shows "p \<notin> L" "2 ^ k dvd unat p" "unat n + 24 \<le> unat (hb_size (blocks s' (p - HDR))) + (2 ^ k - 2)"
    "q \<in> L \<Longrightarrow> hb_size (blocks s' (q - HDR)) = hb_size (blocks s (q - HDR))"
  using heap_run_inv [OF assms(1)] heap_inv_alloc_new [OF _ assms(2-5)] by blast+

interpretation hp: block_allocator heap_run request_in_range heap_request heap_free
proof
  show "p \<notin> L \<and> heap_run s' (insert p L)"
    if "heap_run s L" "request_in_range q" "heap_request q s = Inr (p, s')" for s :: "'a heap_state_scheme" and L q p s'
    using that heap_run_alloc_new(1) [of s L "fst q" "snd q" p s'] heap_run.alloc [of s L "fst q" "snd q" p s']
    by (simp add: request_in_range_def heap_request_def)
  show "\<exists>s'. heap_free p s = Inr ((), s') \<and> heap_run s' (L - {p})"
    if "heap_run s L" "p \<in> L" for s :: "'a heap_state_scheme" and L p
    using that heap_run_inv [of s L] heap_inv_release [of s L _ p] heap_run.release [of s L p] by metis
qed

section \<open>Requests that succeed\<close>

text \<open>A block that is found without growing the heap leaves memory and page tables alone.\<close>

lemma header_vmm:
  "vmm_state.truncate (create_block b n s) = vmm_state.truncate s" "vmm_state.truncate (upd_block b f s) = vmm_state.truncate s"
  "vmm_state.truncate (write_canary b s) = vmm_state.truncate s"
  "set_allocated b s = Inr t \<Longrightarrow> vmm_state.truncate t = vmm_state.truncate s"
  "set_free b s = Inr t \<Longrightarrow> vmm_state.truncate t = vmm_state.truncate s"
  "unlock_return b s = Inr (r, t) \<Longrightarrow> vmm_state.truncate t = vmm_state.truncate s"
  by (auto simp: create_block_def upd_block_def set_allocated_def set_free_def write_canary_def unlock_return_def heap_unlock_def
      res_simps Let_def vmm_state.truncate_def split: prod.splits)

lemma take_vmm:
  "take_split h sz s = Inr (r, t) \<Longrightarrow> vmm_state.truncate t = vmm_state.truncate s"
  "take_whole h s = Inr (r, t) \<Longrightarrow> vmm_state.truncate t = vmm_state.truncate s"
  "cut_front h a s = Inr u \<Longrightarrow> vmm_state.truncate u = vmm_state.truncate s"
  "split_tail h a sz n s = Inr u \<Longrightarrow> vmm_state.truncate u = vmm_state.truncate s"
  by (auto simp: take_split_def take_whole_def cut_front_def split_tail_def res_simps Let_def header_vmm
      dest!: header_vmm(4,5,6) split: if_splits)

lemma try_block_vmm:
  assumes "try_block sz al h s = Inr (r, t)"
  shows "vmm_state.truncate t = vmm_state.truncate s"
proof -
  have "vmm_state.truncate t = vmm_state.truncate s" if "take_aligned h a sz s = Inr (x, t)" for a x
    using that by (auto simp: take_aligned_def res_simps Let_def header_vmm dest!: take_vmm(3,4) header_vmm(4,5,6) split: if_splits)
  then show ?thesis
    using assms by (auto simp: try_block_def res_simps Let_def dest!: take_vmm(1,2) split: if_splits option.splits)
qed

lemma alloc_walk_vmm:
  assumes "suffix_of s ys" "alloc_walk sz al (first_or ys NULL) s = Some (Inr (r, t))"
  shows "vmm_state.truncate t = vmm_state.truncate s"
  using assms(2) try_block_vmm [of sz al _ s r t] unfolding alloc_walk_eq [OF assms(1)] by (auto split: option.splits)

lemma try_block_fits:
  assumes wf: "heap_wf s bs" and b: "b \<in> set bs" "\<not> allocated (blocks s b)"
    and sz: "unat sz + 32 < unat (hb_size (blocks s b))"
  shows "try_block sz al b s \<noteq> Inr (None, s)"
proof -
  have f: "heap_is_free s b = Inr True" using heap_is_free_eq [OF heap_wf_valid [OF wf b(1)]] b(2) by simp
  have lt: "unat sz + 32 < 4294967296" using sz unat_lt32 [of "hb_size (blocks s b)"] by linarith
  have u: "unat (sz + 16) = unat sz + 16" "unat (sz + 32) = unat sz + 32"
    "unat (hb_size (blocks s b) - 16) = unat (hb_size (blocks s b)) - 16"
    using sz lt by (simp_all add: unat_add32 unat_sub32)
  have "sz \<le> hb_size (blocks s b) - HDR" "HDR + sz \<le> hb_size (blocks s b)" "HDR * 2 + sz < hb_size (blocks s b)"
    using sz u by (simp_all add: HDR_def word_le_nat_alt word_less_nat_alt add.commute)
  then show ?thesis
    by (auto simp: try_block_def f Let_def res_simps assert_then_def split: option.splits if_splits)
qed

lemma find_exists: "x \<in> set xs \<Longrightarrow> P x \<Longrightarrow> \<exists>y. List.find P xs = Some y \<and> P y"
  by (induction xs) auto

lemma heap_alloc_fits:
  assumes wf: "heap_wf s bs" and lk: "heap_lock_word (kheap s) = 0" and ok: "alloc_ok (n + 8) k s"
    and b: "b \<in> set bs" "\<not> allocated (blocks s b)" and sz: "unat (n + 8) + 32 < unat (hb_size (blocks s b))"
  obtains p s' where "heap_alloc_aligned n (2 ^ k) s = Inr (p, s')" "vmm_state.truncate s' = vmm_state.truncate s"
proof -
  let ?s = "s\<lparr>kheap := (kheap s)\<lparr>heap_lock_word := 1\<rparr>\<rparr>"
  have wf': "heap_wf ?s bs" using wf by (simp add: heap_wf_def canary_addr_def)
  have rq: "request_ok (n + 8) k ?s" using alloc_ok_request [OF ok] by (simp add: request_ok_def)
  have "try_block (n + 8) (2 ^ k) b ?s \<noteq> Inr (None, ?s)"
    using try_block_fits [OF wf' b(1)] b(2) sz by simp
  then obtain c where c: "List.find (\<lambda>b. try_block (n + 8) (2 ^ k) b ?s \<noteq> Inr (None, ?s)) bs = Some c"
      "try_block (n + 8) (2 ^ k) c ?s \<noteq> Inr (None, ?s)"
    using find_exists [OF b(1), of "\<lambda>b. try_block (n + 8) (2 ^ k) b ?s \<noteq> Inr (None, ?s)"] by blast
  have hd: "heap_head (kheap ?s) = first_or bs NULL" using wf by (cases bs) (auto simp: heap_wf_def)
  have "c \<in> set bs" using c(1) by (auto simp: find_Some_iff)
  then obtain xs ys where "bs = xs @ c # ys" by (auto simp: in_set_conv_decomp)
  then obtain r s' where r': "try_block (n + 8) (2 ^ k) c ?s = Inr (Some r, s')" "r \<noteq> NULL" "hb_magic (blocks s' r) = MAGIC_ALLOCATED"
    using try_block_gives [OF _ _ rq c(2), of xs ys] wf' by auto
  then have r: "alloc_walk (n + 8) (2 ^ k) (heap_head (kheap ?s)) ?s = Some (Inr (Some r, s'))"
    using alloc_walk_eq [OF suffix_of_wf [OF wf'], of "n + 8" "2 ^ k"] hd c(1) by simp
  have "vmm_state.truncate s' = vmm_state.truncate s"
    using alloc_walk_vmm [OF suffix_of_wf [OF wf'] r [unfolded hd]] by (simp add: vmm_state.truncate_def)
  moreover have "heap_alloc_block_aligned n (2 ^ k) s = Inr (r, s')"
    using r heap_lock_eq [OF lk] by (subst heap_alloc_block_aligned_def, subst alloc_loop.simps) simp
  ultimately show thesis using that r'(2,3) by (simp add: heap_alloc_aligned_def)
qed

lemma merge_blocks_magic:
  "merge_blocks d q s = Inr (r, t) \<Longrightarrow> hb_magic (blocks t x) = hb_magic (blocks s x)"
  by (auto simp: merge_blocks_def upd_block_def res_simps)

lemma coalesce_magic:
  "coalesce_prev b s = Inr (c, t) \<Longrightarrow> hb_magic (blocks t x) = hb_magic (blocks s x)"
  "coalesce_next b s = Inr (c, t) \<Longrightarrow> hb_magic (blocks t x) = hb_magic (blocks s x)"
  by (auto simp: coalesce_prev_def coalesce_next_def res_simps merge_blocks_magic split: if_splits)

lemma heap_free_block_magic:
  assumes "heap_wf s bs" "(b, n) \<in> live s bs" "heap_lock_word (kheap s) = 0" "heap_free_block b s = Inr ((), t)"
  shows "hb_magic (blocks t b) = MAGIC_FREE"
proof -
  have bb: "b \<in> set bs" "allocated (blocks s b)" using assms(2) by (auto simp: live_def)
  obtain c u where r: "coalesce_prev b (marked b s) = Inr (c, u)"
      "res_bind (coalesce_next c u) (\<lambda>(block, s). case heap_unlock s of (unlocked, s) \<Rightarrow>
         assert_then unlocked (Inr ((), s))) = Inr ((), t)"
    using assms(4) unfolding heap_free_block_run [OF assms(1) bb assms(3)]
    by (auto simp: res_bind_eq_Inr)
  obtain d v where v: "coalesce_next c u = Inr (d, v)" "t = snd (heap_unlock v)"
    using r(2) by (auto simp: res_simps case_prod_unfold)
  have "blocks t = blocks v" using v(2) by (simp add: heap_unlock_def split: prod.splits)
  then show ?thesis
    using coalesce_magic(1) [OF r(1), of b] coalesce_magic(2) [OF v(1), of b] by (simp add: marked_def)
qed

section \<open>Properties\<close>

text \<open>A one-page heap at \<open>0xC0200000\<close>, before paging is set up, as the sample of the witnesses.\<close>

definition sample_boot :: heap_state where
  "sample_boot = \<lparr>eflags = 2, initialized = False, memregions = [], phys = (\<lambda>_. 0), cr3 = 0, cr0 = 0,
     paging_enabled = False, current_pagedir_va = 0,
     blocks = (\<lambda>_. \<lparr>hb_magic = 0, hb_flags = 0, hb_size = 0, hb_next = 0\<rparr>), canaries = (\<lambda>_. 0),
     kheap = \<lparr>heap_head = 0, heap_size = 0, heap_max_size = 0, heap_lock_word = 0\<rparr>, kheap_addr = 0\<rparr>"

definition sample_heap :: heap_state where
  "sample_heap = create_block 0xC0200010 0xFF0 (sample_boot\<lparr>kheap := \<lparr>heap_head = 0xC0200010,
     heap_size = 0x1000, heap_max_size = 0x1000, heap_lock_word = 0\<rparr>, kheap_addr := 0xC0200000\<rparr>)"

lemma sample_heap_init: "heap_init 0xC0200000 0x1000 0x1000 sample_boot = Inr (0xC0200000, sample_heap)"
  by (simp add: heap_init_def IS_ALIGNED_def PAGE_SIZE_def HEAP_STRUCT_def sample_heap_def)

lemma sample_heap_run: "heap_run sample_heap {}"
  by (rule heap_run.fresh [OF sample_heap_init]) simp_all

lemma sample_heap_facts:
  "heap_wf sample_heap [0xC0200010]" "heap_lock_word (kheap sample_heap) = 0"
  "\<not> allocated (blocks sample_heap 0xC0200010)" "hb_size (blocks sample_heap 0xC0200010) = 0xFF0"
  "alloc_ok 24 3 sample_heap"
  using heap_init_spec(1,4) [OF sample_heap_init]
  by (simp_all add: sample_heap_def create_block_def upd_block_def header_eq header_state header_sel alloc_ok_def)

lemma sample_alloc: obtains p s' where "heap_alloc_aligned 16 (2 ^ 3) sample_heap = Inr (p, s')"
  by (rule heap_alloc_fits [OF sample_heap_facts(1,2), of 16 3 "0xC0200010"]) (use sample_heap_facts(3,4,5) in auto)







text \<open>
  C23: the allocation loop of \<open>heap_alloc_block_aligned\<close>, which searches, grows the heap and
  searches again, ends, and so do the walks along the chain and the loop over the new pages
  inside of it (a loop that runs on gives \<open>Diverge\<close>), for every request that does not wrap and
  whose alignment exceeds it by at most two bytes.
\<close>

theorem heap_alloc_loop_ends:
  assumes "heap_wf s bs" "heap_lock_word (kheap s) = 1" "alloc_ok sz k s" "canary_fits sz k"
  shows "\<exists>res. alloc_loop sz (2 ^ k) s = Some res \<and> res \<noteq> Inl Diverge"
  using alloc_loop_spec [OF assms] by (auto simp: ends_def)

theorem heap_alloc_loop_ends_witness:
  "\<exists>res. alloc_loop 24 (2 ^ 3) (sample_heap\<lparr>kheap := (kheap sample_heap)\<lparr>heap_lock_word := 1\<rparr>\<rparr>) = Some res \<and> res \<noteq> Inl Diverge"
  by (rule heap_alloc_loop_ends [of _ "[0xC0200010]"])
    (use sample_heap_facts in \<open>simp_all add: heap_wf_def canary_addr_def alloc_ok_def canary_fits_def\<close>)

text \<open>
  C24: releasing a pointer twice is caught: after \<open>heap_free\<close> of an outstanding pointer a
  second one panics, whether or not the block was merged with its neighbours.
\<close>

theorem heap_double_free_panics:
  assumes "heap_run s L" "p \<in> L" "heap_free p s = Inr ((), s')"
  shows "heap_free p s' = Inl Panic"
proof -
  obtain bs where i: "heap_inv s L bs" using heap_run_inv [OF assms(1)] by blast
  then obtain b n where b: "p = b + HDR" "(b, n) \<in> live s bs" using assms(2) by (force simp: heap_inv_def)
  have wf: "heap_wf s bs" "heap_lock_word (kheap s) = 0" using i by (simp_all add: heap_inv_def)
  have "hb_magic (blocks s' b) = MAGIC_FREE"
    using heap_free_block_magic [OF wf(1) b(2) wf(2)] assms(3) b(1) by (simp add: heap_free_def)
  moreover have "b \<noteq> NULL" using heap_wf_nonnull [OF wf(1)] b(2) by (auto simp: live_def)
  ultimately show ?thesis using b(1) by (simp add: heap_free_def heap_free_block_def)
qed

theorem heap_double_free_panics_witness:
  "\<exists>p s' s''. heap_alloc_aligned 16 (2 ^ 3) sample_heap = Inr (p, s') \<and> heap_free p s' = Inr ((), s'')
     \<and> heap_free p s'' = Inl Panic"
proof -
  obtain p s' where a: "heap_alloc_aligned 16 (2 ^ 3) sample_heap = Inr (p, s')" by (rule sample_alloc)
  have r: "heap_run s' {p}" using heap_run.alloc [OF sample_heap_run a] by simp
  obtain s'' where f: "heap_free p s' = Inr ((), s'')" using hp.rel_any [OF r] by auto
  show ?thesis using a f heap_double_free_panics [OF r _ f] by blast
qed



section \<open>Requests of a few bytes\<close>

lemma clobbered_next:
  assumes "16 \<le> unat (hb_size h)" "unat (hb_size h) < 24"
  shows "drop_bit 24 (hb_next (clobbered h)) = ucast (word_bytes 8 CANARY ! (23 - unat (hb_size h)))"
proof -
  let ?n = "unat (hb_size h)"
  let ?f = "\<lambda>i. if i < ?n \<and> ?n \<le> i + 8 then word_bytes 8 CANARY ! (i + 8 - ?n) else header_bytes h ! i"
  have u: "[0..<16] = [0..<12] @ [12, 13, 14, 15 :: nat]" by (simp add: upt_rec)
  have "take 4 (drop 12 (map ?f [0..<16])) = [?f 12, ?f 13, ?f 14, ?f 15]"
    unfolding u map_append by simp
  then have "hb_next (clobbered h) = bytes_word [?f 12, ?f 13, ?f 14, ?f 15]"
    unfolding clobbered_def Let_def bytes_header_def by (simp only: heap_block_header.simps)
  moreover have "?f 15 = word_bytes 8 CANARY ! (23 - ?n)" using assms by simp
  moreover have "drop_bit 24 (bytes_word [b0, b1, b2, b3] :: u32) = ucast b3" for b0 b1 b2 b3
    by (rule u32_eqI) (auto simp: bit_simps dest: bit_imp_le_length)
  ultimately show ?thesis by simp
qed

lemma canary_byte:
  assumes "1 \<le> n" "n \<le> 5"
  shows "(ucast (word_bytes 8 CANARY ! (5 - unat n)) :: u32) = 0x7F + n"
proof -
  have "unat n \<in> {1, 2, 3, 4, 5}" using assms by (auto simp: word_le_nat_alt)
  then have "n \<in> {1, 2, 3, 4, 5}" by (auto simp: word_unat_eq_iff)
  then show ?thesis by (elim insertE; simp add: word_bytes_def CANARY_def upt_rec)
qed

text \<open>The only free block of a heap is the one that is tried.\<close>

lemma alloc_from_only_free:
  assumes wf: "heap_wf s bs" "heap_lock_word (kheap s) = 0" and h: "h \<in> set bs" "\<forall>b\<in>set bs. b \<noteq> h \<longrightarrow> allocated (blocks s b)"
    and t: "try_block (n + 8) al h (s\<lparr>kheap := (kheap s)\<lparr>heap_lock_word := 1\<rparr>\<rparr>) = Inr (Some r, s')"
  shows "heap_alloc_block_aligned n al s = Inr (r, s')"
proof -
  let ?s = "s\<lparr>kheap := (kheap s)\<lparr>heap_lock_word := 1\<rparr>\<rparr>"
  have wf': "heap_wf ?s bs" using wf(1) by (simp add: heap_wf_def canary_addr_def)
  have "try_block (n + 8) al b ?s = Inr (None, ?s)" if "b \<in> set bs" "b \<noteq> h" for b
    using h(2) that heap_wf_valid [OF wf' that(1)] by (simp add: try_block_def heap_is_free_eq)
  then have "List.find (\<lambda>b. try_block (n + 8) al b ?s \<noteq> Inr (None, ?s)) bs = Some h"
    using h(1) t by (induction bs) auto
  moreover have "heap_head (kheap ?s) = first_or bs NULL" using wf(1) by (cases bs) (auto simp: heap_wf_def)
  ultimately have "alloc_walk (n + 8) al (heap_head (kheap ?s)) ?s = Some (Inr (Some r, s'))"
    using alloc_walk_eq [OF suffix_of_wf [OF wf'], of "n + 8" al] t by simp
  then show ?thesis
    using heap_lock_eq [OF wf(2)] by (subst heap_alloc_block_aligned_def, subst alloc_loop.simps) simp
qed

text \<open>
  C31: a request of 1 to 5 bytes can destroy the chain of blocks: when the only free block lies
  one byte behind an 8-byte boundary and is just large enough to be tried, the block cut out
  of it is shorter than header and canary, the canary runs into the header, and the most
  significant byte of the \<open>next\<close> pointer of the block handed out is a byte of the canary.
\<close>

theorem heap_small_request_clobbers:
  assumes wf: "heap_wf s bs" "heap_lock_word (kheap s) = 0" "alloc_ok (n + 8) 3 s"
    and h: "h \<in> set bs" "\<forall>b\<in>set bs. allocated (blocks s b) \<longleftrightarrow> b \<noteq> h"
    and p: "unat h mod 8 = 1" "hb_size (blocks s h) = n + 41" "1 \<le> n" "n \<le> 5"
  shows "\<exists>r s'. heap_alloc_aligned n 8 s = Inr (r, s') \<and> drop_bit 24 (hb_next (blocks s' (r - HDR))) = 0x7F + n"
proof -
  let ?s = "s\<lparr>kheap := (kheap s)\<lparr>heap_lock_word := 1\<rparr>\<rparr>"
  obtain xs ys where bs: "bs = xs @ h # ys" using h(1) by (auto simp: in_set_conv_decomp)
  have wf': "heap_wf ?s (xs @ h # ys)" using wf(1) bs by (simp add: heap_wf_def canary_addr_def)
  have rq: "request_ok (n + 8) 3 ?s" using alloc_ok_request [OF wf(3)] by (simp add: request_ok_def)
  have n: "unat n \<in> {1, 2, 3, 4, 5}" using p(3,4) by (auto simp: word_le_nat_alt)
  then have u: "unat (n + 8) = unat n + 8" "unat (n + 41) = unat n + 41" "unat (n + 18) = unat n + 18"
    by (auto simp: unat_word_ariths)
  have "try_block (n + 8) (2 ^ 3) h ?s \<noteq> Inr (None, ?s)"
    using try_block_fits [OF wf', of h "n + 8"] h p(2) u by simp
  with wf' rq obtain d where d: "2 ^ 3 dvd unat d" "unat h + 32 \<le> unat d" "unat d < unat h + 32 + 2 ^ 3"
      "unat (n + 8) + 32 < unat (hb_size (blocks ?s h))"
      "try_block (n + 8) (2 ^ 3) h ?s = res_bind (take_aligned h d (n + 8) ?s) (\<lambda>(r, s). Inr (Some r, s))"
  proof (cases rule: try_block_cases)
    case (front f)
    then have "(unat h + 16) mod 8 = 0" by (simp add: dvd_eq_mod_eq_0)
    then show ?thesis using p(1) by presburger
  qed blast
  have dh: "unat d = unat h + 39" using d(1-3) p(1) by (simp add: dvd_eq_mod_eq_0) presburger
  define c where "c = d - HDR"
  let ?H = "cut_headers (blocks ?s) h c (n + 8)"
  have fr: "\<not> allocated (blocks ?s h)" using h by simp
  have "2 ^ 3 \<le> unat (n + 8) + 1" using u by simp
  note t = take_aligned_shape [OF wf' fr _ d(2,3,4) this c_def refl, simplified]
  have ch: "unat (c - h) = 23" using t(2) dh by (subst unat_sub32) simp_all
  then have "c - h = 23" by (simp add: word_unat_eq_iff)
  moreover have "c \<noteq> h" using ch by auto
  moreover have "unat (40 + n) = unat n + 40" "unat (18 + n) = unat n + 18" using n by (auto simp: unat_word_ariths)
  ultimately have H: "?H c = alloc_header (free_header 0 0) (n + 18) (hb_next (blocks s h))"
    using p(2) by (simp add: cut_headers_def HDR_def word_less_nat_alt Let_def add.commute)
  have sz: "16 \<le> unat (hb_size (?H c))" "unat (hb_size (?H c)) < 24" "23 - unat (hb_size (?H c)) = 5 - unat n"
    unfolding H using u n by auto
  then have w: "with_canary c ?H c = clobbered (?H c)" by (simp add: with_canary_def word_less_nat_alt HDR_def)
  have a: "heap_alloc_block_aligned n (2 ^ 3) s = Inr (c, taken c ?H ?s)"
    by (rule alloc_from_only_free [OF wf(1,2) h(1)]) (use h(2) d(5) t(1) in auto)
  have "hb_magic (blocks (taken c ?H ?s) c) = MAGIC_ALLOCATED" "c \<noteq> NULL"
    using w clobbered_front(1) [OF sz(1)] H t(2) dh by auto
  then have "heap_alloc_aligned n 8 s = Inr (c + HDR, taken c ?H ?s)" using a by (simp add: heap_alloc_aligned_def)
  moreover have "drop_bit 24 (hb_next (blocks (taken c ?H ?s) c)) = 0x7F + n"
    using clobbered_next [OF sz(1,2)] canary_byte [OF p(3,4)] w sz(3) by simp
  ultimately show ?thesis by (intro exI [of _ "c + HDR"] exI [of _ "taken c ?H ?s"]) simp
qed

text \<open>A heap with such a block between two allocated ones.\<close>

definition tight_heap :: heap_state where
  "tight_heap = sample_heap\<lparr>canaries := \<lambda>_. CANARY, blocks := (\<lambda>_. free_header 0 0)
     (0xC0200010 := alloc_header (free_header 0 0) 0x21 0xC0200031, 0xC0200031 := free_header 42 0xC020005B,
      0xC020005B := alloc_header (free_header 0 0) 0xFA5 0)\<rparr>"

lemma tight_heap_wf: "heap_wf tight_heap [0xC0200010, 0xC0200031, 0xC020005B]"
  by (simp add: heap_wf_def tight_heap_def sample_heap_def create_block_def upd_block_def good_header_def)

theorem heap_small_request_clobbers_witness:
  "\<exists>r s'. heap_alloc_aligned 1 8 tight_heap = Inr (r, s') \<and> drop_bit 24 (hb_next (blocks s' (r - HDR))) = 0x7F + 1"
  by (rule heap_small_request_clobbers [OF tight_heap_wf, of 1 "0xC0200031"])
    (simp_all add: tight_heap_def sample_heap_def create_block_def upd_block_def alloc_ok_def)

end
