(* ===== verification/Kmalloc.thy ===== *)
theory Kmalloc
  imports HeapFree
begin

text \<open>
  The kernel allocator of \<open>kernel/kmalloc.c\<close>, a critical section around the kernel heap, and
  the initialisation of the physical memory manager (\<open>add_region\<close> and \<open>pmm_init\<close> of
  \<open>kernel/pmm.c\<close>), which allocates its regions and bitmaps with it.
\<close>

section \<open>The kernel allocator\<close>

record kmalloc_state = heap_state +
  trace_enabled :: bool

definition kmalloc_init :: "u32 \<Rightarrow> 'a kmalloc_state_scheme \<Rightarrow> 'a kmalloc_state_scheme res" where
  "kmalloc_init start s =
     (let heap_start = ALIGN start PAGE_SIZE;
          max_size = 0xC0400000 - heap_start
      in res_bind (heap_init heap_start (PAGE_SIZE * 64) max_size s) (\<lambda>(_, s). Inr s))"

definition kmalloc_a :: "u32 \<Rightarrow> u32 \<Rightarrow> 'a heap_state_scheme \<Rightarrow> (u32 \<times> 'a heap_state_scheme) res" where
  "kmalloc_a sz alignment s =
     assert_then (sz \<noteq> 0)
       (critical (\<lambda>s. res_bind (heap_alloc_aligned sz alignment s) (\<lambda>(result, s).
          if result = NULL then Inl Panic else Inr (result, s))) s)"

definition kmalloc :: "u32 \<Rightarrow> 'a heap_state_scheme \<Rightarrow> (u32 \<times> 'a heap_state_scheme) res" where
  "kmalloc sz s = assert_then (sz \<noteq> 0) (kmalloc_a sz 8 s)"

definition kfree :: "u32 \<Rightarrow> 'a heap_state_scheme \<Rightarrow> (unit \<times> 'a heap_state_scheme) res" where
  "kfree address s =
     critical (\<lambda>s. if address \<noteq> NULL then heap_free address s else Inr ((), s)) s"

record kernel_heap_info =
  heap_start :: u32
  heap_info_size :: u32

definition kernel_heap_info :: "'a heap_state_scheme \<Rightarrow> (kernel_heap_info \<times> 'a heap_state_scheme) res" where
  "kernel_heap_info s =
     critical (\<lambda>s. res_bind (heap_info s) (\<lambda>(address, sz, _).
       Inr (\<lparr>heap_start = address, heap_info_size = sz\<rparr>, s))) s"

definition heap_trace_start :: "'a kmalloc_state_scheme \<Rightarrow> 'a kmalloc_state_scheme" where
  "heap_trace_start s = s\<lparr>trace_enabled := True\<rparr>"

definition heap_trace_stop :: "'a kmalloc_state_scheme \<Rightarrow> 'a kmalloc_state_scheme" where
  "heap_trace_stop s = s\<lparr>trace_enabled := False\<rparr>"

definition kernel_heap_check :: "'a heap_state_scheme \<Rightarrow> unit res" where
  "kernel_heap_check s = heap_check s"

section \<open>The regions of physical memory\<close>

record multiboot_mmap_entry =
  mmap_size :: u32
  mmap_base :: u64
  mmap_length :: u64
  mmap_type :: u32

definition MULTIBOOT_MEMORY_AVAILABLE :: u32 where
  "MULTIBOOT_MEMORY_AVAILABLE = 1"

text \<open>
  \<open>add_region\<close>: the region record (16 bytes) and its bitmap come from \<open>kmalloc\<close>; the bitmap
  memory is overwritten by \<open>bitset_init\<close>, so that its first contents (\<open>0\<close> here) do not matter.
\<close>

definition add_region :: "u32 \<Rightarrow> u32 \<Rightarrow> 'a heap_state_scheme \<Rightarrow> (unit \<times> 'a heap_state_scheme) res" where
  "add_region addr len0 s =
     (let aligned_start = ALIGN addr PAGE_SIZE;
          len = len0 - (aligned_start - addr);
          aligned_len = TRUNCATE len PAGE_SIZE
      in
      assert_then (aligned_start mod PAGE_SIZE = 0) (
      assert_then (aligned_len mod PAGE_SIZE = 0) (
      res_bind (kmalloc 16 s) (\<lambda>(region, s).
      let bitset_size = aligned_len div PAGE_SIZE in
      res_bind (bitset_alloc_size bitset_size) (\<lambda>alloc_size.
      res_bind (kmalloc alloc_size s) (\<lambda>(bm, s).
      res_bind (bitset_init \<lparr>size_bits = 0, element_count = 0,
                             data = replicate (unat (alloc_size - 8) div 4) 0\<rparr> bitset_size) (\<lambda>b.
        Inr ((), s\<lparr>memregions :=
          \<lparr>region_addr = aligned_start, region_len = aligned_len, bitmap = b\<rparr> # memregions s\<rparr>))))))))"

definition entry_available :: "multiboot_mmap_entry \<Rightarrow> bool" where
  "entry_available e \<longleftrightarrow> HIDWORD (mmap_base e) = 0 \<and> mmap_type e = MULTIBOOT_MEMORY_AVAILABLE"

fun add_entries :: "multiboot_mmap_entry list \<Rightarrow> 'a heap_state_scheme \<Rightarrow> (unit \<times> 'a heap_state_scheme) res" where
  "add_entries [] s = Inr ((), s)"
| "add_entries (e # es) s =
     (if entry_available e
      then res_bind (add_region (LODWORD (mmap_base e)) (LODWORD (mmap_length e)) s) (\<lambda>(_, s). add_entries es s)
      else add_entries es s)"

definition pmm_init :: "multiboot_mmap_entry list \<Rightarrow> 'a heap_state_scheme \<Rightarrow> (unit \<times> 'a heap_state_scheme) res" where
  "pmm_init entries s = res_bind (add_entries entries s) (\<lambda>(_, s). Inr ((), s\<lparr>initialized := True\<rparr>))"

section \<open>The allocator keeps the heap well formed\<close>

definition kheap_inv :: "'a heap_state_scheme \<Rightarrow> u32 set \<Rightarrow> bool" where
  "kheap_inv s L \<longleftrightarrow> (\<exists>bs. heap_inv s L bs)"

lemma heap_inv_eflags [simp]: "heap_inv (s\<lparr>eflags := f\<rparr>) L bs = heap_inv s L bs"
  by (simp add: heap_inv_def heap_wf_def live_def canary_addr_def)

lemma heap_inv_flags [simp]:
  "heap_inv (cli s) L bs = heap_inv s L bs" "heap_inv (restore_if f s) L bs = heap_inv s L bs"
  by (simp_all add: cli_def restore_if_def sti_def)

lemma kheap_inv_flags [simp]:
  "kheap_inv (cli s) L = kheap_inv s L" "kheap_inv (restore_if f s) L = kheap_inv s L"
  by (simp_all add: kheap_inv_def)

lemma kmalloc_a_Inr:
  "kmalloc_a sz al s = Inr (p, s') \<longleftrightarrow>
     sz \<noteq> 0 \<and> p \<noteq> NULL
     \<and> (\<exists>t. heap_alloc_aligned sz al (cli s) = Inr (p, t) \<and> s' = restore_if (fst (disable_if s)) t)"
  by (auto simp: kmalloc_a_def critical_Inr res_simps split: if_splits)

definition kmalloc_request :: "heap_request \<Rightarrow> 'a heap_state_scheme \<Rightarrow> (u32 \<times> 'a heap_state_scheme) res" where
  "kmalloc_request q s = kmalloc_a (fst q) (2 ^ snd q) s"

lemma heap_inv_nonnull:
  assumes "heap_inv s L bs" "p \<in> L"
  shows "p \<noteq> NULL"
proof -
  obtain b where b: "b \<in> set bs" "p = b + HDR" using assms by (auto simp: heap_inv_def live_def)
  have wf: "heap_wf s bs" using assms(1) by (simp add: heap_inv_def)
  have "unat b + 16 < 4294967296"
    using heap_wf_end [OF wf b(1)] heap_wf_good [OF wf b(1)] by (simp add: good_header_def)
  then have "unat (b + 16) = unat b + 16" by (subst unat_add32) simp_all
  then show ?thesis using b(2) by (auto simp: HDR_def)
qed

interpretation km: block_allocator kheap_inv request_in_range kmalloc_request kfree
proof
  fix s :: "'a heap_state_scheme" and L q p s'
  assume i: "kheap_inv s L" and q: "request_in_range q" "kmalloc_request q s = Inr (p, s')"
  obtain bs where b: "heap_inv (cli s) L bs" using i by (auto simp: kheap_inv_def)
  obtain t where t: "heap_alloc_aligned (fst q) (2 ^ snd q) (cli s) = Inr (p, t)"
      "s' = restore_if (fst (disable_if s)) t"
    using q(2) by (auto simp: kmalloc_request_def kmalloc_a_Inr)
  show "p \<notin> L \<and> kheap_inv s' (insert p L)"
    using heap_inv_alloc_new(1) [OF b t(1)] heap_inv_alloc [OF b t(1)] q(1) t(2)
    by (auto simp: request_in_range_def kheap_inv_def)
next
  fix s :: "'a heap_state_scheme" and L p
  assume i: "kheap_inv s L" "p \<in> L"
  obtain bs where b: "heap_inv (cli s) L bs" using i by (auto simp: kheap_inv_def)
  obtain t cs where t: "heap_free p (cli s) = Inr ((), t)" "heap_inv t (L - {p}) cs"
    using heap_inv_release [OF b i(2)] by blast
  have "kfree p s = Inr ((), restore_if (fst (disable_if s)) t)"
    using t(1) heap_inv_nonnull [OF b i(2)] by (simp add: kfree_def critical_Inr)
  then show "\<exists>s'. kfree p s = Inr ((), s') \<and> kheap_inv s' (L - {p})"
    using t(2) by (auto simp: kheap_inv_def)
qed

section \<open>Before paging the heap leaves the memory manager alone\<close>

definition boot_part :: "'a vmm_state_scheme \<Rightarrow> bool \<times> memregion list \<times> bool \<times> u32" where
  "boot_part s = (initialized s, memregions s, paging_enabled s, eflags s)"

named_theorems boot_simps \<open>the part of the state that heap operations leave alone\<close>

lemma boot_part_upd [simp]:
  "boot_part (upd_block a f t) = boot_part t" "boot_part (create_block a n t) = boot_part t"
  "boot_part (write_canary a t) = boot_part t" "boot_part (t\<lparr>kheap := h\<rparr>) = boot_part t"
  "boot_part (snd (heap_unlock t)) = boot_part t" "boot_part (snd (heap_lock t)) = boot_part t"
  by (simp_all add: boot_part_def upd_block_def create_block_def write_canary_def Let_def heap_unlock_def heap_lock_def
      split: prod.splits)

lemma boot_part_set [boot_simps]:
  "set_allocated b s = Inr t \<Longrightarrow> boot_part t = boot_part s" "set_free b s = Inr t \<Longrightarrow> boot_part t = boot_part s"
  "merge_blocks p q s = Inr (r, t) \<Longrightarrow> boot_part t = boot_part s"
  "unlock_return r' s = Inr (r, t) \<Longrightarrow> boot_part t = boot_part s"
  by (auto simp: set_allocated_def set_free_def merge_blocks_def unlock_return_def res_simps case_prod_unfold)

lemma boot_part_take [boot_simps]:
  "take_whole h s = Inr (r, t) \<Longrightarrow> boot_part t = boot_part s"
  "take_split h sz s = Inr (r, t) \<Longrightarrow> boot_part t = boot_part s"
  by (auto simp: take_whole_def take_split_def res_simps Let_def dest!: boot_simps)

lemma boot_part_cut [boot_simps]:
  "cut_front h hd1 s = Inr t \<Longrightarrow> boot_part t = boot_part s"
  "split_tail h hd1 sz tot s = Inr t \<Longrightarrow> boot_part t = boot_part s"
  by (auto simp: cut_front_def split_tail_def res_simps Let_def dest!: boot_simps split: if_splits)

lemma boot_part_aligned [boot_simps]: "take_aligned h d sz s = Inr (r, t) \<Longrightarrow> boot_part t = boot_part s"
  by (auto simp: take_aligned_def res_simps Let_def dest!: boot_simps)

lemma boot_part_try [boot_simps]: "try_block sz al h s = Inr (r, t) \<Longrightarrow> boot_part t = boot_part s"
  by (auto simp: try_block_def res_simps Let_def dest!: boot_simps split: if_splits option.splits)

text \<open>While neither paging nor the memory manager is on, growing only moves the end of the heap.\<close>

definition early :: "'a vmm_state_scheme \<Rightarrow> bool" where
  "early s \<longleftrightarrow> \<not> paging_enabled s \<and> \<not> initialized s"

lemma early_cong: "boot_part t = boot_part s \<Longrightarrow> early t = early s"
  by (simp add: boot_part_def early_def)

lemma grow_page_early: "early s \<Longrightarrow> grow_page page s = Inr (True, s)"
  by (simp add: grow_page_def early_def vmm_paging_enabled_def pmm_initialized_def)

lemma grow_loop_early:
  "grow_loop page lim a s = Some r \<Longrightarrow> early s \<Longrightarrow> r = Inr (a', t) \<Longrightarrow> boot_part t = boot_part s"
proof (induction arbitrary: a' t rule: grow_loop.raw_induct [rotated, consumes 1, case_names 1])
  case (1 g page lim a s r)
  show ?case
  proof (cases "page < lim \<and> \<not> heap_size (kheap s) \<ge> heap_max_size (kheap s)")
    case False
    then show ?thesis using 1 by (auto split: if_splits)
  next
    case True
    let ?s = "s\<lparr>kheap := (kheap s)\<lparr>heap_size := heap_size (kheap s) + PAGE_SIZE\<rparr>\<rparr>"
    have "g (page + PAGE_SIZE) lim (a + PAGE_SIZE) ?s = Some r"
      using 1(2,3) True by (simp add: grow_page_early)
    moreover have "early ?s" using 1(3) by (simp add: early_def)
    ultimately show ?thesis using 1(1) [of _ _ _ ?s r a' t] 1(4) by simp
  qed
qed

lemma heap_grow_early: "heap_grow sz s = Inr (r, t) \<Longrightarrow> early s \<Longrightarrow> boot_part t = boot_part s"
  by (auto simp: heap_grow_def res_simps Let_def loop_result_def dest!: boot_simps grow_loop_early
      split: if_splits option.splits)

lemma alloc_walk_early:
  "alloc_walk sz al h s = Some r \<Longrightarrow> r = Inr (x, t) \<Longrightarrow> boot_part t = boot_part s"
proof (induction arbitrary: x t rule: alloc_walk.raw_induct [rotated, consumes 1, case_names 1])
  case (1 g sz al h s r)
  show ?case
  proof (cases "h = NULL \<or> (\<exists>e. try_block sz al h s = Inl e)")
    case True
    then show ?thesis using 1(2,3) by (auto split: if_splits)
  next
    case False
    then obtain o' s1 where o': "try_block sz al h s = Inr (o', s1)" "h \<noteq> NULL" by (cases "try_block sz al h s") auto
    then show ?thesis
      using 1(1) [of sz al "hb_next (blocks s1 h)" s1 r x t] 1(2,3) boot_part_try [OF o'(1)]
      by (cases o') auto
  qed
qed

lemma alloc_loop_early:
  "alloc_loop sz al s = Some r \<Longrightarrow> early s \<Longrightarrow> r = Inr (x, t) \<Longrightarrow> boot_part t = boot_part s"
proof (induction arbitrary: x t rule: alloc_loop.raw_induct [rotated, consumes 1, case_names 1])
  case (1 g sz al s r)
  obtain o' s1 where o': "alloc_walk sz al (heap_head (kheap s)) s = Some (Inr (o', s1))"
    using 1(2,4) by (auto simp: loop_result_def split: option.splits sum.splits)
  have b: "boot_part s1 = boot_part s" using alloc_walk_early [OF o' refl] .
  show ?case
  proof (cases o')
    case (Some p)
    then show ?thesis using 1(2,4) o' b by auto
  next
    case None
    obtain n s2 where n: "heap_grow sz s1 = Inr (n, s2)" using 1(2,4) o' None by (auto split: sum.splits)
    have b2: "boot_part s2 = boot_part s" using heap_grow_early [OF n] early_cong [OF b] 1(3) b by simp
    show ?thesis
    proof (cases "n = NULL")
      case True
      then show ?thesis using 1(2,4) o' None n b2 by (auto dest!: boot_part_set(4))
    next
      case False
      then show ?thesis using 1(1) [of sz al s2 r x t] 1(2,3,4) o' None n b2 early_cong [OF b2] by simp
    qed
  qed
qed

lemma kmalloc_early:
  assumes "kmalloc sz s = Inr (p, t)" "early s"
  shows "boot_part t = boot_part s"
proof -
  obtain u where u: "heap_alloc_aligned sz 8 (cli s) = Inr (p, u)" "t = restore_if (fst (disable_if s)) u"
    using assms(1) by (auto simp: kmalloc_def kmalloc_a_Inr res_simps)
  obtain l where l: "alloc_loop (sz + 8) 8 (snd (heap_lock (cli s))) = Some (Inr (l, u))"
    using u(1) by (auto simp: heap_alloc_aligned_def heap_alloc_block_aligned_def loop_result_def res_simps
        case_prod_unfold split: if_splits option.splits)
  have "early (snd (heap_lock (cli s)))"
    using assms(2) by (simp add: early_def heap_lock_def cli_def split: prod.splits)
  then have "boot_part u = boot_part (cli s)" using alloc_loop_early [OF l _ refl] by simp
  moreover from this have "t = u\<lparr>eflags := eflags s\<rparr>"
    using u(2) by (subst u(2), intro restore_after_cli) (simp add: boot_part_def)
  ultimately show ?thesis by (simp add: boot_part_def cli_def)
qed

section \<open>The regions after initialisation\<close>

text \<open>The frames that lie completely inside an address range.\<close>

definition whole_frames :: "u32 \<Rightarrow> u32 \<Rightarrow> nat set" where
  "whole_frames a l = {f. 4096 dvd f \<and> unat a \<le> f \<and> f + 4096 \<le> unat a + unat l}"

text \<open>A range in the 32-bit space that holds at least the bytes up to its first page boundary.\<close>

definition range_ok :: "u32 \<Rightarrow> u32 \<Rightarrow> bool" where
  "range_ok a l \<longleftrightarrow> unat a + unat l + 4095 < 2 ^ 32 \<and> (unat a + 4095) div 4096 * 4096 \<le> unat a + unat l"

lemma region_arith:
  assumes "range_ok a l"
  defines "st \<equiv> ALIGN a PAGE_SIZE"
  defines "ln \<equiv> TRUNCATE (l - (st - a)) PAGE_SIZE"
  shows "unat st = (unat a + 4095) div 4096 * 4096"
    "unat ln = (unat a + unat l - unat st) div 4096 * 4096"
proof -
  have P: "PAGE_SIZE = 2 ^ 12" by (simp add: PAGE_SIZE_def)
  show st: "unat st = (unat a + 4095) div 4096 * 4096"
    using unat_ALIGN [of 12 a] assms(1) by (simp add: st_def P range_ok_def)
  have ge: "unat a \<le> unat st" unfolding st using round_up_bounds(1) [of 4096 "unat a"] by simp
  then have d: "unat (st - a) = unat st - unat a" by (rule unat_sub32)
  have "unat st - unat a \<le> unat l" using assms(1) st unfolding range_ok_def by linarith
  then have "unat (l - (st - a)) = unat a + unat l - unat st"
    using d ge by (subst unat_sub32) simp_all
  then show "unat ln = (unat a + unat l - unat st) div 4096 * 4096"
    by (simp add: ln_def unat_TRUNCATE PAGE_SIZE_def)
qed

lemma whole_frames_region:
  fixes x y st n :: nat
  assumes "st = (x + 4095) div 4096 * 4096" "st \<le> x + y" "n = (x + y - st) div 4096"
  shows "{f. 4096 dvd f \<and> x \<le> f \<and> f + 4096 \<le> x + y} = (\<lambda>i. st + 4096 * i) ` {i. i < n}" (is "?L = ?R")
proof
  have b: "x \<le> st" "st < x + 4096" unfolding assms(1) using round_up_bounds [of 4096 x] by simp_all
  show "?R \<subseteq> ?L"
  proof
    fix f assume "f \<in> ?R"
    then obtain i where i: "f = st + 4096 * i" "i < n" by auto
    have "4096 * (i + 1) \<le> 4096 * n" using i(2) by simp
    also have "\<dots> \<le> x + y - st" by (simp add: assms(3))
    finally have "4096 * (i + 1) \<le> x + y - st" .
    then show "f \<in> ?L" using i b assms(1,2) by auto
  qed
  show "?L \<subseteq> ?R"
  proof
    fix f assume f: "f \<in> ?L"
    then obtain q where q: "f = 4096 * q" by (auto elim: dvdE)
    obtain p where p: "st = 4096 * p" using assms(1) by simp
    have "p \<le> q" using f q p b by simp
    have "4096 * (q - p + 1) = f + 4096 - st" using q p \<open>p \<le> q\<close> by (simp add: algebra_simps)
    also have "\<dots> \<le> x + y - st" using f by (intro diff_le_mono) simp
    finally have "q - p + 1 \<le> n" unfolding assms(3) by (simp add: less_eq_div_iff_mult_less_eq)
    then show "f \<in> ?R" using q p \<open>p \<le> q\<close> by (intro image_eqI [of _ _ "q - p"]) (auto simp: algebra_simps)
  qed
qed

lemma add_region_spec:
  assumes run: "add_region a l s = Inr ((), t)" and e: "early s" and ok: "range_ok a l"
  obtains r where "memregions t = r # memregions s" "region_wf r" "region_frames r = whole_frames a l"
    "region_free r = whole_frames a l" "early t"
proof -
  define st where "st = ALIGN a PAGE_SIZE"
  define ln where "ln = TRUNCATE (l - (st - a)) PAGE_SIZE"
  define n where "n = ln div PAGE_SIZE"
  note ar = region_arith [OF ok, folded st_def, folded ln_def]
  obtain p s1 q s2 asz b where k: "kmalloc 16 s = Inr (p, s1)" "bitset_alloc_size n = Inr asz"
      "kmalloc asz s1 = Inr (q, s2)"
      "bitset_init \<lparr>size_bits = 0, element_count = 0, data = replicate (unat (asz - 8) div 4) 0\<rparr> n = Inr b"
      "t = s2\<lparr>memregions := \<lparr>region_addr = st, region_len = ln, bitmap = b\<rparr> # memregions s2\<rparr>"
    using run by (auto simp: add_region_def Let_def res_simps st_def [symmetric] ln_def [symmetric] n_def [symmetric])
  have b1: "boot_part s1 = boot_part s" using kmalloc_early [OF k(1) e] .
  have b2: "boot_part s2 = boot_part s" using kmalloc_early [OF k(3)] early_cong [OF b1] e b1 by simp
  have nn: "unat n = unat ln div 4096" by (simp add: n_def unat_div PAGE_SIZE_def)
  have n20: "unat n < 1048576"
    unfolding nn by (rule less_mult_imp_div_less) (use unat_lt32 [of ln] in linarith)
  then have n31: "unat n + 31 < 2 ^ 32" by simp
  have c: "unat (ALIGN n BIT_PER_ELEMENT div BIT_PER_ELEMENT) = (unat n + 31) div 32" using count_eq [OF n31] .
  have "unat (asz - 8) = 4 * ((unat n + 31) div 32)"
  proof -
    have "asz - 8 = 4 * (ALIGN n BIT_PER_ELEMENT div BIT_PER_ELEMENT)"
      using k(2) by (auto simp: bitset_alloc_size_def Let_def res_simps)
    moreover have "4 * ((unat n + 31) div 32) < 2 ^ 32" using n20 by simp
    ultimately show ?thesis using c by (simp add: unat_word_ariths)
  qed
  then have len: "length (replicate (unat (asz - 8) div 4) (0 :: u32)) = (unat n + 31) div 32" by simp
  obtain b' where b': "bitset_init \<lparr>size_bits = 0, element_count = 0, data = replicate (unat (asz - 8) div 4) 0\<rparr> n = Inr b'"
      "bitset_wf b'" "size_bits b' = n" "bits b' = {}" "padding_clear b'"
    using bitset_init_eq [OF n31, of "\<lparr>size_bits = 0, element_count = 0, data = replicate (unat (asz - 8) div 4) 0\<rparr>"]
      len by auto
  let ?r = "\<lparr>region_addr = st, region_len = ln, bitmap = b\<rparr>"
  have b: "b = b'" using k(4) b'(1) by simp
  have le: "unat st \<le> unat a + unat l" using ok ar(1) by (simp add: range_ok_def)
  have "unat ln \<le> unat a + unat l - unat st" unfolding ar(2) by simp
  then have "unat st + unat ln < 2 ^ 32" using le ok unfolding range_ok_def by linarith
  then have wf: "region_wf ?r" using b' b nn ar by (simp add: region_wf_def)
  have "whole_frames a l = (\<lambda>i. unat st + 4096 * i) ` {i. i < unat n}"
    unfolding whole_frames_def using ar le nn by (intro whole_frames_region) simp_all
  then have "region_frames ?r = whole_frames a l" "region_free ?r = whole_frames a l"
    using b b' by (simp_all add: region_frames_def region_free_def frame_at_def)
  moreover have "memregions t = ?r # memregions s" using k(5) b2 by (simp add: boot_part_def)
  moreover have "early t" using k(5) early_cong [OF b2] e by (simp add: early_def)
  ultimately show thesis using that wf by blast
qed

text \<open>The frames that lie completely inside an entry of the memory map, by its 64-bit base and length.\<close>

definition entry_frames :: "multiboot_mmap_entry \<Rightarrow> nat set" where
  "entry_frames e = {f. 4096 dvd f \<and> unat (mmap_base e) \<le> f \<and> f + 4096 \<le> unat (mmap_base e) + unat (mmap_length e)}"

abbreviation available_frames :: "multiboot_mmap_entry list \<Rightarrow> nat set" where
  "available_frames es \<equiv> (\<Union>e\<in>{e \<in> set es. entry_available e}. entry_frames e)"

text \<open>
  The available entries end below 4 GiB, reach up to their first page boundary and do not
  overlap. (\<open>pmm_init\<close> drops the upper half of a length, and \<open>add_region\<close> wraps on an entry that
  ends before its first page boundary.)
\<close>

definition entry_ok :: "multiboot_mmap_entry \<Rightarrow> bool" where
  "entry_ok e \<longleftrightarrow> unat (mmap_base e) + unat (mmap_length e) + 4095 < 2 ^ 32
     \<and> (unat (mmap_base e) + 4095) div 4096 * 4096 \<le> unat (mmap_base e) + unat (mmap_length e)"

definition apart :: "multiboot_mmap_entry \<Rightarrow> multiboot_mmap_entry \<Rightarrow> bool" where
  "apart e f \<longleftrightarrow> unat (mmap_base e) + unat (mmap_length e) \<le> unat (mmap_base f)
     \<or> unat (mmap_base f) + unat (mmap_length f) \<le> unat (mmap_base e)"

primrec map_ok :: "multiboot_mmap_entry list \<Rightarrow> bool" where
  "map_ok [] \<longleftrightarrow> True"
| "map_ok (e # es) \<longleftrightarrow>
     (entry_available e \<longrightarrow> entry_ok e \<and> list_all (\<lambda>f. entry_available f \<longrightarrow> apart e f) es) \<and> map_ok es"

lemma entry_frames_disjoint: "apart e f \<Longrightarrow> entry_frames f \<inter> entry_frames e = {}"
  by (auto simp: apart_def entry_frames_def)

lemma entry_low:
  assumes "entry_ok e"
  shows "range_ok (LODWORD (mmap_base e)) (LODWORD (mmap_length e))"
    "whole_frames (LODWORD (mmap_base e)) (LODWORD (mmap_length e)) = entry_frames e"
proof -
  have "unat (LODWORD w) = unat w" if "unat w < 2 ^ 32" for w :: u64
    using that by (simp add: LODWORD_def lodword_mask unsigned_ucast_eq unsigned_take_bit_eq take_bit_nat_eq_self flip: take_bit_eq_mask)
  moreover have "unat (mmap_base e) < 2 ^ 32" "unat (mmap_length e) < 2 ^ 32" using assms by (simp_all add: entry_ok_def)
  ultimately show "range_ok (LODWORD (mmap_base e)) (LODWORD (mmap_length e))"
    "whole_frames (LODWORD (mmap_base e)) (LODWORD (mmap_length e)) = entry_frames e"
    using assms by (simp_all add: range_ok_def whole_frames_def entry_frames_def entry_ok_def)
qed

lemma add_entries_spec:
  assumes "add_entries es s = Inr ((), t)" "early s" "map_ok es" "regions_wf (memregions s)"
    "free_of (memregions s) = frames_of (memregions s)"
    "\<And>e. e \<in> set es \<Longrightarrow> entry_available e \<Longrightarrow> entry_frames e \<inter> frames_of (memregions s) = {}"
  shows "regions_wf (memregions t) \<and> free_of (memregions t) = frames_of (memregions t)
    \<and> frames_of (memregions t) = frames_of (memregions s) \<union> available_frames es"
  using assms
proof (induction es arbitrary: s)
  case (Cons e es)
  show ?case
  proof (cases "entry_available e")
    case False
    have "add_entries es s = Inr ((), t)" using Cons.prems(1) False by simp
    then show ?thesis using Cons.IH [of s] Cons.prems False by (auto simp: Collect_disj_eq)
  next
    case True
    obtain u where u: "add_region (LODWORD (mmap_base e)) (LODWORD (mmap_length e)) s = Inr ((), u)"
        "add_entries es u = Inr ((), t)"
      using Cons.prems(1) True by (auto simp: res_simps)
    have ok: "entry_ok e" using Cons.prems(3) True by simp
    obtain r where r: "memregions u = r # memregions s" "region_wf r" "region_frames r = entry_frames e"
        "region_free r = entry_frames e" "early u"
      using add_region_spec [OF u(1) Cons.prems(2) entry_low(1) [OF ok]] entry_low(2) [OF ok] by metis
    have d: "entry_frames e \<inter> frames_of (memregions s) = {}" using Cons.prems(6) [of e] True by simp
    have "entry_frames f \<inter> entry_frames e = {}" if "f \<in> set es" "entry_available f" for f
      using Cons.prems(3) True that by (intro entry_frames_disjoint) (auto simp: list_all_iff)
    then have "entry_frames f \<inter> frames_of (memregions u) = {}" if "f \<in> set es" "entry_available f" for f
      using that Cons.prems(6) [of f] r(1,3) by auto
    then have "regions_wf (memregions t) \<and> free_of (memregions t) = frames_of (memregions t)
        \<and> frames_of (memregions t) = frames_of (memregions u) \<union> available_frames es"
      using Cons.IH [OF u(2) r(5)] Cons.prems(3,4,5) r d by simp
    moreover have "available_frames (e # es) = entry_frames e \<union> available_frames es" using True by auto
    ultimately show ?thesis using r by auto
  qed
qed auto

text \<open>
  C11: \<open>pmm_init\<close> on a memory map whose available entries end below 4 GiB, reach at least their
  first page boundary and do not overlap establishes the invariant of the memory manager, and
  the free frames are exactly the page frames that lie completely inside an available entry.
\<close>

theorem pmm_init_frees_available:
  assumes "pmm_init es s = Inr ((), t)" "\<not> paging_enabled s" "\<not> initialized s" "memregions s = []" "map_ok es"
  shows "pmm_wf t \<and> pmm_initialized t \<and> free_frames t = frames t \<and> free_frames t = available_frames es"
proof -
  obtain u where u: "add_entries es s = Inr ((), u)" "t = u\<lparr>initialized := True\<rparr>"
    using assms(1) by (auto simp: pmm_init_def res_simps)
  show ?thesis
    using add_entries_spec [OF u(1)] assms u(2)
    by (simp add: early_def pmm_wf_def pmm_initialized_def free_frames_def frames_def)
qed

lemma case_res_True: "(case r of Inl _ \<Rightarrow> False | Inr x \<Rightarrow> P x) \<Longrightarrow> \<exists>x. r = Inr x \<and> P x"
  by (cases r) auto

lemma res_unit_ok:
  assumes "case r of Inl _ \<Rightarrow> False | Inr _ \<Rightarrow> True"
  obtains t where "r = Inr ((), t)"
  using assms by (cases r) auto

definition sample_mmap :: "multiboot_mmap_entry list" where
  "sample_mmap = [\<lparr>mmap_size = 20, mmap_base = 0x9FC00, mmap_length = 0x400, mmap_type = 2\<rparr>,
     \<lparr>mmap_size = 20, mmap_base = 0x100400, mmap_length = 0x4000, mmap_type = 1\<rparr>]"

theorem pmm_init_frees_available_witness:
  "case pmm_init sample_mmap sample_heap of Inl _ \<Rightarrow> False
   | Inr (_, t) \<Rightarrow> pmm_wf t \<and> free_frames t = available_frames sample_mmap"
proof -
  have "case pmm_init sample_mmap sample_heap of Inl _ \<Rightarrow> False | Inr _ \<Rightarrow> True" by code_simp
  then obtain t where t: "pmm_init sample_mmap sample_heap = Inr ((), t)" by (rule res_unit_ok)
  have m: "map_ok sample_mmap"
    by (simp add: sample_mmap_def entry_ok_def entry_available_def MULTIBOOT_MEMORY_AVAILABLE_def)
  have e: "\<not> paging_enabled sample_heap" "\<not> initialized sample_heap" "memregions sample_heap = []"
    by (simp_all add: sample_heap_def sample_boot_def create_block_def upd_block_def)
  from pmm_init_frees_available [OF t e m] show ?thesis unfolding t sum.case prod.case by blast
qed



end
