(* ===== verification/VmmDir.thy ===== *)
theory VmmDir
  imports Kmalloc
begin

text \<open>
  The rest of \<open>kernel/vmm.c\<close>, which needs the kernel allocator: the first page directory,
  transient mappings, cloning, resetting and destroying page directories, and switching
  between them.
\<close>

section \<open>Transient mappings\<close>

record transient_map =
  tm_frame :: u32
  tm_flags :: u32
  tm_address :: u32

record dir_state = kmalloc_state +
  tmaps :: "u32 \<Rightarrow> transient_map"
  tlinks :: links
  transient_maps :: list_header

definition vmm_transient_map :: "u32 \<Rightarrow> u32 \<Rightarrow> 'a dir_state_scheme \<Rightarrow> (u32 \<times> 'a dir_state_scheme) res" where
  "vmm_transient_map frame flags s =
     res_bind (kmalloc_a PAGE_SIZE PAGE_SIZE s) (\<lambda>(address, s).
     critical (\<lambda>s.
       res_bind (kmalloc 20 s) (\<lambda>(mp, s).
       res_bind (vmm_get_physical address s) (\<lambda>(old_frame, s).
       res_bind (vmm_get_flags address s) (\<lambda>(old_flags, s).
       let s = s\<lparr>tmaps := (tmaps s)(mp := \<lparr>tm_frame = old_frame, tm_flags = old_flags, tm_address = address\<rparr>),
                 tlinks := (tlinks s)(mp := detached)\<rparr>
       in
       res_bind (vmm_unmap address s) (\<lambda>(_, s).
       res_bind (vmm_map address frame (VMM_PAGE_PRESENT OR flags) s) (\<lambda>(_, s).
       case list_append (tlinks s) (transient_maps s) mp of (lk, l) \<Rightarrow>
         Inr (address, s\<lparr>tlinks := lk, transient_maps := l\<rparr>))))))) s)"

text \<open>The loop body of \<open>vmm_transient_unmap\<close>; the flag is the variable \<open>found\<close>.\<close>

definition transient_unmap_body ::
    "u32 \<Rightarrow> ptr \<Rightarrow> bool \<times> 'a dir_state_scheme \<Rightarrow> (bool \<times> bool \<times> 'a dir_state_scheme) res" where
  "transient_unmap_body address mp fs =
     (case fs of (found, s) \<Rightarrow>
        if tm_address (tmaps s mp) = address then
          res_bind (vmm_unmap address s) (\<lambda>(_, s).
          res_bind (vmm_map address (tm_frame (tmaps s mp)) (tm_flags (tmaps s mp)) s) (\<lambda>(_, s).
          case list_remove (tlinks s) (transient_maps s) mp of (lk, l) \<Rightarrow>
            let s = s\<lparr>tlinks := lk, transient_maps := l\<rparr> in
            res_bind (kfree mp s) (\<lambda>(_, s).
            res_bind (kfree address s) (\<lambda>(_, s).
              Inr (True, True, s)))))
        else Inr (False, found, s))"

definition vmm_transient_unmap :: "u32 \<Rightarrow> 'a dir_state_scheme \<Rightarrow> (unit \<times> 'a dir_state_scheme) res" where
  "vmm_transient_unmap address s =
     critical (\<lambda>s.
       res_bind (list_foreach (\<lambda>fs. tlinks (snd fs)) (transient_maps s) (transient_unmap_body address) (False, s))
         (\<lambda>(found, s). if \<not> found then Inl Panic else Inr ((), s))) s"

section \<open>Counting loops over table entries\<close>

primrec for_each :: "('i \<Rightarrow> 's \<Rightarrow> 's res) \<Rightarrow> 'i list \<Rightarrow> 's \<Rightarrow> 's res" where
  "for_each body [] s = Inr s"
| "for_each body (i # is) s = res_bind (body i s) (for_each body is)"

definition entry_range :: "u32 \<Rightarrow> u32 \<Rightarrow> u32 list" where
  "entry_range a b = map of_nat [unat a..<Suc (unat b)]"

definition copy_word :: "u32 \<Rightarrow> u32 \<Rightarrow> u32 \<Rightarrow> 'a vmm_state_scheme \<Rightarrow> 'a vmm_state_scheme res" where
  "copy_word dst src i s = res_bind (load32 s (src + 4 * i)) (\<lambda>w. store32 s (dst + 4 * i) w)"

definition memcpy_page :: "u32 \<Rightarrow> u32 \<Rightarrow> 'a vmm_state_scheme \<Rightarrow> 'a vmm_state_scheme res" where
  "memcpy_page dst src s = for_each (copy_word dst src) (entry_range 0 1023) s"

section \<open>The first page directory\<close>

definition vmm_map_linear :: "u32 \<Rightarrow> u32 \<Rightarrow> u32 \<Rightarrow> u32 \<Rightarrow> 'a heap_state_scheme \<Rightarrow> 'a heap_state_scheme res" where
  "vmm_map_linear pagedir va pa flags s =
     assert_then (\<not> paging_enabled s) (
     assert_then (IS_ALIGNED va PAGE_SIZE) (
     assert_then (IS_ALIGNED pa PAGE_SIZE) (
     let info = va_info va;
         pde_addr = pagedir_entry pagedir (dir_index info)
     in
     res_bind (load32 s pde_addr) (\<lambda>pde.
     res_bind
       (if pde AND PDE_PRESENT = 0 then
          res_bind (kmalloc_a 4096 PAGE_SIZE s) (\<lambda>(table, s).
          assert_then (IS_ALIGNED table PAGE_SIZE) (
          res_bind (bzero_table table s) (\<lambda>s.
            store32 s pde_addr ((table - KERNEL_BASE_ADDR) OR PDE_PRESENT OR PDE_USER OR PDE_WRITABLE))))
        else Inr s) (\<lambda>s.
     res_bind (load32 s pde_addr) (\<lambda>pde.
     let table = (pde AND PDE_FRAME) + KERNEL_BASE_ADDR;
         pte_addr = pagedir_entry table (table_index info)
     in
     res_bind (load32 s pte_addr) (\<lambda>pte.
     if pte AND PTE_PRESENT \<noteq> 0 then Inl Abort
     else store32 s pte_addr (pa AND PTE_FRAME OR flags))))))))"

partial_function (option) linear_loop ::
    "u32 \<Rightarrow> u32 \<Rightarrow> u32 \<Rightarrow> u32 \<Rightarrow> 'a heap_state_scheme \<Rightarrow> 'a heap_state_scheme res option" where
  "linear_loop pagedir page limit flags s =
     (if page < limit then
        (case vmm_map_linear pagedir page (page - KERNEL_BASE_ADDR) flags s of
           Inl e \<Rightarrow> Some (Inl e)
         | Inr s1 \<Rightarrow> linear_loop pagedir (page + PAGE_SIZE) limit flags s1)
      else Some (Inr s))"

declare linear_loop.simps [code]

text \<open>The section symbols of the linker script, \<open>kernel/kernel.h\<close>.\<close>

record kernel_layout =
  TEXT_START :: u32
  TEXT_END :: u32
  RODATA_START :: u32
  RODATA_END :: u32
  DATA_START :: u32
  DATA_END :: u32
  BSS_START :: u32
  BSS_END :: u32

definition CR0_PG :: u32 where
  "CR0_PG = push_bit 31 1"

definition vmm_init :: "kernel_layout \<Rightarrow> 'a heap_state_scheme \<Rightarrow> 'a heap_state_scheme res" where
  "vmm_init k s =
     assert_then (pmm_initialized s) (
     res_bind (kmalloc_a 4096 PAGE_SIZE s) (\<lambda>(pagedir, s).
     assert_then (IS_ALIGNED pagedir PAGE_SIZE) (
     res_bind (bzero_table pagedir s) (\<lambda>s.
     assert_then (pagedir = pagedir AND PDE_FRAME) (
     res_bind (store32 s (pagedir_entry pagedir 1023) ((pagedir - KERNEL_BASE_ADDR) OR PDE_PRESENT OR PDE_WRITABLE)) (\<lambda>s.
     res_bind (loop_result (linear_loop pagedir (TEXT_START k) (TEXT_END k) VMM_PAGE_PRESENT s)) (\<lambda>s.
     res_bind (loop_result (linear_loop pagedir (RODATA_START k) (RODATA_END k)
                 (VMM_PAGE_PRESENT OR VMM_PAGE_USER) s)) (\<lambda>s.
     res_bind (loop_result (linear_loop pagedir (DATA_START k) (DATA_END k)
                 (VMM_PAGE_PRESENT OR VMM_PAGE_WRITABLE) s)) (\<lambda>s.
     res_bind (loop_result (linear_loop pagedir (BSS_START k) (BSS_END k)
                 (VMM_PAGE_PRESENT OR VMM_PAGE_WRITABLE) s)) (\<lambda>s.
     res_bind (kernel_heap_info s) (\<lambda>(hi, s).
     res_bind (loop_result (linear_loop pagedir (heap_start hi) (heap_start hi + heap_info_size hi)
                 (VMM_PAGE_PRESENT OR VMM_PAGE_WRITABLE) s)) (\<lambda>s.
       Inr (s\<lparr>current_pagedir_va := pagedir, cr3 := pagedir - KERNEL_BASE_ADDR,
              cr0 := cr0 s OR (CR0_PG OR CR0_WP), paging_enabled := True\<rparr>)))))))))))))"

section \<open>Cloning\<close>

definition clone_entry :: "u32 \<Rightarrow> u32 \<Rightarrow> u32 \<Rightarrow> 'a dir_state_scheme \<Rightarrow> 'a dir_state_scheme res" where
  "clone_entry dst src i s =
     res_bind (load32 s (pagedir_entry src i)) (\<lambda>e.
       if e AND PTE_PRESENT \<noteq> 0 then
         let frame = e AND PTE_FRAME;
             flags = e AND PTE_FLAGS
         in
         res_bind (pmm_alloc s) (\<lambda>(new_frame, s).
         assert_then (new_frame \<noteq> INVALID_FRAME) (
         res_bind (vmm_transient_map frame VMM_PAGE_PRESENT s) (\<lambda>(src_buf, s).
         res_bind (vmm_transient_map new_frame (VMM_PAGE_PRESENT OR VMM_PAGE_WRITABLE) s) (\<lambda>(dst_buf, s).
         res_bind (memcpy_page dst_buf src_buf s) (\<lambda>s.
         res_bind (vmm_transient_unmap dst_buf s) (\<lambda>(_, s).
         res_bind (vmm_transient_unmap src_buf s) (\<lambda>(_, s).
           store32 s (pagedir_entry dst i) (new_frame OR flags))))))))
       else Inr s)"

definition clone_pagetable :: "u32 \<Rightarrow> u32 \<Rightarrow> 'a dir_state_scheme \<Rightarrow> 'a dir_state_scheme res" where
  "clone_pagetable dst src s =
     res_bind (bzero_table dst s) (\<lambda>s. for_each (clone_entry dst src) (entry_range 0 1023) s)"

definition clone_user_entry :: "u32 \<Rightarrow> u32 \<Rightarrow> 'a dir_state_scheme \<Rightarrow> 'a dir_state_scheme res" where
  "clone_user_entry result i s =
     res_bind (load32 s (pagedir_entry current_pagedir i)) (\<lambda>e.
       if e AND PDE_PRESENT \<noteq> 0 then
         let src = get_pagetable \<lparr>dir_index = i, table_index = 0\<rparr> in
         res_bind (pmm_alloc s) (\<lambda>(dst_frame, s).
         assert_then (dst_frame \<noteq> INVALID_FRAME) (
         res_bind (vmm_transient_map dst_frame (VMM_PAGE_PRESENT OR VMM_PAGE_WRITABLE) s) (\<lambda>(dst, s).
         res_bind (clone_pagetable dst src s) (\<lambda>s.
         res_bind (vmm_transient_unmap dst s) (\<lambda>(_, s).
         res_bind (load32 s (pagedir_entry current_pagedir i)) (\<lambda>e.
           store32 s (pagedir_entry result i) (dst_frame OR (e AND PDE_FLAGS))))))))
       else Inr s)"

definition copy_kernel_entry :: "u32 \<Rightarrow> u32 \<Rightarrow> 'a vmm_state_scheme \<Rightarrow> 'a vmm_state_scheme res" where
  "copy_kernel_entry pagedir i s =
     res_bind (load32 s (pagedir_entry current_pagedir i)) (\<lambda>e. store32 s (pagedir_entry pagedir i) e)"

definition vmm_clone_pagedir :: "'a dir_state_scheme \<Rightarrow> (u32 \<times> 'a dir_state_scheme) res" where
  "vmm_clone_pagedir s =
     res_bind (kmalloc_a 4096 PAGE_SIZE s) (\<lambda>(result, s).
     res_bind (bzero_table result s) (\<lambda>s.
     critical (\<lambda>s.
       res_bind (for_each (clone_user_entry result) (entry_range USER_PDE_START USER_PDE_END) s) (\<lambda>s.
       res_bind (for_each (copy_kernel_entry result) (entry_range KERNEL_PDE_START KERNEL_PDE_END) s) (\<lambda>s.
       res_bind (vmm_get_physical result s) (\<lambda>(pa, s).
       res_bind (store32 s (pagedir_entry result RECURSIVE_MAPPING_PDE) (pa OR PDE_PRESENT OR PDE_WRITABLE)) (\<lambda>s.
         Inr (result, s)))))) s))"

section \<open>Releasing user mappings\<close>

definition free_entry :: "u32 \<Rightarrow> u32 \<Rightarrow> 'a vmm_state_scheme \<Rightarrow> 'a vmm_state_scheme res" where
  "free_entry table i s =
     res_bind (load32 s (pagedir_entry table i)) (\<lambda>e.
       if e AND PTE_PRESENT \<noteq> 0
       then res_bind (pmm_free (e AND PTE_FRAME) s) (\<lambda>(_, s). Inr s)
       else Inr s)"

definition reset_entry :: "u32 \<Rightarrow> 'a vmm_state_scheme \<Rightarrow> 'a vmm_state_scheme res" where
  "reset_entry i s =
     res_bind (load32 s (pagedir_entry current_pagedir i)) (\<lambda>e.
       if e AND PDE_PRESENT \<noteq> 0 then
         let table_frame = e AND PDE_FRAME;
             table = get_pagetable \<lparr>dir_index = i, table_index = 0\<rparr>
         in
         res_bind (for_each (free_entry table) (entry_range 0 1023) s) (\<lambda>s.
         res_bind (pmm_free table_frame s) (\<lambda>(_, s).
           store32 s (pagedir_entry current_pagedir i) 0))
       else Inr s)"

text \<open>The loop runs to \<open>USER_PDE_END\<close> exclusive: the last user entry holds the kernel stack.\<close>

definition vmm_reset_current_pagedir :: "'a vmm_state_scheme \<Rightarrow> 'a vmm_state_scheme res" where
  "vmm_reset_current_pagedir s = for_each reset_entry (entry_range USER_PDE_START (USER_PDE_END - 1)) s"

definition destroy_entry :: "u32 \<Rightarrow> u32 \<Rightarrow> 'a dir_state_scheme \<Rightarrow> 'a dir_state_scheme res" where
  "destroy_entry pagedir i s =
     res_bind (load32 s (pagedir_entry pagedir i)) (\<lambda>e.
       if e AND PDE_PRESENT \<noteq> 0 then
         let table_frame = e AND PDE_FRAME in
         res_bind (vmm_transient_map table_frame (VMM_PAGE_PRESENT OR VMM_PAGE_WRITABLE) s) (\<lambda>(table, s).
         res_bind (for_each (free_entry table) (entry_range 0 1023) s) (\<lambda>s.
         res_bind (vmm_transient_unmap table s) (\<lambda>(_, s).
         res_bind (pmm_free table_frame s) (\<lambda>(_, s). Inr s))))
       else Inr s)"

definition vmm_destroy_pagedir :: "u32 \<Rightarrow> 'a dir_state_scheme \<Rightarrow> (unit \<times> 'a dir_state_scheme) res" where
  "vmm_destroy_pagedir pagedir s =
     res_bind (for_each (destroy_entry pagedir) (entry_range USER_PDE_START USER_PDE_END) s) (\<lambda>s.
       kfree pagedir s)"

section \<open>Switching\<close>

definition vmm_copy_kernel_mappings :: "u32 \<Rightarrow> 'a vmm_state_scheme \<Rightarrow> (unit \<times> 'a vmm_state_scheme) res" where
  "vmm_copy_kernel_mappings pagedir s =
     assert_then (IS_ALIGNED pagedir PAGE_SIZE) (
     critical (\<lambda>s.
       res_bind (for_each (copy_kernel_entry pagedir) (entry_range KERNEL_PDE_START KERNEL_PDE_END) s) (\<lambda>s.
       res_bind (vmm_get_physical pagedir s) (\<lambda>(pa, s).
       res_bind (load32 s (pagedir_entry pagedir RECURSIVE_MAPPING_PDE)) (\<lambda>e.
         assert_then (e AND PDE_FRAME = pa) (
         assert_then (e AND PDE_PRESENT \<noteq> 0) (
         assert_then (e AND PDE_WRITABLE \<noteq> 0) (
           Inr ((), s)))))))) s)"

definition vmm_switch_pagedir :: "u32 \<Rightarrow> 'a vmm_state_scheme \<Rightarrow> (unit \<times> 'a vmm_state_scheme) res" where
  "vmm_switch_pagedir pagedir s =
     assert_then (IS_ALIGNED pagedir PAGE_SIZE) (
     res_bind (vmm_copy_kernel_mappings pagedir s) (\<lambda>(_, s).
     critical (\<lambda>s.
       res_bind (vmm_get_physical pagedir s) (\<lambda>(pa, s).
         Inr ((), s\<lparr>cr3 := pa, current_pagedir_va := pagedir\<rparr>))) s))"

text \<open>\<open>invlpg\<close> acts on the translation buffer only, which is not part of the model.\<close>

definition vmm_flush_tlb :: "u32 \<Rightarrow> 'a vmm_state_scheme \<Rightarrow> 'a vmm_state_scheme" where
  "vmm_flush_tlb va s = s"

section \<open>The kernel half of a switched address space\<close>

lemma page_entry:
  assumes "4096 dvd unat pd" "unat i < 1024"
  shows "PAGE_DIRECTORY_INDEX (pagedir_entry pd i) = PAGE_DIRECTORY_INDEX pd"
    "PAGE_TABLE_INDEX (pagedir_entry pd i) = PAGE_TABLE_INDEX pd"
    "pagedir_entry pd i AND 0xFFF = 4 * i"
proof -
  obtain q where q: "unat pd = 4096 * q" using assms(1) by (auto elim: dvdE)
  have "q < 1048576" using q unat_lt32 [of pd] by linarith
  then have u: "unat (pagedir_entry pd i) = 4096 * q + 4 * unat i"
    unfolding pagedir_entry_def using assms(2) q by (subst unat_add32) (simp_all add: unat_mult4)
  have d: "(4096 * q + 4 * unat i) div 4096 = q" by (rule div_nat_eqI) (use assms(2) in simp_all)
  have "(4096 * q + 4 * unat i) div 4194304 = (4096 * q + 4 * unat i) div 4096 div 1024"
    "4096 * q div 4194304 = 4096 * q div 4096 div 1024" by (simp_all add: div_mult2_eq [symmetric])
  then show "PAGE_DIRECTORY_INDEX (pagedir_entry pd i) = PAGE_DIRECTORY_INDEX pd"
    by (simp only: word_unat_eq_iff unat_dir_index u q d)
  show "PAGE_TABLE_INDEX (pagedir_entry pd i) = PAGE_TABLE_INDEX pd"
    by (simp add: word_unat_eq_iff unat_table_index u q d)
  show "pagedir_entry pd i AND 0xFFF = 4 * i"
    using assms(2) mod_of_multiple [of "4 * unat i" 4096 q]
    by (simp add: word_unat_eq_iff unat_offset_part u unat_mult4)
qed

text \<open>
  A page directory that is not the current one: its page is mapped writable to a frame that is
  neither the current directory nor a page table of it.
\<close>

definition other_dir :: "u32 \<Rightarrow> u32 \<Rightarrow> 'a vmm_state_scheme \<Rightarrow> bool" where
  "other_dir pd F s \<longleftrightarrow>
     vmm_wf s \<and> paging_enabled s \<and> mappable pd
     \<and> (case pagemap_at s pd of None \<Rightarrow> False | Some e \<Rightarrow> e AND 2 \<noteq> 0 \<and> e AND 0xFFFFF000 = F)
     \<and> F \<noteq> cr3 s
     \<and> (\<forall>k. unat k < 1023 \<longrightarrow> dirent s k AND 1 \<noteq> 0 \<longrightarrow> dirent s k AND 0xFFFFF000 \<noteq> F)"

lemma other_dir_frame: "other_dir pd F s \<Longrightarrow> F AND 0xFFFFF000 = F"
  by (auto simp: other_dir_def frame_part_idem split: option.splits)

lemma dir_translate:
  assumes wf: "vmm_wf s" and m: "mappable pd" "pagemap_at s pd = Some e" "e AND 2 \<noteq> 0" "e AND 0xFFFFF000 = F" and i: "unat i < 1024"
  shows "translate s w (pagedir_entry pd i) = Inr (entry_addr F i)"
proof -
  let ?d = "PAGE_DIRECTORY_INDEX pd" and ?t = "PAGE_TABLE_INDEX pd"
  have al: "4096 dvd unat pd" and d: "unat ?d < 1023" using m(1) mappable_dir by (auto simp: mappable_def)
  have e: "dirent s ?d AND 1 \<noteq> 0" "tabent s ?d ?t AND 1 \<noteq> 0" "tabent s ?d ?t = e"
    using m(2) by (auto simp: pagemap_def split: if_splits)
  have "small_entry (dirent s ?d)" using wf_small [OF wf _ e(1)] d by simp
  moreover have "F AND 0xFFFFF000 = F" using m(4) by (auto simp: frame_part_idem)
  ultimately show ?thesis
    unfolding translate_def page_entry [OF al i] dirent_def [symmetric] tabent_def [symmetric] Let_def
    using e m(3,4) small_entryD by (simp add: writable_ok_def entry_addr_def)
qed

lemma other_dir_translate: "other_dir pd F s \<Longrightarrow> unat i < 1024 \<Longrightarrow> translate s w (pagedir_entry pd i) = Inr (entry_addr F i)"
  by (auto simp: other_dir_def intro: dir_translate split: option.splits)

lemma other_dir_put:
  fixes w :: u32
  assumes o: "other_dir pd F s" and i: "unat i < 1024"
  defines "s' \<equiv> s\<lparr>phys := (phys s)(entry_addr F i := w)\<rparr>"
  shows "unat k < 1024 \<Longrightarrow> dirent s' k = dirent s k" "other_dir pd F s'"
proof -
  have F: "F AND 0xFFFFF000 = F" using other_dir_frame [OF o] .
  have c: "cr3 s AND 0xFFFFF000 = cr3 s" "F \<noteq> cr3 s" using o by (auto simp: other_dir_def vmm_wf_def)
  have d: "dirent s' k = dirent s k" if "unat k < 1024" for k
    using that i c F by (simp add: dirent_def s'_def entry_addr_inj)
  have t: "tabent s' k j = tabent s k j" if "unat k < 1023" "dirent s k AND 1 \<noteq> 0" "unat j < 1024" for k j
  proof -
    have "dirent s k AND 0xFFFFF000 \<noteq> F" using o that by (auto simp: other_dir_def)
    then have "entry_addr (dirent s k) j \<noteq> entry_addr F i" using that(3) i F by (simp add: entry_addr_inj)
    then show ?thesis using that(1) d [of k] by (simp add: tabent_def s'_def dirent_def)
  qed
  have wf: "vmm_wf s'"
    using o d by (intro vmm_wf_cong [of s s']) (simp_all add: other_dir_def s'_def)
  have "unat (PAGE_DIRECTORY_INDEX pd) < 1023" using o mappable_dir by (auto simp: other_dir_def)
  then have "pagemap_at s' pd = pagemap_at s pd"
    using d [of "PAGE_DIRECTORY_INDEX pd"] t [of "PAGE_DIRECTORY_INDEX pd" "PAGE_TABLE_INDEX pd"] index_bounds [of pd]
    by (cases "dirent s (PAGE_DIRECTORY_INDEX pd) AND 1 = 0") (simp_all add: pagemap_def)
  then show "other_dir pd F s'"
    using o wf d by (simp add: other_dir_def s'_def [symmetric]) (simp add: s'_def)
  show "unat k < 1024 \<Longrightarrow> dirent s' k = dirent s k" by (rule d)
qed

lemma copy_loop:
  assumes "other_dir pd F s" "\<And>i. i \<in> set is \<Longrightarrow> unat i < 1024"
  obtains p where "for_each (copy_kernel_entry pd) is s = Inr (s\<lparr>phys := p\<rparr>)"
    "other_dir pd F (s\<lparr>phys := p\<rparr>)" "\<And>i. i \<in> set is \<Longrightarrow> p (entry_addr F i) = dirent s i"
    "\<And>a. a \<notin> entry_addr F ` set is \<Longrightarrow> p a = phys s a"
  using assms
proof (induction "is" arbitrary: s thesis)
  case Nil
  show ?case by (rule Nil.prems(1) [of "phys s"]) (use Nil.prems in simp_all)
next
  case (Cons i "is")
  let ?t = "s\<lparr>phys := (phys s)(entry_addr F i := dirent s i)\<rparr>"
  have i: "unat i < 1024" "vmm_wf s" using Cons.prems(2,3) by (auto simp: other_dir_def)
  have step: "copy_kernel_entry pd i s = Inr ?t"
    using load_dir [OF i(2,1)] other_dir_translate [OF Cons.prems(2) i(1), of True]
    by (simp add: copy_kernel_entry_def store32_def)
  note o = other_dir_put [OF Cons.prems(2) i(1)]
  obtain p where p: "for_each (copy_kernel_entry pd) is ?t = Inr (?t\<lparr>phys := p\<rparr>)"
      "other_dir pd F (?t\<lparr>phys := p\<rparr>)" "\<And>k. k \<in> set is \<Longrightarrow> p (entry_addr F k) = dirent ?t k"
      "\<And>a. a \<notin> entry_addr F ` set is \<Longrightarrow> p a = phys ?t a"
    by (rule Cons.IH [of ?t]) (use o(2) Cons.prems(3) in \<open>simp_all\<close>)
  show ?case
  proof (rule Cons.prems(1) [of p])
    show "for_each (copy_kernel_entry pd) (i # is) s = Inr (s\<lparr>phys := p\<rparr>)" using step p(1) by simp
    show "other_dir pd F (s\<lparr>phys := p\<rparr>)" using p(2) by simp
    show "p (entry_addr F k) = dirent s k" if "k \<in> set (i # is)" for k
    proof (cases "k \<in> set is")
      case True
      then show ?thesis using p(3) o(1) Cons.prems(3) [of k] by simp
    next
      case False
      then have k: "k = i" using that by simp
      then have "entry_addr F k \<notin> entry_addr F ` set is"
        using False i(1) Cons.prems(3) by (auto simp: entry_addr_inj)
      then show ?thesis using p(4) k by simp
    qed
    show "p a = phys s a" if "a \<notin> entry_addr F ` set (i # is)" for a
      using that p(4) [of a] by auto
  qed
qed

lemma entry_range_set: "i \<in> set (entry_range a b) \<longleftrightarrow> unat a \<le> unat i \<and> unat i \<le> unat b"
proof
  assume "i \<in> set (entry_range a b)"
  then obtain n where n: "i = of_nat n" "unat a \<le> n" "n \<le> unat b" by (auto simp: entry_range_def)
  then show "unat a \<le> unat i \<and> unat i \<le> unat b" using le_unat_uoi [OF n(3)] by simp
next
  assume "unat a \<le> unat i \<and> unat i \<le> unat b"
  then show "i \<in> set (entry_range a b)"
    unfolding entry_range_def set_map by (intro image_eqI [of _ _ "unat i"]) (auto simp del: upt_Suc)
qed

lemma pde_bounds: "KERNEL_PDE_START = 768" "KERNEL_PDE_END = 1022" "USER_PDE_END = 767" "RECURSIVE_MAPPING_PDE = 1023"
  by (simp_all add: KERNEL_PDE_START_def KERNEL_PDE_END_def USER_PDE_END_def RECURSIVE_MAPPING_PDE_def
      PAGE_DIRECTORY_INDEX_def KERNEL_START_def)

lemma other_dir_eflags [simp]: "other_dir pd F (s\<lparr>eflags := x\<rparr>) = other_dir pd F s" "other_dir pd F (cli s) = other_dir pd F s"
  by (simp_all add: other_dir_def cli_def)

lemma other_dir_physical: "other_dir pd F s \<Longrightarrow> vmm_get_physical pd s = Inr (F, s)"
  using vmm_get_eq(1) [of s pd] by (auto simp: other_dir_def mappable_def PTE_FRAME_def split: option.splits)

lemma copy_kernel_mappings_result:
  assumes o: "other_dir pd F s" and run: "vmm_copy_kernel_mappings pd s = Inr ((), s')"
  obtains p where "s' = s\<lparr>phys := p\<rparr>" "other_dir pd F s'"
    "\<And>i. 768 \<le> unat i \<Longrightarrow> unat i \<le> 1022 \<Longrightarrow> p (entry_addr F i) = dirent s i"
    "\<forall>a. (\<forall>i. unat i < 1024 \<longrightarrow> a \<noteq> entry_addr F i) \<longrightarrow> p a = phys s a"
proof -
  let ?is = "entry_range KERNEL_PDE_START KERNEL_PDE_END"
  have i: "\<And>i. i \<in> set ?is \<Longrightarrow> unat i < 1024" by (auto simp: entry_range_set pde_bounds)
  have oc: "other_dir pd F (cli s)" using o by simp
  obtain p where p: "for_each (copy_kernel_entry pd) ?is (cli s) = Inr ((cli s)\<lparr>phys := p\<rparr>)"
      "other_dir pd F ((cli s)\<lparr>phys := p\<rparr>)" "\<And>i. i \<in> set ?is \<Longrightarrow> p (entry_addr F i) = dirent (cli s) i"
      "\<And>a. a \<notin> entry_addr F ` set ?is \<Longrightarrow> p a = phys (cli s) a"
    using copy_loop [OF oc i] by blast
  obtain s2 where s2: "s2 = (cli s)\<lparr>phys := p\<rparr>" "s' = restore_if (fst (disable_if s)) s2"
    using run p(1) other_dir_physical [OF p(2)]
    by (auto simp: vmm_copy_kernel_mappings_def res_simps critical_Inr)
  have "s' = s2\<lparr>eflags := eflags s\<rparr>" unfolding s2(2) by (rule restore_after_cli) (simp add: s2(1))
  then have s': "s' = s\<lparr>phys := p\<rparr>" using s2(1) by (simp add: cli_def)
  show thesis
  proof (rule that [OF s'])
    have "(cli s)\<lparr>phys := p\<rparr> = s'\<lparr>eflags := eflags (cli s)\<rparr>" using s' by (simp add: cli_def)
    then show "other_dir pd F s'" using p(2) by simp
    show "p (entry_addr F i) = dirent s i" if "768 \<le> unat i" "unat i \<le> 1022" for i
      using p(3) [of i] that by (simp add: entry_range_set pde_bounds)
    show "\<forall>a. (\<forall>i. unat i < 1024 \<longrightarrow> a \<noteq> entry_addr F i) \<longrightarrow> p a = phys s a"
      using p(4) i by (auto simp: cli_def)
  qed
qed

lemma switch_result:
  assumes o: "other_dir pd F s" and run: "vmm_switch_pagedir pd s = Inr ((), s')"
    and va: "KERNEL_PDE_START \<le> PAGE_DIRECTORY_INDEX va" "PAGE_DIRECTORY_INDEX va \<le> KERNEL_PDE_END"
  shows "translate s' w va = translate s w va \<and> cr3 s' = F \<and> current_pagedir_va s' = pd"
proof -
  obtain t where t: "vmm_copy_kernel_mappings pd s = Inr ((), t)"
      "critical (\<lambda>s. res_bind (vmm_get_physical pd s) (\<lambda>(pa, s).
         Inr ((), s\<lparr>cr3 := pa, current_pagedir_va := pd\<rparr>))) t = Inr ((), s')"
    using run by (auto simp: vmm_switch_pagedir_def res_simps)
  obtain p where p: "t = s\<lparr>phys := p\<rparr>" "other_dir pd F t"
      "\<And>i. 768 \<le> unat i \<Longrightarrow> unat i \<le> 1022 \<Longrightarrow> p (entry_addr F i) = dirent s i"
      "\<forall>a. (\<forall>i. unat i < 1024 \<longrightarrow> a \<noteq> entry_addr F i) \<longrightarrow> p a = phys s a"
    using copy_kernel_mappings_result [OF o t(1)] by blast
  have "other_dir pd F (cli t)" using p(2) by simp
  then have s': "s' = t\<lparr>cr3 := F, current_pagedir_va := pd\<rparr>"
    using t(2) critical_run [of "\<lambda>s. res_bind (vmm_get_physical pd s) (\<lambda>(pa, s).
         Inr ((), s\<lparr>cr3 := pa, current_pagedir_va := pd\<rparr>))" t "()" "(cli t)\<lparr>cr3 := F, current_pagedir_va := pd\<rparr>"]
    by (simp add: other_dir_physical cli_def)
  let ?i = "PAGE_DIRECTORY_INDEX va" and ?j = "PAGE_TABLE_INDEX va"
  have i: "768 \<le> unat ?i" "unat ?i \<le> 1022" using va by (simp_all add: pde_bounds word_le_nat_alt)
  have d: "phys s' (entry_addr (cr3 s') ?i) = dirent s ?i" using p(1,3) i s' by simp
  have "phys s' (entry_addr (dirent s ?i) ?j) = tabent s ?i ?j" if "dirent s ?i AND 1 \<noteq> 0"
  proof -
    have "dirent s ?i AND 0xFFFFF000 \<noteq> F" using o i that by (auto simp: other_dir_def)
    then have "entry_addr (dirent s ?i) ?j \<noteq> entry_addr F k" if "unat k < 1024" for k
      using that index_bounds(2) [of va] other_dir_frame [OF o] by (simp add: entry_addr_inj)
    then show ?thesis using p(1,4) s' by (simp add: tabent_def)
  qed
  moreover have "writable_ok s' w e = writable_ok s w e" for e using p(1) s' by (simp add: writable_ok_def)
  moreover have "phys s (entry_addr (cr3 s) ?i) = dirent s ?i" "phys s (entry_addr (dirent s ?i) ?j) = tabent s ?i ?j"
    by (simp_all add: dirent_def tabent_def)
  ultimately have "translate s' w va = translate s w va"
    unfolding translate_def Let_def d by (cases "dirent s ?i AND 1 = 0") simp_all
  then show ?thesis using s' by simp
qed

text \<open>A directory whose last entry points back to its own frame.\<close>

definition self_entry :: "u32 \<Rightarrow> 'a vmm_state_scheme \<Rightarrow> bool" where
  "self_entry F s \<longleftrightarrow> phys s (entry_addr F 1023) AND PDE_FRAME = F
     \<and> phys s (entry_addr F 1023) AND PDE_PRESENT \<noteq> 0 \<and> phys s (entry_addr F 1023) AND PDE_WRITABLE \<noteq> 0"

lemma copy_kernel_mappings_succeeds:
  assumes o: "other_dir pd F s" and e: "self_entry F s"
  obtains p where "vmm_copy_kernel_mappings pd s = Inr ((), s\<lparr>phys := p\<rparr>)" "other_dir pd F (s\<lparr>phys := p\<rparr>)"
proof -
  let ?is = "entry_range KERNEL_PDE_START KERNEL_PDE_END"
  have i: "\<And>i. i \<in> set ?is \<Longrightarrow> unat i < 1024" by (auto simp: entry_range_set pde_bounds)
  have oc: "other_dir pd F (cli s)" using o by simp
  obtain p where p: "for_each (copy_kernel_entry pd) ?is (cli s) = Inr ((cli s)\<lparr>phys := p\<rparr>)"
      "other_dir pd F ((cli s)\<lparr>phys := p\<rparr>)" "\<And>a. a \<notin> entry_addr F ` set ?is \<Longrightarrow> p a = phys (cli s) a"
    using copy_loop [OF oc i] by blast
  let ?t = "(cli s)\<lparr>phys := p\<rparr>"
  have "entry_addr F 1023 \<notin> entry_addr F ` set ?is"
  proof
    assume "entry_addr F 1023 \<in> entry_addr F ` set ?is"
    then obtain k where k: "k \<in> set ?is" "entry_addr F 1023 = entry_addr F k" by blast
    then have "k = 1023" using entry_addr_inj [of 1023 k F F] i [OF k(1)] by simp
    then show False using k(1) by (simp add: entry_range_set pde_bounds)
  qed
  then have "p (entry_addr F 1023) = phys s (entry_addr F 1023)" using p(3) by (simp add: cli_def)
  moreover have "load32 ?t (pagedir_entry pd RECURSIVE_MAPPING_PDE) = Inr (p (entry_addr F 1023))"
    using other_dir_translate [OF p(2), of 1023 False] by (simp add: load32_def pde_bounds)
  moreover have al: "IS_ALIGNED pd PAGE_SIZE" using o by (simp add: other_dir_def mappable_def page_aligned_iff)
  ultimately have "vmm_copy_kernel_mappings pd s = Inr ((), ?t\<lparr>eflags := eflags s\<rparr>)"
    unfolding vmm_copy_kernel_mappings_def using p(1) other_dir_physical [OF p(2)] e
    by (simp only: al assert_then_True) (rule critical_run, simp_all add: self_entry_def)
  moreover have "other_dir pd F (?t\<lparr>eflags := eflags s\<rparr>)" using p(2) by simp
  ultimately show thesis using that [of p] by (simp add: cli_def)
qed

text \<open>The current page directory, seen through a writable mapping of its page: the copy changes nothing.\<close>

definition own_dir :: "u32 \<Rightarrow> 'a vmm_state_scheme \<Rightarrow> bool" where
  "own_dir pd s \<longleftrightarrow> vmm_wf s \<and> paging_enabled s \<and> mappable pd
     \<and> (case pagemap_at s pd of None \<Rightarrow> False | Some e \<Rightarrow> e AND 2 \<noteq> 0 \<and> e AND 0xFFFFF000 = cr3 s)"

lemma own_dir_eflags [simp]: "own_dir pd (cli s) = own_dir pd s"
  by (simp add: own_dir_def cli_def cong: option.case_cong)

lemma own_dir_translate: "own_dir pd s \<Longrightarrow> unat i < 1024 \<Longrightarrow> translate s w (pagedir_entry pd i) = Inr (entry_addr (cr3 s) i)"
  by (auto simp: own_dir_def intro: dir_translate split: option.splits)

lemma copy_own_loop:
  assumes "own_dir pd s" "\<And>i. i \<in> set is \<Longrightarrow> unat i < 1024"
  shows "for_each (copy_kernel_entry pd) is s = Inr s"
  using assms(2)
proof (induction "is")
  case (Cons i "is")
  have "copy_kernel_entry pd i s = Inr s"
    using load_dir [of s i] own_dir_translate [OF assms(1), of i True] Cons.prems [of i] assms(1)
    by (simp add: copy_kernel_entry_def store32_def own_dir_def dirent_def)
  then show ?case using Cons by simp
qed simp

lemma copy_own_mappings:
  assumes o: "own_dir pd s" and e: "self_entry (cr3 s) s"
  shows "vmm_copy_kernel_mappings pd s = Inr ((), s)"
proof -
  let ?is = "entry_range KERNEL_PDE_START KERNEL_PDE_END"
  have oc: "own_dir pd (cli s)" using o by simp
  have "for_each (copy_kernel_entry pd) ?is (cli s) = Inr (cli s)"
    by (rule copy_own_loop [OF oc]) (auto simp: entry_range_set pde_bounds)
  moreover have "load32 (cli s) (pagedir_entry pd RECURSIVE_MAPPING_PDE) = Inr (phys s (entry_addr (cr3 s) 1023))"
    using own_dir_translate [OF oc, of 1023 False] by (simp add: load32_def pde_bounds cli_def)
  moreover have "vmm_get_physical pd (cli s) = Inr (cr3 s, cli s)"
    using vmm_get_eq(1) [of "cli s" pd] oc by (auto simp: own_dir_def mappable_def PTE_FRAME_def cli_def split: option.splits)
  moreover have "IS_ALIGNED pd PAGE_SIZE" using o by (simp add: own_dir_def mappable_def page_aligned_iff)
  ultimately have "vmm_copy_kernel_mappings pd s = Inr ((), (cli s)\<lparr>eflags := eflags s\<rparr>)"
    unfolding vmm_copy_kernel_mappings_def using e
    by (simp only: assert_then_True) (rule critical_run, simp_all add: self_entry_def)
  then show ?thesis by (simp add: cli_def)
qed

lemma switch_succeeds:
  assumes o: "other_dir pd F s" and e: "self_entry F s"
  obtains s' where "vmm_switch_pagedir pd s = Inr ((), s')"
proof -
  obtain p where p: "vmm_copy_kernel_mappings pd s = Inr ((), s\<lparr>phys := p\<rparr>)" "other_dir pd F (s\<lparr>phys := p\<rparr>)"
    by (rule copy_kernel_mappings_succeeds [OF assms])
  have "IS_ALIGNED pd PAGE_SIZE" using o by (simp add: other_dir_def mappable_def page_aligned_iff)
  then show thesis
    using that p(1) other_dir_physical [of pd F "cli (s\<lparr>phys := p\<rparr>)"] p(2)
    by (simp add: vmm_switch_pagedir_def critical_def disable_if_def Let_def)
qed

text \<open>
  C12: switching to another page directory succeeds and leaves the kernel half of the address
  space as it was: every address from \<open>0xC0000000\<close> up to the recursive window translates, for
  reads and for writes, exactly as before the switch, and the current directory is the one of
  the given page. The directory is mapped writable to a frame of its own and its last entry
  points back to it.
\<close>

theorem vmm_switch_keeps_kernel_half:
  assumes "other_dir pd F s" "self_entry F s"
  shows "\<exists>s'. vmm_switch_pagedir pd s = Inr ((), s') \<and> cr3 s' = F \<and> current_pagedir_va s' = pd
    \<and> (\<forall>w va. KERNEL_PDE_START \<le> PAGE_DIRECTORY_INDEX va \<longrightarrow> PAGE_DIRECTORY_INDEX va \<le> KERNEL_PDE_END \<longrightarrow>
         translate s' w va = translate s w va)"
proof -
  obtain s' where r: "vmm_switch_pagedir pd s = Inr ((), s')" by (rule switch_succeeds [OF assms])
  have "KERNEL_PDE_START \<le> PAGE_DIRECTORY_INDEX 0xC0000000" "PAGE_DIRECTORY_INDEX 0xC0000000 \<le> KERNEL_PDE_END"
    by (simp_all add: PAGE_DIRECTORY_INDEX_def pde_bounds)
  from switch_result [OF assms(1) r this] switch_result [OF assms(1) r] r show ?thesis by blast
qed

definition sample_switch :: vmm_state where
  "sample_switch = sample_vmm\<lparr>phys := (phys sample_vmm)(entry_addr 0x105000 1023 := 0x105003)\<rparr>"

lemma sample_switch_ok: "other_dir 0x400000 0x105000 sample_switch" "self_entry 0x105000 sample_switch"
proof -
  have z: "dirent sample_vmm i AND 0xFFFFF000 \<noteq> 0x105000" if "unat i < 1023" for i
    using sample_dirent [of i] that by auto
  have "other_dir 0x400000 0x105000 sample_vmm"
    using sample_vmm_wf sample_mapped z
    by (simp add: other_dir_def mappable_def) (simp add: sample_vmm_def)
  then show "other_dir 0x400000 0x105000 sample_switch"
    unfolding sample_switch_def by (rule other_dir_put(2)) simp
  show "self_entry 0x105000 sample_switch"
    by (simp add: self_entry_def sample_switch_def PDE_FRAME_def PDE_PRESENT_def PDE_WRITABLE_def)
qed

theorem vmm_switch_keeps_kernel_half_witness:
  "\<exists>s'. vmm_switch_pagedir 0x400000 sample_switch = Inr ((), s') \<and> cr3 s' = 0x105000 \<and> current_pagedir_va s' = 0x400000
    \<and> (\<forall>w va. KERNEL_PDE_START \<le> PAGE_DIRECTORY_INDEX va \<longrightarrow> PAGE_DIRECTORY_INDEX va \<le> KERNEL_PDE_END \<longrightarrow>
         translate s' w va = translate sample_switch w va)"
  by (rule vmm_switch_keeps_kernel_half [OF sample_switch_ok])

end
