(* ===== verification/Machine.thy ===== *)
theory Machine
  imports VmmDir
begin

text \<open>
  The processor tables and devices the kernel programs: segment descriptors and task state
  segment (\<open>kernel/gdt.c\<close>), interrupt gates (\<open>kernel/idt.c\<close>), the interrupt controllers
  (\<open>kernel/pic.c\<close>) and the system timer (\<open>kernel/timer.c\<close>). Function pointers are addresses;
  what a handler at an address does is a parameter of the operation that calls it. Writes to
  device ports are recorded in the order they are made.
\<close>

section \<open>State\<close>

record gdt_entry =
  limit_low :: u16
  base_low :: u16
  base_middle :: u8
  access :: u8
  granularity :: u8
  base_high :: u8

record tss_entry =
  tss_esp0 :: u32
  tss_ss0 :: u16
  tss_esp :: u32
  tss_cs :: u16
  tss_ss :: u16
  tss_es :: u16
  tss_ds :: u16
  tss_fs :: u16
  tss_gs :: u16
  tss_iomap_base :: u16
  tss_iomap :: "u8 list"

record idt_entry =
  base_lo :: u16
  sel :: u16
  always0 :: u8
  idt_flags :: u8
  base_hi :: u16

record isr_regs =
  r_ds :: u32
  r_edi :: u32
  r_esi :: u32
  r_ebp :: u32
  r_esp :: u32
  r_ebx :: u32
  r_edx :: u32
  r_ecx :: u32
  r_eax :: u32
  int_no :: u32
  err_code :: u32
  r_eip :: u32
  r_cs :: u32
  r_eflags :: u32
  useresp :: u32
  r_ss :: u32

record timer_info =
  timer_id :: u32
  callback :: ptr
  callback_data :: ptr
  period :: u32
  recurring :: bool
  last_triggered :: u64

record machine_state = dir_state +
  gdt_entries :: "gdt_entry list"
  tss :: tss_entry
  idt_entries :: "idt_entry list"
  isr_handlers :: "ptr list"
  irq_handlers :: "ptr list"
  ports_out :: "(u16 \<times> u8) list"
  warn_unhandled :: u32
  current_timestamp :: u64
  ticks :: u64
  timers :: "timer_info list"
  timer_count :: nat
  next_timer_id :: u32

definition outb :: "u16 \<Rightarrow> u8 \<Rightarrow> 'a machine_state_scheme \<Rightarrow> 'a machine_state_scheme" where
  "outb port val s = s\<lparr>ports_out := ports_out s @ [(port, val)]\<rparr>"

section \<open>Segment descriptors\<close>

definition KERNEL_CODE_SEG :: u32 where "KERNEL_CODE_SEG = 0x08"
definition KERNEL_DATA_SEG :: u32 where "KERNEL_DATA_SEG = 0x10"
definition USER_CODE_SEG :: u32 where "USER_CODE_SEG = 0x18"
definition USER_DATA_SEG :: u32 where "USER_DATA_SEG = 0x20"
definition RPL3 :: u32 where "RPL3 = 3"
definition IOMAP_SIZE :: nat where "IOMAP_SIZE = 65536 div 8 + 1"

definition GDT_ACCESSED :: u8 where "GDT_ACCESSED = 1"
definition GDT_WRITABLE :: u8 where "GDT_WRITABLE = 2"
definition GDT_READABLE :: u8 where "GDT_READABLE = 2"
definition GDT_CODE :: u8 where "GDT_CODE = 8"
definition GDT_TYPE :: "u8 \<Rightarrow> u8" where "GDT_TYPE t = push_bit 4 (t AND 1)"
definition GDT_DPL :: "u8 \<Rightarrow> u8" where "GDT_DPL d = push_bit 5 (d AND 3)"
definition GDT_PRESENT :: u8 where "GDT_PRESENT = 0x80"
definition GDT_32BIT :: u8 where "GDT_32BIT = 0x40"
definition GDT_GRAN4K :: u8 where "GDT_GRAN4K = 0x80"

definition make_descriptor :: "u32 \<Rightarrow> u32 \<Rightarrow> u8 \<Rightarrow> u8 \<Rightarrow> gdt_entry" where
  "make_descriptor base limit acc gran =
     \<lparr>limit_low = ucast (limit AND 0xFFFF),
      base_low = ucast (base AND 0xFFFF),
      base_middle = ucast (drop_bit 16 base AND 0xFF),
      access = acc,
      granularity = ucast (drop_bit 16 limit AND 0x0F) OR (gran AND 0xF0),
      base_high = ucast (drop_bit 24 base AND 0xFF)\<rparr>"

definition set_descriptor ::
    "nat \<Rightarrow> u32 \<Rightarrow> u32 \<Rightarrow> u8 \<Rightarrow> u8 \<Rightarrow> 'a machine_state_scheme \<Rightarrow> 'a machine_state_scheme res" where
  "set_descriptor num base limit acc gran s =
     (if num < length (gdt_entries s)
      then Inr (s\<lparr>gdt_entries := (gdt_entries s)[num := make_descriptor base limit acc gran]\<rparr>)
      else Inl Undefined)"

text \<open>The linker places \<open>tss\<close> and the first kernel stack; both addresses are arguments.\<close>

definition TSS_HEADER :: nat where "TSS_HEADER = 104"

definition gdt_init :: "u32 \<Rightarrow> u32 \<Rightarrow> 'a machine_state_scheme \<Rightarrow> 'a machine_state_scheme res" where
  "gdt_init tss_addr initial_kernel_stack s =
     res_bind (set_descriptor 0 0 0 0 0 s) (\<lambda>s.
     res_bind (set_descriptor 1 0 0xFFFFFFFF (GDT_READABLE OR GDT_CODE OR GDT_TYPE 1 OR GDT_PRESENT)
       (GDT_32BIT OR GDT_GRAN4K) s) (\<lambda>s.
     res_bind (set_descriptor 2 0 0xFFFFFFFF (GDT_WRITABLE OR GDT_TYPE 1 OR GDT_PRESENT)
       (GDT_32BIT OR GDT_GRAN4K) s) (\<lambda>s.
     res_bind (set_descriptor 3 0 0xFFFFFFFF (GDT_READABLE OR GDT_CODE OR GDT_TYPE 1 OR GDT_DPL 3 OR GDT_PRESENT)
       (GDT_32BIT OR GDT_GRAN4K) s) (\<lambda>s.
     res_bind (set_descriptor 4 0 0xFFFFFFFF (GDT_WRITABLE OR GDT_TYPE 1 OR GDT_DPL 3 OR GDT_PRESENT)
       (GDT_32BIT OR GDT_GRAN4K) s) (\<lambda>s.
     let s = s\<lparr>tss := \<lparr>tss_esp0 = initial_kernel_stack + PAGE_SIZE, tss_ss0 = ucast KERNEL_DATA_SEG, tss_esp = 0,
         tss_cs = ucast (KERNEL_CODE_SEG OR 3), tss_ss = ucast (KERNEL_DATA_SEG OR 3),
         tss_es = ucast (KERNEL_DATA_SEG OR 3), tss_ds = ucast (KERNEL_DATA_SEG OR 3),
         tss_fs = ucast (KERNEL_DATA_SEG OR 3), tss_gs = ucast (KERNEL_DATA_SEG OR 3),
         tss_iomap_base = of_nat TSS_HEADER, tss_iomap = replicate IOMAP_SIZE 0xFF\<rparr>\<rparr>
     in
     res_bind (set_descriptor 5 tss_addr (of_nat (TSS_HEADER + IOMAP_SIZE))
       (GDT_DPL 3 OR GDT_CODE OR GDT_ACCESSED OR GDT_PRESENT) 0 s) (\<lambda>s.
     let fl = eflags s AND NOT (push_bit 12 3) in
     assert_then (fl AND 0x3000 = 0) (Inr (s\<lparr>eflags := fl\<rparr>))))))))"

definition gdt_iomap_set :: "u8 list \<Rightarrow> 'a machine_state_scheme \<Rightarrow> 'a machine_state_scheme res" where
  "gdt_iomap_set buffer s =
     assert_then (length buffer \<le> length (tss_iomap (tss s)))
       (Inr (s\<lparr>tss := (tss s)\<lparr>tss_iomap := buffer @ drop (length buffer) (tss_iomap (tss s))\<rparr>\<rparr>))"

definition tss_set_kernel_stack :: "u32 \<Rightarrow> 'a machine_state_scheme \<Rightarrow> (unit \<times> 'a machine_state_scheme) res" where
  "tss_set_kernel_stack esp0 s = critical (\<lambda>s. Inr ((), s\<lparr>tss := (tss s)\<lparr>tss_esp0 := esp0\<rparr>\<rparr>)) s"

definition tss_get_kernel_stack :: "'a machine_state_scheme \<Rightarrow> (u32 \<times> 'a machine_state_scheme) res" where
  "tss_get_kernel_stack s = critical (\<lambda>s. Inr (tss_esp (tss s), s)) s"

section \<open>Interrupt gates\<close>

definition IDT_PRESENT :: u8 where "IDT_PRESENT = 0x80"
definition IDT_DPL0 :: u8 where "IDT_DPL0 = 0"
definition IDT_DPL3 :: u8 where "IDT_DPL3 = 0x60"
definition IDT_INT_GATE_32 :: u8 where "IDT_INT_GATE_32 = 14"

definition set_gate :: "u8 \<Rightarrow> u32 \<Rightarrow> u16 \<Rightarrow> u8 \<Rightarrow> 'a machine_state_scheme \<Rightarrow> 'a machine_state_scheme" where
  "set_gate num base selector flags s =
     s\<lparr>idt_entries := (idt_entries s)[unat num :=
       \<lparr>base_lo = ucast (base AND 0xFFFF), sel = selector, always0 = 0, idt_flags = flags,
        base_hi = ucast (drop_bit 16 base AND 0xFFFF)\<rparr>]\<rparr>"

text \<open>\<open>bzero(isr_handlers, sizeof(isr_handler_t))\<close> clears the first handler only.\<close>

definition idt_init :: "(nat \<Rightarrow> u32) \<Rightarrow> 'a machine_state_scheme \<Rightarrow> 'a machine_state_scheme" where
  "idt_init isr_stub_table s =
     (let s = s\<lparr>isr_handlers := (isr_handlers s)[0 := NULL],
                idt_entries := replicate 256 \<lparr>base_lo = 0, sel = 0, always0 = 0, idt_flags = 0, base_hi = 0\<rparr>\<rparr>
      in fold (\<lambda>i. set_gate (of_nat i) (isr_stub_table i) (ucast KERNEL_CODE_SEG)
           (IDT_PRESENT OR IDT_DPL0 OR IDT_INT_GATE_32)) [0..<256] s)"

definition isr_handler ::
    "(ptr \<Rightarrow> isr_regs \<Rightarrow> 's \<Rightarrow> (isr_regs \<times> 's) res) \<Rightarrow> ('s \<Rightarrow> ptr list) \<Rightarrow> isr_regs \<Rightarrow> 's \<Rightarrow> (isr_regs \<times> 's) res" where
  "isr_handler call handlers regs s =
     (if unat (int_no regs) < length (handlers s) then
        let h = handlers s ! unat (int_no regs) in
        if h \<noteq> NULL then call h regs s else Inl Abort
      else Inl Undefined)"

definition idt_install :: "nat \<Rightarrow> ptr \<Rightarrow> bool \<Rightarrow> 'a machine_state_scheme \<Rightarrow> (unit \<times> 'a machine_state_scheme) res" where
  "idt_install num handler usermode s =
     critical (\<lambda>s.
       if num < length (isr_handlers s) \<and> num < length (idt_entries s) then
         let e = idt_entries s ! num;
             e' = e\<lparr>idt_flags := (if usermode then idt_flags e OR IDT_DPL3 else idt_flags e AND NOT IDT_DPL3)\<rparr>
         in Inr ((), s\<lparr>isr_handlers := (isr_handlers s)[num := handler], idt_entries := (idt_entries s)[num := e']\<rparr>)
       else Inl Undefined) s"

definition idt_get_handler :: "nat \<Rightarrow> 'a machine_state_scheme \<Rightarrow> (ptr \<times> 'a machine_state_scheme) res" where
  "idt_get_handler num s =
     critical (\<lambda>s. if num < length (isr_handlers s) then Inr (isr_handlers s ! num, s) else Inl Undefined) s"

section \<open>Interrupt controllers\<close>

text \<open>
  A handler may hand the processor to another task and never come back to its caller; its
  outcome says which.
\<close>

datatype control = Returned | Switched

definition PIC0_COMMAND :: u16 where "PIC0_COMMAND = 0x20"
definition PIC0_DATA :: u16 where "PIC0_DATA = 0x21"
definition PIC1_COMMAND :: u16 where "PIC1_COMMAND = 0xA0"
definition PIC1_DATA :: u16 where "PIC1_DATA = 0xA1"
definition COMMAND_EOI :: u8 where "COMMAND_EOI = 0x20"
definition COMMAND_ICW1_IC4 :: u8 where "COMMAND_ICW1_IC4 = 0x01"
definition COMMAND_ICW1_INIT :: u8 where "COMMAND_ICW1_INIT = 0x10"
definition DATA_ICW4_8086 :: u8 where "DATA_ICW4_8086 = 0x01"

definition pic_init :: "ptr \<Rightarrow> 'a machine_state_scheme \<Rightarrow> (unit \<times> 'a machine_state_scheme) res" where
  "pic_init irq_stub_addr s =
     (let s = s\<lparr>irq_handlers := replicate 16 NULL\<rparr>;
          s = outb PIC0_COMMAND (COMMAND_ICW1_IC4 OR COMMAND_ICW1_INIT) s;
          s = outb PIC1_COMMAND (COMMAND_ICW1_IC4 OR COMMAND_ICW1_INIT) s;
          s = outb PIC0_DATA 0x20 s;
          s = outb PIC1_DATA 0x28 s;
          s = outb PIC0_DATA 4 s;
          s = outb PIC1_DATA 2 s;
          s = outb PIC0_DATA DATA_ICW4_8086 s;
          s = outb PIC1_DATA DATA_ICW4_8086 s;
          s = outb PIC0_DATA 0 s;
          s = outb PIC1_DATA 0 s
      in res_bind (for_each (\<lambda>irq s. res_bind (idt_install irq irq_stub_addr False s) (\<lambda>(_, s). Inr s))
                     [0x20..<0x31] s)
           (\<lambda>s. Inr ((), s)))"

definition set_irq_handler :: "int \<Rightarrow> ptr \<Rightarrow> 'a machine_state_scheme \<Rightarrow> (unit \<times> 'a machine_state_scheme) res" where
  "set_irq_handler irq handler s =
     (if 0 \<le> irq \<and> nat irq < length (irq_handlers s)
      then Inr ((), s\<lparr>irq_handlers := (irq_handlers s)[nat irq := handler]\<rparr>) else Inl Undefined)"

definition pic_install :: "int \<Rightarrow> ptr \<Rightarrow> 'a machine_state_scheme \<Rightarrow> (unit \<times> 'a machine_state_scheme) res" where
  "pic_install irq handler = critical (set_irq_handler irq handler)"

definition pic_remove :: "int \<Rightarrow> 'a machine_state_scheme \<Rightarrow> (unit \<times> 'a machine_state_scheme) res" where
  "pic_remove irq = critical (set_irq_handler irq NULL)"

definition eoi :: "u32 \<Rightarrow> 'a machine_state_scheme \<Rightarrow> 'a machine_state_scheme res" where
  "eoi irq s =
     assert_then (irq < 16)
       (let s = (if irq > 8 then outb PIC1_COMMAND COMMAND_EOI s else s)
        in Inr (outb PIC0_COMMAND COMMAND_EOI s))"


definition irq_stub ::
    "(ptr \<Rightarrow> u32 \<Rightarrow> isr_regs \<Rightarrow> 'a machine_state_scheme \<Rightarrow> (control \<times> 'a machine_state_scheme) res) \<Rightarrow>
     isr_regs \<Rightarrow> 'a machine_state_scheme \<Rightarrow> (control \<times> 'a machine_state_scheme) res" where
  "irq_stub call regs s =
     assert_then (\<not> interrupts_enabled s)
       (let irq = int_no regs - 0x20 in
        res_bind (if irq = 0 then eoi irq s else Inr s) (\<lambda>s.
        if unat irq < length (irq_handlers s) then
          let h = irq_handlers s ! unat irq in
          res_bind
            (if h \<noteq> NULL then
               res_bind (call h irq regs s) (\<lambda>(c, s).
                 case c of
                   Switched \<Rightarrow> Inr (Switched, s)
                 | Returned \<Rightarrow> Inr (Returned, s\<lparr>warn_unhandled := warn_unhandled s OR push_bit (unat irq) 1\<rparr>))
             else Inr (Returned, if warn_unhandled s AND push_bit (unat irq) 1 \<noteq> 0
                    then s\<lparr>warn_unhandled := warn_unhandled s AND NOT (push_bit (unat irq) 1)\<rparr> else s))
            (\<lambda>(c, s).
               case c of
                 Switched \<Rightarrow> Inr (Switched, s)
               | Returned \<Rightarrow> res_bind (if irq \<noteq> 0 then eoi irq s else Inr s) (\<lambda>s. Inr (Returned, s)))
        else Inl Undefined))"

section \<open>Timer\<close>

definition INTERNAL_FREQ :: u32 where "INTERNAL_FREQ = 1193180"
definition FREQ :: u32 where "FREQ = 100"
definition TICKS_PER_MS :: u64 where "TICKS_PER_MS = 1000 div 100"
definition MAX_TIMERS :: nat where "MAX_TIMERS = 10"

definition IRQ_TIMER :: int where "IRQ_TIMER = 0"

definition timer_init :: "ptr \<Rightarrow> 'a machine_state_scheme \<Rightarrow> (unit \<times> 'a machine_state_scheme) res" where
  "timer_init irq_handler_addr s =
     (let divisor = INTERNAL_FREQ div FREQ;
          s = outb 0x43 0x36 s;
          s = outb 0x40 (ucast (LOBYTE divisor)) s;
          s = outb 0x40 (ucast (HIBYTE divisor)) s
      in pic_install IRQ_TIMER irq_handler_addr s)"

definition timer_timestamp :: "'a machine_state_scheme \<Rightarrow> u64" where
  "timer_timestamp s = current_timestamp s"

definition timer_ticks :: "'a machine_state_scheme \<Rightarrow> u64" where
  "timer_ticks s = ticks s"

definition timer_schedule ::
    "ptr \<Rightarrow> ptr \<Rightarrow> u32 \<Rightarrow> bool \<Rightarrow> 'a machine_state_scheme \<Rightarrow> (u32 \<times> 'a machine_state_scheme) res" where
  "timer_schedule cb cb_data per rec s =
     assert_then (timer_count s < MAX_TIMERS - 1)
       (critical (\<lambda>s.
          let tid = next_timer_id s; n = timer_count s in
          if n < length (timers s) then
            Inr (tid, s\<lparr>next_timer_id := tid + 1,
                       timers := (timers s)[n := (timers s ! n)\<lparr>timer_id := tid, callback := cb,
                         callback_data := cb_data, period := per, recurring := rec\<rparr>],
                       timer_count := n + 1\<rparr>)
          else Inl Undefined) s)"

definition timer_unschedule :: "u32 \<Rightarrow> 'a machine_state_scheme \<Rightarrow> (unit \<times> 'a machine_state_scheme) res" where
  "timer_unschedule tid s =
     critical (\<lambda>s.
       if timer_count s \<le> length (timers s) then
         (case find (\<lambda>i. timer_id (timers s ! i) = tid) [0..<timer_count s] of
            None \<Rightarrow> Inr ((), s)
          | Some index \<Rightarrow>
              if timer_count s < length (timers s) then
                Inr ((), s\<lparr>timers := (timers s)[index := timers s ! timer_count s],
                           timer_count := timer_count s - 1\<rparr>)
              else Inl Undefined)
       else Inl Undefined) s"

definition expired :: "u64 \<Rightarrow> timer_info \<Rightarrow> bool" where
  "expired now t \<longleftrightarrow> last_triggered t + ucast (period t) \<le> now"

primrec mark_expired :: "nat list \<Rightarrow> timer_info list \<Rightarrow> 'a machine_state_scheme \<Rightarrow> (timer_info list \<times> 'a machine_state_scheme) res" where
  "mark_expired [] triggered s = Inr (triggered, s)"
| "mark_expired (i # is) triggered s =
     (if i < length (timers s) then
        if expired (current_timestamp s) (timers s ! i) then
          let t = (timers s ! i)\<lparr>last_triggered := current_timestamp s\<rparr>;
              s = s\<lparr>timers := (timers s)[i := t]\<rparr>
          in if length triggered < MAX_TIMERS then mark_expired is (triggered @ [t]) s else Inl Undefined
        else mark_expired is triggered s
      else Inl Undefined)"

primrec fire ::
    "(ptr \<Rightarrow> ptr \<Rightarrow> isr_regs \<Rightarrow> 'a machine_state_scheme \<Rightarrow> (control \<times> 'a machine_state_scheme) res) \<Rightarrow>
     isr_regs \<Rightarrow> timer_info list \<Rightarrow> 'a machine_state_scheme \<Rightarrow> (control \<times> 'a machine_state_scheme) res" where
  "fire call regs [] s = Inr (Returned, s)"
| "fire call regs (t # ts) s =
     res_bind (call (callback t) (callback_data t) regs s) (\<lambda>(c, s).
       case c of
         Switched \<Rightarrow> Inr (Switched, s)
       | Returned \<Rightarrow>
           res_bind (if recurring t then Inr ((), s) else timer_unschedule (timer_id t) s)
             (\<lambda>(_, s). fire call regs ts s))"

definition irq_handler ::
    "(ptr \<Rightarrow> ptr \<Rightarrow> isr_regs \<Rightarrow> 'a machine_state_scheme \<Rightarrow> (control \<times> 'a machine_state_scheme) res) \<Rightarrow>
     u32 \<Rightarrow> isr_regs \<Rightarrow> 'a machine_state_scheme \<Rightarrow> (control \<times> 'a machine_state_scheme) res" where
  "irq_handler call irq regs s =
     (let s = s\<lparr>ticks := ticks s + 1, current_timestamp := current_timestamp s + TICKS_PER_MS\<rparr> in
      res_bind (mark_expired [0..<timer_count s] [] s) (\<lambda>(triggered, s). fire call regs triggered s))"


section \<open>Descriptors as the processor reads them\<close>

definition descriptor_base :: "gdt_entry \<Rightarrow> u32" where
  "descriptor_base e = ucast (base_low e) OR push_bit 16 (ucast (base_middle e)) OR push_bit 24 (ucast (base_high e))"

definition descriptor_limit :: "gdt_entry \<Rightarrow> u32" where
  "descriptor_limit e = ucast (limit_low e) OR push_bit 16 (ucast (granularity e AND 0x0F))"

definition gate_base :: "idt_entry \<Rightarrow> u32" where
  "gate_base e = ucast (base_lo e) OR push_bit 16 (ucast (base_hi e))"

lemma mask_lits:
  "(0xF :: 'a::len word) = mask 4" "(0xFF :: 'a::len word) = mask 8"
  "(0xFFFF :: 'a::len word) = mask 16" "(0xFFFFF :: 'a::len word) = mask 20"
  "(0xF0 :: u8) = push_bit 4 (mask 4)"
  by (simp_all add: mask_eq_exp_minus_1)

lemma make_descriptor_base [simp]: "descriptor_base (make_descriptor base limit acc gran) = base"
proof (rule bit_word_eqI)
  fix n assume n: "n < LENGTH(32)"
  consider "n < 16" | "16 \<le> n" "n < 24" | "24 \<le> n" by linarith
  then show "bit (descriptor_base (make_descriptor base limit acc gran)) n = bit base n"
    by cases (use n in \<open>simp_all add: descriptor_base_def make_descriptor_def mask_lits bit_simps less_diff_conv2\<close>)
qed

lemma make_descriptor_limit [simp]: "descriptor_limit (make_descriptor base limit acc gran) = limit AND 0xFFFFF"
proof (rule bit_word_eqI)
  fix n assume n: "n < LENGTH(32)"
  show "bit (descriptor_limit (make_descriptor base limit acc gran)) n = bit (limit AND 0xFFFFF) n"
    unfolding descriptor_limit_def make_descriptor_def mask_lits
    using n by (auto simp: bit_simps)
qed

lemma granularity_flags: "(ucast (x AND 0xF :: u32) OR (gran AND 0xF0)) AND 0xF0 = (gran AND 0xF0 :: u8)"
proof (rule bit_word_eqI)
  fix n assume n: "n < LENGTH(8)"
  show "bit ((ucast (x AND 0xF) OR (gran AND 0xF0)) AND 0xF0) n = bit (gran AND 0xF0 :: u8) n"
    unfolding mask_lits using n by (auto simp: bit_simps)
qed

text \<open>
  Further: writing a descriptor is a round trip: the processor, which reassembles base and limit from
  the pieces of the entry, reads the base and the low 20 bits of the limit that were asked for,
  and the other descriptors are unchanged.
\<close>

theorem set_descriptor_roundtrip:
  assumes "num < length (gdt_entries s)"
  shows "\<exists>s'. set_descriptor num base limit acc gran s = Inr s' \<and>
     descriptor_base (gdt_entries s' ! num) = base \<and>
     descriptor_limit (gdt_entries s' ! num) = limit AND 0xFFFFF \<and>
     access (gdt_entries s' ! num) = acc \<and>
     granularity (gdt_entries s' ! num) AND 0xF0 = gran AND 0xF0 \<and>
     (\<forall>j. j \<noteq> num \<longrightarrow> gdt_entries s' ! j = gdt_entries s ! j)"
  using assms by (simp add: set_descriptor_def) (simp add: make_descriptor_def granularity_flags)

section \<open>Timer properties\<close>

definition timer_inv :: "'a machine_state_scheme \<Rightarrow> bool" where
  "timer_inv s \<longleftrightarrow> length (timers s) = MAX_TIMERS \<and> timer_count s < MAX_TIMERS"

lemma timer_inv_eflags [simp]: "timer_inv (s\<lparr>eflags := e\<rparr>) = timer_inv s"
  by (simp add: timer_inv_def)

definition stamp :: "u64 \<Rightarrow> timer_info \<Rightarrow> timer_info" where
  "stamp now t = (if expired now t then t\<lparr>last_triggered := now\<rparr> else t)"

lemma mark_expired_step:
  assumes "k \<le> n" "n \<le> length (timers s)" "length acc + (n - k) \<le> MAX_TIMERS"
  shows "mark_expired [k..<n] acc s =
    Inr (acc @ map (stamp (current_timestamp s)) (filter (expired (current_timestamp s)) (take (n - k) (drop k (timers s)))),
         s\<lparr>timers := take k (timers s) @ map (stamp (current_timestamp s)) (take (n - k) (drop k (timers s))) @ drop n (timers s)\<rparr>)"
  using assms
proof (induction "n - k" arbitrary: k acc s)
  case 0
  then show ?case by simp
next
  case (Suc d)
  then have k: "k < n" "k < length (timers s)" and d: "d = n - Suc k" by auto
  have tk: "take (n - k) (drop k (timers s)) = timers s ! k # take (n - Suc k) (drop (Suc k) (timers s))"
    using k by (metis Cons_nth_drop_Suc Suc_diff_Suc take_Suc_Cons)
  have up: "[k..<n] = k # [Suc k..<n]" using k by (simp add: upt_conv_Cons)
  show ?case
  proof (cases "expired (current_timestamp s) (timers s ! k)")
    case True
    define t where "t = (timers s ! k)\<lparr>last_triggered := current_timestamp s\<rparr>"
    have st: "stamp (current_timestamp s) (timers s ! k) = t" using True by (simp add: stamp_def t_def)
    have len: "length acc < MAX_TIMERS" using Suc.prems k by linarith
    show ?thesis
      using Suc.hyps(1) [of "Suc k" "s\<lparr>timers := (timers s)[k := t]\<rparr>" "acc @ [t]"] d k True len Suc.prems
      by (simp add: up tk st t_def [symmetric] take_Suc_conv_app_nth drop_update_swap)
  next
    case False
    then have "stamp (current_timestamp s) (timers s ! k) = timers s ! k" by (simp add: stamp_def)
    then show ?thesis
      using Suc.hyps(1) [of "Suc k" s acc] d k False Suc.prems
      by (simp add: up tk take_Suc_conv_app_nth)
  qed
qed

lemma mark_expired_all:
  assumes "timer_inv s"
  shows "mark_expired [0..<timer_count s] [] s =
    Inr (map (stamp (current_timestamp s)) (filter (expired (current_timestamp s)) (take (timer_count s) (timers s))),
         s\<lparr>timers := map (stamp (current_timestamp s)) (take (timer_count s) (timers s)) @ drop (timer_count s) (timers s)\<rparr>)"
  using assms mark_expired_step [of 0 "timer_count s" s "[]"] by (simp add: timer_inv_def)

lemma fire_recurring:
  assumes "\<And>cb d u. call cb d regs u = Inr (Returned, run cb d u)" "\<forall>t\<in>set ts. recurring t"
  shows "fire call regs ts s = Inr (Returned, fold (\<lambda>t. run (callback t) (callback_data t)) ts s)"
  using assms(2) by (induction ts arbitrary: s) (simp_all add: assms(1))

text \<open>
  C35: a timer tick advances the clock by ten milliseconds and runs, once each and in the order
  they stand in the table, the callbacks of exactly those active timers whose last run lies
  their period or more in the past, each with its own data; these timers are stamped with the
  new time before the first callback runs, and no entry outside the active part is read or written.
  It is stated for callbacks that return (any effect of them is \<open>run\<close>) and due timers that are recurring.
\<close>

theorem timer_tick_fires_expired:
  assumes "timer_inv s" "now = current_timestamp s + 10" "active = take (timer_count s) (timers s)"
    and "due = filter (\<lambda>t. last_triggered t + ucast (period t) \<le> now) active" "\<forall>t\<in>set due. recurring t"
    and "\<And>cb d u. call cb d regs u = Inr (Returned, run cb d u)"
  shows "irq_handler call irq regs s =
    Inr (Returned, fold (\<lambda>t. run (callback t) (callback_data t)) due
      (s\<lparr>ticks := ticks s + 1, current_timestamp := now,
         timers := map (\<lambda>t. if last_triggered t + ucast (period t) \<le> now then t\<lparr>last_triggered := now\<rparr> else t) active
           @ drop (timer_count s) (timers s)\<rparr>))"
proof -
  let ?s = "s\<lparr>ticks := ticks s + 1, current_timestamp := now\<rparr>"
  have m: "mark_expired [0..<timer_count s] [] ?s =
      Inr (map (stamp now) due, ?s\<lparr>timers := map (stamp now) active @ drop (timer_count s) (timers s)\<rparr>)"
    using assms(1) mark_expired_all [of ?s] by (simp add: timer_inv_def assms(3,4) expired_def [abs_def])
  have "fire call regs (map (stamp now) due) u =
      Inr (Returned, fold (\<lambda>t. run (callback t) (callback_data t)) (map (stamp now) due) u)" for u
    by (rule fire_recurring [where call = call and run = run]) (use assms(5,6) in \<open>auto simp: stamp_def\<close>)
  moreover have "fold (\<lambda>t. run (callback t) (callback_data t)) (map (stamp now) due) u =
      fold (\<lambda>t. run (callback t) (callback_data t)) due u" for u
    unfolding fold_map by (rule fold_cong) (simp_all add: stamp_def)
  moreover have "stamp now = (\<lambda>t. if last_triggered t + ucast (period t) \<le> now then t\<lparr>last_triggered := now\<rparr> else t)"
    by (simp add: fun_eq_iff stamp_def expired_def)
  ultimately show ?thesis using m assms(2) by (simp add: irq_handler_def Let_def TICKS_PER_MS_def)
qed

datatype timer_op = Schedule ptr ptr u32 bool | Unschedule u32 | Tick isr_regs

primrec timer_step ::
    "(ptr \<Rightarrow> ptr \<Rightarrow> isr_regs \<Rightarrow> 'a machine_state_scheme \<Rightarrow> (control \<times> 'a machine_state_scheme) res) \<Rightarrow>
     timer_op \<Rightarrow> 'a machine_state_scheme \<Rightarrow> (unit \<times> 'a machine_state_scheme) res" where
  "timer_step call (Schedule cb d p r) s = res_bind (timer_schedule cb d p r s) (\<lambda>(_, s). Inr ((), s))"
| "timer_step call (Unschedule i) s = timer_unschedule i s"
| "timer_step call (Tick regs) s = res_bind (irq_handler call 0 regs s) (\<lambda>(_, s). Inr ((), s))"

definition keeps_timers ::
    "(ptr \<Rightarrow> ptr \<Rightarrow> isr_regs \<Rightarrow> 'a machine_state_scheme \<Rightarrow> (control \<times> 'a machine_state_scheme) res) \<Rightarrow> bool" where
  "keeps_timers call \<longleftrightarrow> (\<forall>cb d regs s. timer_inv s \<longrightarrow>
     (case call cb d regs s of Inl e \<Rightarrow> e \<noteq> Undefined | Inr (c, s') \<Rightarrow> timer_inv s'))"

text \<open>What every timer operation promises of a result: no access outside the table.\<close>

definition in_table :: "('r \<times> 'a machine_state_scheme) res \<Rightarrow> bool" where
  "in_table r \<longleftrightarrow> (case r of Inl e \<Rightarrow> e \<noteq> Undefined | Inr (_, s) \<Rightarrow> timer_inv s)"

lemma in_table_simps [simp]:
  "in_table (Inr (x, s)) = timer_inv s"
  "in_table (Inl e) = (e \<noteq> Undefined)"
  by (simp_all add: in_table_def)

lemma timer_inv_flags [simp]:
  "timer_inv (cli s) = timer_inv s" "timer_inv (sti s) = timer_inv s" "timer_inv (restore_if st s) = timer_inv s"
  by (simp_all add: cli_def sti_def restore_if_def)

lemma timers_cli [simp]: "timers (cli s) = timers s" "timer_count (cli s) = timer_count s"
  "timers (restore_if st s) = timers s" "timer_count (restore_if st s) = timer_count s"
  by (simp_all add: cli_def sti_def restore_if_def)

lemma in_table_critical: "in_table (body (cli s)) \<Longrightarrow> in_table (critical body s)"
  by (auto simp: in_table_def critical_def disable_if_def Let_def split: sum.splits)

lemma in_table_bind:
  assumes "in_table r" and "\<And>x s. timer_inv s \<Longrightarrow> in_table (k (x, s))"
  shows "in_table (res_bind r k)"
  using assms by (cases r) auto

lemma in_table_schedule: "timer_inv s \<Longrightarrow> in_table (timer_schedule cb d p r s)"
  unfolding timer_schedule_def
  by (auto intro!: in_table_critical simp: assert_then_def timer_inv_def Let_def MAX_TIMERS_def)

lemma in_table_unschedule: "timer_inv s \<Longrightarrow> in_table (timer_unschedule i s)"
  unfolding timer_unschedule_def
  by (auto intro!: in_table_critical simp: timer_inv_def MAX_TIMERS_def split: option.splits)

lemma in_table_fire:
  assumes "keeps_timers call" "timer_inv s"
  shows "in_table (fire call regs ts s)"
  using assms(2)
proof (induction ts arbitrary: s)
  case (Cons t ts)
  have "in_table (call (callback t) (callback_data t) regs s)"
    using assms(1) Cons.prems by (auto simp: keeps_timers_def in_table_def)
  then show ?case
    by (auto intro!: in_table_bind in_table_unschedule Cons.IH split: control.splits)
qed simp

lemma in_table_tick:
  assumes "keeps_timers call" "timer_inv s"
  shows "in_table (irq_handler call irq regs s)"
  unfolding irq_handler_def Let_def
  using assms mark_expired_all [of "s\<lparr>ticks := ticks s + 1, current_timestamp := current_timestamp s + TICKS_PER_MS\<rparr>"]
  by (auto simp: timer_inv_def intro!: in_table_fire)

primrec timer_steps ::
    "(ptr \<Rightarrow> ptr \<Rightarrow> isr_regs \<Rightarrow> 'a machine_state_scheme \<Rightarrow> (control \<times> 'a machine_state_scheme) res) \<Rightarrow>
     timer_op list \<Rightarrow> 'a machine_state_scheme \<Rightarrow> (unit \<times> 'a machine_state_scheme) res" where
  "timer_steps call [] s = Inr ((), s)"
| "timer_steps call (op # ops) s = res_bind (timer_step call op s) (\<lambda>(_, s). timer_steps call ops s)"

lemma in_table_step: "keeps_timers call \<Longrightarrow> timer_inv s \<Longrightarrow> in_table (timer_step call op s)"
  by (cases op) (auto intro!: in_table_bind in_table_schedule in_table_unschedule in_table_tick)

text \<open>
  C38: whatever is scheduled, unscheduled and triggered in whatever order, the table of ten
  timers is never accessed out of bounds: the assertion in \<open>timer_schedule\<close> keeps one entry
  spare, which is the one \<open>timer_unschedule\<close> reads past the active timers.
\<close>

theorem timer_table_in_bounds:
  assumes "keeps_timers call" "timer_inv s"
  shows "timer_steps call ops s \<noteq> Inl Undefined"
proof -
  have "in_table (timer_steps call ops s)"
    using assms by (induction ops arbitrary: s) (auto intro!: in_table_bind in_table_step)
  then show ?thesis by (auto simp: in_table_def)
qed

text \<open>
  Further: unscheduling a timer which is not the last one overwrites it with the entry behind the
  active ones instead of the last active timer. The table then ends one earlier, so the last
  active timer is no longer in it and the stale entry is.
\<close>

theorem timer_unschedule_loses_last:
  assumes "timer_inv s" "i + 1 < timer_count s" "timer_id (timers s ! i) = tid"
    "\<forall>j < i. timer_id (timers s ! j) \<noteq> tid"
  shows "\<exists>s'. timer_unschedule tid s = Inr ((), s') \<and> timer_count s' = timer_count s - 1 \<and>
    take (timer_count s') (timers s') = (take (timer_count s - 1) (timers s))[i := timers s ! timer_count s]"
proof -
  have "find (\<lambda>i. timer_id (timers s ! i) = tid) [0..<timer_count s] = Some i"
    unfolding find_Some_iff by (intro exI [of _ i]) (use assms in auto)
  then show ?thesis
    using assms(1,2)
    by (auto simp: timer_unschedule_def critical_def disable_if_def Let_def timer_inv_def
        take_update_swap)
qed

section \<open>A concrete machine\<close>

definition sample_timer :: "u32 \<Rightarrow> u32 \<Rightarrow> timer_info" where
  "sample_timer i p = \<lparr>timer_id = i, callback = 0x1000, callback_data = i, period = p, recurring = True, last_triggered = 0\<rparr>"

definition sample_regs :: isr_regs where
  "sample_regs = \<lparr>r_ds = 0x10, r_edi = 0, r_esi = 0, r_ebp = 0, r_esp = 0, r_ebx = 0, r_edx = 0, r_ecx = 0, r_eax = 0,
     int_no = 0x20, err_code = 0, r_eip = 0x400000, r_cs = 0x1B, r_eflags = 0x202, useresp = 0, r_ss = 0x23\<rparr>"

definition sample_machine :: machine_state where
  "sample_machine =
     \<lparr>eflags = eflags sample_heap, initialized = initialized sample_heap, memregions = memregions sample_heap, phys = phys sample_heap,
        cr3 = cr3 sample_heap, cr0 = cr0 sample_heap, paging_enabled = paging_enabled sample_heap, current_pagedir_va = current_pagedir_va sample_heap,
        blocks = blocks sample_heap, canaries = canaries sample_heap, kheap = kheap sample_heap, kheap_addr = kheap_addr sample_heap,
        trace_enabled = False, tmaps = (\<lambda>_. \<lparr>tm_frame = 0, tm_flags = 0, tm_address = 0\<rparr>),
        tlinks = (\<lambda>_. \<lparr>next_ptr = 0, prev_ptr = 0\<rparr>),
        transient_maps = \<lparr>head = 0, tail = 0\<rparr>,
        gdt_entries = replicate 6 (make_descriptor 0 0 0 0),
        tss = \<lparr>tss_esp0 = 0, tss_ss0 = 0, tss_esp = 0, tss_cs = 0, tss_ss = 0, tss_es = 0, tss_ds = 0, tss_fs = 0,
          tss_gs = 0, tss_iomap_base = 0, tss_iomap = replicate IOMAP_SIZE 0xFF\<rparr>,
        idt_entries = [], isr_handlers = replicate 256 NULL, irq_handlers = replicate 16 NULL, ports_out = [],
        warn_unhandled = 0xFFFFFFFF, current_timestamp = 0, ticks = 0,
        timers = [sample_timer 0 20, sample_timer 1 10, sample_timer 2 10] @ replicate 7 (sample_timer 0 0),
        timer_count = 3, next_timer_id = 3\<rparr>"

lemma sample_machine_simps [simp]:
  "length (gdt_entries sample_machine) = 6" "timer_count sample_machine = 3"
  "timers sample_machine = [sample_timer 0 20, sample_timer 1 10, sample_timer 2 10] @ replicate 7 (sample_timer 0 0)"
  "current_timestamp sample_machine = 0"
  by (simp_all add: sample_machine_def)

lemma sample_machine_timers: "timer_inv sample_machine"
  by (simp add: timer_inv_def MAX_TIMERS_def)

theorem set_descriptor_roundtrip_witness:
  "\<exists>s'. set_descriptor 5 0xC0101234 0x2069 0xE9 0 sample_machine = Inr s' \<and>
     descriptor_base (gdt_entries s' ! 5) = 0xC0101234 \<and> descriptor_limit (gdt_entries s' ! 5) = 0x2069"
  using set_descriptor_roundtrip [of 5 sample_machine "0xC0101234" "0x2069" "0xE9" 0] by auto

text \<open>A callback that writes its data to an output port: the first timer is not due, the other two are.\<close>

theorem timer_tick_fires_expired_witness:
  "\<exists>s'. irq_handler (\<lambda>cb d r u. Inr (Returned, outb (ucast cb) (ucast d) u)) 0 sample_regs sample_machine = Inr (Returned, s') \<and>
     map last_triggered (take 3 (timers s')) = [0, 10, 10] \<and> ports_out s' = [(0x1000, 1), (0x1000, 2)]"
proof -
  let ?due = "[sample_timer 1 10, sample_timer 2 10]"
  have "?due = filter (\<lambda>t. last_triggered t + ucast (period t) \<le> 10) (take (timer_count sample_machine) (timers sample_machine))"
    "\<forall>t\<in>set ?due. recurring t" by (simp_all add: sample_timer_def)
  from timer_tick_fires_expired [OF sample_machine_timers _ refl this, of "\<lambda>cb d r u. Inr (Returned, outb (ucast cb) (ucast d) u)" sample_regs
      "\<lambda>cb d. outb (ucast cb) (ucast d)" 0]
  show ?thesis by (simp add: outb_def sample_timer_def) (simp add: sample_machine_def)
qed

theorem timer_table_in_bounds_witness:
  "timer_steps (\<lambda>cb d r s. Inr (Returned, s)) [Schedule 0x2000 0 50 False, Unschedule 1] sample_machine \<noteq> Inl Undefined"
  by (rule timer_table_in_bounds) (simp_all add: keeps_timers_def sample_machine_timers)

theorem timer_unschedule_loses_last_witness:
  "\<exists>s'. timer_unschedule 0 sample_machine = Inr ((), s') \<and>
     map timer_id (take (timer_count s') (timers s')) = [0, 1] \<and> map period (take (timer_count s') (timers s')) = [0, 10]"
  using timer_unschedule_loses_last [of sample_machine 0 0] sample_machine_timers
  by (auto simp: sample_timer_def)

end
