(* ===== verification/Frame.thy ===== *)
theory Frame
  imports VmmDir
begin

text \<open>
  What the memory layers leave alone. Every operation of the physical memory manager and the
  page tables keeps the state above them, every heap operation keeps the state above the heap
  and every operation on page directories keeps the state above that, where tasks, ports,
  timers and processor tables live; all of them give the interrupt flag back as they found it.
  The components above use these facts to carry their own invariants across the allocations
  and mappings they make.
\<close>

definition vouter :: "'a vmm_state_scheme \<Rightarrow> u32 \<times> 'a" where
  "vouter s = (eflags s, vmm_state.more s)"

definition kouter :: "'a kmalloc_state_scheme \<Rightarrow> u32 \<times> 'a" where
  "kouter s = (eflags s, kmalloc_state.more s)"

definition outer :: "'a dir_state_scheme \<Rightarrow> u32 \<times> 'a" where
  "outer s = (eflags s, dir_state.more s)"

named_theorems vframe \<open>operations that change memory and page tables only\<close>
named_theorems kframe \<open>operations that change the heap at most\<close>
named_theorems frame_rules \<open>operations that leave the outer state alone\<close>

lemma vouter_kouter: "vouter t = vouter s \<Longrightarrow> kouter t = kouter s"
  by (cases s, cases t) (simp add: vouter_def kouter_def)

lemma kouter_outer: "kouter t = kouter s \<Longrightarrow> outer t = outer s"
  by (cases s, cases t) (simp add: kouter_def outer_def)

lemma vouter_upd [simp]:
  "vouter (s\<lparr>memregions := a\<rparr>) = vouter s" "vouter (s\<lparr>phys := b\<rparr>) = vouter s" "vouter (s\<lparr>cr3 := c\<rparr>) = vouter s"
  by (simp_all add: vouter_def)

lemma kouter_upd [simp]:
  "kouter (s\<lparr>kheap := d\<rparr>) = kouter s" "kouter (s\<lparr>blocks := i\<rparr>) = kouter s" "kouter (s\<lparr>canaries := j\<rparr>) = kouter s"
  by (simp_all add: kouter_def)

lemma outer_upd [simp]:
  "outer (s\<lparr>tmaps := e\<rparr>) = outer s" "outer (s\<lparr>tlinks := f\<rparr>) = outer s" "outer (s\<lparr>transient_maps := g\<rparr>) = outer s"
  by (simp_all add: outer_def)

text \<open>A critical section gives the interrupt flag back, so its body decides.\<close>

lemma vouter_criticalE:
  assumes "critical body s = Inr (r, t)" and "\<And>u. body (cli s) = Inr (r, u) \<Longrightarrow> vouter u = vouter (cli s)"
  obtains "vouter t = vouter s"
proof -
  obtain u where u: "body (cli s) = Inr (r, u)" "t = u\<lparr>eflags := eflags s\<rparr>"
    using assms(1) by (rule critical_frame) (use assms(2) in \<open>auto simp: vouter_def\<close>)
  then show ?thesis using that assms(2) [OF u(1)] by (simp add: vouter_def cli_def)
qed

lemma kouter_criticalE:
  assumes "critical body s = Inr (r, t)" and "\<And>u. body (cli s) = Inr (r, u) \<Longrightarrow> kouter u = kouter (cli s)"
  obtains "kouter t = kouter s"
proof -
  obtain u where u: "body (cli s) = Inr (r, u)" "t = u\<lparr>eflags := eflags s\<rparr>"
    using assms(1) by (rule critical_frame) (use assms(2) in \<open>auto simp: kouter_def\<close>)
  then show ?thesis using that assms(2) [OF u(1)] by (simp add: kouter_def cli_def)
qed

lemma outer_criticalE:
  assumes "critical body s = Inr (r, t)" and "\<And>u. body (cli s) = Inr (r, u) \<Longrightarrow> outer u = outer (cli s)"
  obtains "outer t = outer s"
proof -
  obtain u where u: "body (cli s) = Inr (r, u)" "t = u\<lparr>eflags := eflags s\<rparr>"
    using assms(1) by (rule critical_frame) (use assms(2) in \<open>auto simp: outer_def\<close>)
  then show ?thesis using that assms(2) [OF u(1)] by (simp add: outer_def cli_def)
qed

section \<open>Loops\<close>

lemma for_each_keeps:
  assumes "for_each body is s = Inr t" and "\<And>i u v. body i u = Inr v \<Longrightarrow> F v = F u"
  shows "F t = F s"
  using assms(1) by (induction "is" arbitrary: s) (auto simp: res_simps assms(2))

lemma foreach_loop_keeps:
  "foreach_loop lk body it nx s = Some r \<Longrightarrow> \<forall>x u b v. body x u = Inr (b, v) \<longrightarrow> F v = F u \<Longrightarrow>
     r = Inr t \<Longrightarrow> F t = F s"
proof (induction arbitrary: t rule: foreach_loop.raw_induct [rotated, consumes 1, case_names 1])
  case (1 g lk body it nx s r)
  show ?case
  proof (cases "it = NULL \<or> (\<exists>e. body it s = Inl e)")
    case True
    then show ?thesis using 1(2,4) by (auto split: if_splits)
  next
    case False
    then obtain b s1 where b: "body it s = Inr (b, s1)" "it \<noteq> NULL" by (cases "body it s") auto
    have "F s1 = F s" using 1(3) b(1) by blast
    then show ?thesis
      using 1(1) [of lk body nx "if nx \<noteq> NULL then list_next (lk s1) nx else NULL" s1 r t] 1(2,3,4) b
      by (cases b) auto
  qed
qed

lemma list_foreach_keeps:
  assumes "list_foreach lk l body s = Inr t" and "\<And>x u b v. body x u = Inr (b, v) \<Longrightarrow> F v = F u"
  shows "F t = F s"
  using assms(1) foreach_loop_keeps [of lk body _ _ s _ F t] assms(2)
  by (auto simp: list_foreach_def loop_result_def split: option.splits)

section \<open>Physical memory and page tables\<close>

lemma vouter_pmm [vframe]:
  "pmm_alloc s = Inr (f, t) \<Longrightarrow> vouter t = vouter s"
  "pmm_free f' s = Inr (u, t) \<Longrightarrow> vouter t = vouter s"
  "pmm_reserve f' s = Inr (u, t) \<Longrightarrow> vouter t = vouter s"
  by (auto simp: pmm_alloc_def pmm_free_def pmm_reserve_def res_simps elim!: vouter_criticalE)

lemma vouter_store32 [vframe]: "store32 s va w = Inr t \<Longrightarrow> vouter t = vouter s"
  by (auto simp: store32_def res_simps)

lemma vouter_zero_words: "zero_words js va s = Inr t \<Longrightarrow> vouter t = vouter s"
  by (induction js arbitrary: s) (auto simp: res_simps dest!: vouter_store32)

lemma vouter_bzero_table [vframe]: "bzero_table va s = Inr t \<Longrightarrow> vouter t = vouter s"
  by (simp add: bzero_table_def vouter_zero_words)

lemma vouter_flush_tlb [vframe]: "flush_tlb s = Inr (u, t) \<Longrightarrow> vouter t = vouter s"
  by (auto simp: flush_tlb_def elim!: vouter_criticalE)

lemma vouter_vmm_map_body [vframe]: "vmm_map_body va pa fl s = Inr (u, t) \<Longrightarrow> vouter t = vouter s"
  by (auto simp: vmm_map_body_def Let_def res_simps dest!: vframe split: if_splits)

lemma vouter_vmm_map [vframe]:
  "vmm_map va pa fl s = Inr (u, t) \<Longrightarrow> vouter t = vouter s"
  "vmm_unmap va s = Inr (u, t) \<Longrightarrow> vouter t = vouter s"
  "vmm_remap va fl s = Inr (u, t) \<Longrightarrow> vouter t = vouter s"
  by (auto simp: vmm_map_def vmm_unmap_def vmm_remap_def Let_def res_simps elim!: vouter_criticalE dest!: vframe)

lemma vouter_lookup [vframe]:
  "vmm_get_physical va s = Inr (r, t) \<Longrightarrow> vouter t = vouter s"
  "vmm_get_flags va s = Inr (r, t) \<Longrightarrow> vouter t = vouter s"
  by (auto simp: vmm_get_physical_def vmm_get_flags_def res_simps elim!: vouter_criticalE)

lemma vouter_copy [vframe]:
  "copy_word d c i s = Inr t \<Longrightarrow> vouter t = vouter s"
  "copy_kernel_entry p i s = Inr t \<Longrightarrow> vouter t = vouter s"
  "free_entry p i s = Inr t \<Longrightarrow> vouter t = vouter s"
  by (auto simp: copy_word_def copy_kernel_entry_def free_entry_def res_simps dest!: vframe split: if_splits)

lemma vouter_for_each [vframe]:
  "for_each (copy_word d c) is s = Inr t \<Longrightarrow> vouter t = vouter s"
  "for_each (copy_kernel_entry p) is s = Inr t \<Longrightarrow> vouter t = vouter s"
  "for_each (free_entry p) is s = Inr t \<Longrightarrow> vouter t = vouter s"
  by (erule for_each_keeps, erule vframe)+

lemma vouter_reset_entry [vframe]: "reset_entry i s = Inr t \<Longrightarrow> vouter t = vouter s"
  by (auto simp: reset_entry_def res_simps Let_def dest!: vframe split: if_splits)

lemma vouter_reset_pagedir [vframe]: "vmm_reset_current_pagedir s = Inr t \<Longrightarrow> vouter t = vouter s"
  unfolding vmm_reset_current_pagedir_def by (erule for_each_keeps, erule vouter_reset_entry)

lemma vouter_copy_kernel_mappings [vframe]: "vmm_copy_kernel_mappings p s = Inr (u, t) \<Longrightarrow> vouter t = vouter s"
  by (auto simp: vmm_copy_kernel_mappings_def res_simps elim!: vouter_criticalE dest!: vframe)

lemmas vframe_k [kframe] = vframe [THEN vouter_kouter]

section \<open>Heap\<close>

lemma kouter_blocks [simp]:
  "kouter (upd_block a f t) = kouter t" "kouter (create_block a n t) = kouter t"
  "kouter (write_canary a t) = kouter t"
  "kouter (snd (heap_unlock t)) = kouter t" "kouter (snd (heap_lock t)) = kouter t"
  by (simp_all add: upd_block_def create_block_def write_canary_def Let_def heap_unlock_def heap_lock_def
      split: prod.splits)

lemma kouter_set [kframe]:
  "set_allocated b s = Inr t \<Longrightarrow> kouter t = kouter s" "set_free b s = Inr t \<Longrightarrow> kouter t = kouter s"
  "merge_blocks p q s = Inr (r, t) \<Longrightarrow> kouter t = kouter s"
  "unlock_return r' s = Inr (r, t) \<Longrightarrow> kouter t = kouter s"
  by (auto simp: set_allocated_def set_free_def merge_blocks_def unlock_return_def res_simps case_prod_unfold)

lemma kouter_take [kframe]:
  "take_whole h s = Inr (r, t) \<Longrightarrow> kouter t = kouter s"
  "take_split h sz s = Inr (r, t) \<Longrightarrow> kouter t = kouter s"
  by (auto simp: take_whole_def take_split_def res_simps Let_def dest!: kframe)

lemma kouter_cut [kframe]:
  "cut_front h hd1 s = Inr t \<Longrightarrow> kouter t = kouter s"
  "split_tail h hd1 sz tot s = Inr t \<Longrightarrow> kouter t = kouter s"
  by (auto simp: cut_front_def split_tail_def res_simps Let_def dest!: kframe split: if_splits)

lemma kouter_aligned [kframe]: "take_aligned h d sz s = Inr (r, t) \<Longrightarrow> kouter t = kouter s"
  by (auto simp: take_aligned_def res_simps Let_def dest!: kframe)

lemma kouter_try [kframe]: "try_block sz al h s = Inr (r, t) \<Longrightarrow> kouter t = kouter s"
  by (auto simp: try_block_def res_simps Let_def dest!: kframe split: if_splits option.splits)

lemma kouter_grow_page [kframe]: "grow_page page s = Inr (ok, t) \<Longrightarrow> kouter t = kouter s"
  by (auto simp: grow_page_def res_simps dest!: kframe split: if_splits)

lemma kouter_grow_loop: "grow_loop page lim a s = Some r \<Longrightarrow> r = Inr (a', t) \<Longrightarrow> kouter t = kouter s"
proof (induction arbitrary: a' t rule: grow_loop.raw_induct [rotated, consumes 1, case_names 1])
  case (1 g page lim a s r)
  show ?case
  proof (cases "page < lim \<and> \<not> heap_size (kheap s) \<ge> heap_max_size (kheap s)")
    case False
    then show ?thesis using 1 by (auto split: if_splits)
  next
    case True
    with 1(2,3) obtain ok s1 where s1: "grow_page page s = Inr (ok, s1)" by (auto split: sum.splits)
    have o1: "kouter s1 = kouter s" using s1 by (rule kouter_grow_page)
    show ?thesis
    proof (cases ok)
      case False
      then show ?thesis using 1(2,3) True s1 o1 by simp
    next
      case tr: True
      let ?s = "s1\<lparr>kheap := (kheap s1)\<lparr>heap_size := heap_size (kheap s1) + PAGE_SIZE\<rparr>\<rparr>"
      have "g (page + PAGE_SIZE) lim (a + PAGE_SIZE) ?s = Some r" using 1(2) True s1 tr by simp
      then show ?thesis using 1(1) [of _ _ _ ?s r a' t] 1(3) o1 by simp
    qed
  qed
qed

lemma kouter_heap_grow [kframe]: "heap_grow sz s = Inr (r, t) \<Longrightarrow> kouter t = kouter s"
  by (auto simp: heap_grow_def res_simps Let_def loop_result_def dest!: kouter_grow_loop kframe
      split: if_splits option.splits)

lemma kouter_alloc_walk: "alloc_walk sz al h s = Some r \<Longrightarrow> r = Inr (x, t) \<Longrightarrow> kouter t = kouter s"
proof (induction arbitrary: x t rule: alloc_walk.raw_induct [rotated, consumes 1, case_names 1])
  case (1 g sz al h s r)
  show ?case
  proof (cases "h = NULL \<or> (\<exists>e. try_block sz al h s = Inl e)")
    case True
    then show ?thesis using 1(2,3) by (auto split: if_splits)
  next
    case False
    then obtain o' s1 where o': "try_block sz al h s = Inr (o', s1)" "h \<noteq> NULL" by (cases "try_block sz al h s") auto
    then show ?thesis
      using 1(1) [of sz al "hb_next (blocks s1 h)" s1 r x t] 1(2,3) kouter_try [OF o'(1)]
      by (cases o') auto
  qed
qed

lemma kouter_alloc_loop: "alloc_loop sz al s = Some r \<Longrightarrow> r = Inr (x, t) \<Longrightarrow> kouter t = kouter s"
proof (induction arbitrary: x t rule: alloc_loop.raw_induct [rotated, consumes 1, case_names 1])
  case (1 g sz al s r)
  obtain o' s1 where o': "alloc_walk sz al (heap_head (kheap s)) s = Some (Inr (o', s1))"
    using 1(2,3) by (auto simp: loop_result_def split: option.splits sum.splits)
  have b: "kouter s1 = kouter s" using kouter_alloc_walk [OF o' refl] .
  show ?case
  proof (cases o')
    case (Some p)
    then show ?thesis using 1(2,3) o' b by auto
  next
    case None
    obtain n s2 where n: "heap_grow sz s1 = Inr (n, s2)" using 1(2,3) o' None by (auto split: sum.splits)
    have b2: "kouter s2 = kouter s" using kouter_heap_grow [OF n] b by simp
    show ?thesis
    proof (cases "n = NULL")
      case True
      then show ?thesis using 1(2,3) o' None n b2 by (auto dest!: kouter_set(4))
    next
      case False
      then show ?thesis using 1(1) [of sz al s2 r x t] 1(2,3) o' None n b2 by simp
    qed
  qed
qed

lemma kouter_heap_alloc [kframe]: "heap_alloc_aligned sz al s = Inr (p, t) \<Longrightarrow> kouter t = kouter s"
  by (auto simp: heap_alloc_aligned_def heap_alloc_block_aligned_def loop_result_def res_simps case_prod_unfold
      dest!: kouter_alloc_loop split: if_splits option.splits)

lemma kouter_heap_free [kframe]: "heap_free p s = Inr (u, t) \<Longrightarrow> kouter t = kouter s"
  by (auto simp: heap_free_def heap_free_block_def coalesce_prev_def coalesce_next_def res_simps case_prod_unfold
      dest!: kframe split: if_splits)

lemma kouter_kmalloc [kframe]:
  "kmalloc_a sz al s = Inr (p, t) \<Longrightarrow> kouter t = kouter s"
  "kmalloc sz s = Inr (p, t) \<Longrightarrow> kouter t = kouter s"
  "kfree q s = Inr (u, t) \<Longrightarrow> kouter t = kouter s"
  by (auto simp: kmalloc_def kmalloc_a_def kfree_def res_simps elim!: kouter_criticalE dest!: kframe split: if_splits)

lemmas kframe_o [frame_rules] = kframe [THEN kouter_outer]

section \<open>Page directories\<close>

lemma outer_transient_map [frame_rules]: "vmm_transient_map f fl s = Inr (a, t) \<Longrightarrow> outer t = outer s"
  by (auto simp: vmm_transient_map_def res_simps Let_def prod.case_eq_if [of _ "list_append _ _ _"]
      elim!: outer_criticalE dest!: frame_rules)

lemma outer_transient_unmap_body:
  "transient_unmap_body a mp u = Inr (b, v) \<Longrightarrow> outer (snd v) = outer (snd u)"
  by (cases u) (auto simp: transient_unmap_body_def res_simps Let_def prod.case_eq_if [of _ "list_remove _ _ _"]
      dest!: frame_rules split: if_splits)

lemma outer_transient_unmap [frame_rules]: "vmm_transient_unmap a s = Inr (u, t) \<Longrightarrow> outer t = outer s"
  unfolding vmm_transient_unmap_def
  by (erule outer_criticalE)
    (auto simp: res_simps dest!: list_foreach_keeps [where F = "\<lambda>u. outer (snd u)", OF _ outer_transient_unmap_body]
      split: if_splits)

lemma outer_clone_entry [frame_rules]: "clone_entry d c i s = Inr t \<Longrightarrow> outer t = outer s"
  by (auto simp: clone_entry_def memcpy_page_def res_simps Let_def dest!: frame_rules split: if_splits)

lemma outer_for_each_clone [frame_rules]:
  "for_each (clone_entry d c) is s = Inr t \<Longrightarrow> outer t = outer s"
  by (erule for_each_keeps, erule frame_rules)

lemma outer_clone_pagetable [frame_rules]: "clone_pagetable d c s = Inr t \<Longrightarrow> outer t = outer s"
  by (auto simp: clone_pagetable_def res_simps dest!: frame_rules)

lemma outer_clone_user_entry [frame_rules]: "clone_user_entry r i s = Inr t \<Longrightarrow> outer t = outer s"
  by (auto simp: clone_user_entry_def res_simps Let_def dest!: frame_rules split: if_splits)

lemma outer_for_each_user [frame_rules]:
  "for_each (clone_user_entry p) is s = Inr t \<Longrightarrow> outer t = outer s"
  by (erule for_each_keeps, erule frame_rules)

lemma outer_clone_pagedir [frame_rules]: "vmm_clone_pagedir s = Inr (p, t) \<Longrightarrow> outer t = outer s"
  by (auto simp: vmm_clone_pagedir_def res_simps elim!: outer_criticalE dest!: frame_rules)

lemma outer_destroy_entry [frame_rules]: "destroy_entry p i s = Inr t \<Longrightarrow> outer t = outer s"
  by (auto simp: destroy_entry_def res_simps Let_def dest!: frame_rules split: if_splits)

lemma outer_for_each_destroy [frame_rules]:
  "for_each (destroy_entry p) is s = Inr t \<Longrightarrow> outer t = outer s"
  by (erule for_each_keeps, erule frame_rules)

lemma outer_destroy_pagedir [frame_rules]: "vmm_destroy_pagedir p s = Inr (u, t) \<Longrightarrow> outer t = outer s"
  by (auto simp: vmm_destroy_pagedir_def res_simps dest!: frame_rules)

end
