(* ===== verification/Owned.thy ===== *)
theory Owned
  imports Frame
begin

text \<open>
  Who owns which block of the kernel heap. A component holds a set of pointers it got from
  \<open>kmalloc\<close>; the temporary mappings hold their descriptors and windows. \<open>owns s P\<close> says that the
  heap is well formed and that the blocks in \<open>P\<close> are allocated and are none of those the
  temporary mappings use. Every operation on page directories keeps that, so what a component
  owns is never handed out a second time nor released behind its back.
\<close>

definition owns :: "'a dir_state_scheme \<Rightarrow> u32 set \<Rightarrow> bool" where
  "owns s P \<longleftrightarrow>
     (\<exists>L ms. kheap_inv s L \<and> dll (tlinks s) (transient_maps s) ms
        \<and> distinct (ms @ map (\<lambda>m. tm_address (tmaps s m)) ms)
        \<and> (\<forall>m\<in>set ms. m \<in> L - P \<and> tm_address (tmaps s m) \<in> L - P) \<and> P \<subseteq> L)"

section \<open>Operations that do not touch the heap\<close>

lemma heap_inv_cong:
  "blocks t = blocks s \<Longrightarrow> canaries t = canaries s \<Longrightarrow> kheap t = kheap s \<Longrightarrow> kheap_addr t = kheap_addr s \<Longrightarrow>
     heap_inv t L bs = heap_inv s L bs"
  by (simp add: heap_inv_def heap_wf_def live_def canary_addr_def)

lemma vouter_fields:
  fixes s t :: "'a dir_state_scheme"
  assumes "vouter t = vouter s"
  shows "blocks t = blocks s" "canaries t = canaries s" "kheap t = kheap s" "kheap_addr t = kheap_addr s"
    "tmaps t = tmaps s" "tlinks t = tlinks s" "transient_maps t = transient_maps s"
  using assms by (cases s, cases t, simp add: vouter_def)+

lemma kouter_fields:
  fixes s t :: "'a dir_state_scheme"
  assumes "kouter t = kouter s"
  shows "tmaps t = tmaps s" "tlinks t = tlinks s" "transient_maps t = transient_maps s"
  using assms by (cases s, cases t, simp add: kouter_def)+

lemma owns_cong:
  "(\<And>L bs. heap_inv t L bs = heap_inv s L bs) \<Longrightarrow> tmaps t = tmaps s \<Longrightarrow> tlinks t = tlinks s \<Longrightarrow>
     transient_maps t = transient_maps s \<Longrightarrow> owns t P = owns s P"
  by (simp add: owns_def kheap_inv_def)

lemma owns_vouter:
  assumes "vouter t = vouter s"
  shows "owns t P = owns s P"
  by (rule owns_cong) (use vouter_fields [OF assms] heap_inv_cong in auto)

lemma owns_flags [simp]: "owns (cli s) P = owns s P" "owns (restore_if f s) P = owns s P"
  by (rule owns_cong; simp add: cli_def restore_if_def sti_def)+

lemma owns_critical:
  assumes "critical body s = Inr (r, t)" and "owns s P" and "\<And>u v. owns u P \<Longrightarrow> body u = Inr (r, v) \<Longrightarrow> owns v Q"
  shows "owns t Q"
  using assms(1) assms(3) [of "cli s"] assms(2) by (auto simp: critical_Inr)

section \<open>Allocation and release\<close>

lemma owns_kmalloc_a:
  assumes "owns s P" "kmalloc_a n (2 ^ k) s = Inr (p, t)" "k \<le> 12" "2 ^ k \<le> unat n + 2" "unat n + 56 < 2 ^ 32"
  shows "p \<notin> P \<and> owns t (insert p P)"
proof -
  obtain L ms where o: "kheap_inv s L" "dll (tlinks s) (transient_maps s) ms"
      "distinct (ms @ map (\<lambda>m. tm_address (tmaps s m)) ms)"
      "\<forall>m\<in>set ms. m \<in> L - P \<and> tm_address (tmaps s m) \<in> L - P" "P \<subseteq> L"
    using assms(1) by (auto simp: owns_def)
  have "p \<notin> L \<and> kheap_inv t (insert p L)"
    using km.al_new [OF o(1), of "(n, k)" p t] assms(2-5) by (simp add: kmalloc_request_def request_in_range_def)
  moreover have "tmaps t = tmaps s" "tlinks t = tlinks s" "transient_maps t = transient_maps s"
    using kouter_fields kouter_kmalloc(1) [OF assms(2)] by blast+
  ultimately show ?thesis using o by (auto simp: owns_def intro!: exI [of _ "insert p L"] exI [of _ ms])
qed

lemma owns_kmalloc:
  assumes "owns s P" "kmalloc n s = Inr (p, t)" "6 \<le> unat n" "unat n + 56 < 2 ^ 32"
  shows "p \<notin> P \<and> owns t (insert p P)"
  using owns_kmalloc_a [of s P n 3 p t] assms by (simp add: kmalloc_def res_simps)

lemma owns_kfree:
  assumes "owns s P" "p \<in> P" "kfree p s = Inr (u, t)"
  shows "owns t (P - {p})"
proof -
  obtain L ms where o: "kheap_inv s L" "dll (tlinks s) (transient_maps s) ms"
      "distinct (ms @ map (\<lambda>m. tm_address (tmaps s m)) ms)"
      "\<forall>m\<in>set ms. m \<in> L - P \<and> tm_address (tmaps s m) \<in> L - P" "P \<subseteq> L"
    using assms(1) by (auto simp: owns_def)
  have "kheap_inv t (L - {p})" using km.rel_any [OF o(1), of p] o(5) assms(2,3) by auto
  moreover have "tmaps t = tmaps s" "tlinks t = tlinks s" "transient_maps t = transient_maps s"
    using kouter_fields kouter_kmalloc(3) [OF assms(3)] by blast+
  ultimately show ?thesis
    using o assms(2) by (auto simp: owns_def intro!: exI [of _ "L - {p}"] exI [of _ ms])
qed

section \<open>Temporary mappings\<close>

text \<open>Entering a descriptor into the list of temporary mappings gives it and its window away.\<close>

lemma owns_register:
  assumes "owns s (insert mp (insert a P))" "mp \<noteq> a" "mp \<notin> P" "a \<notin> P" "mp \<noteq> NULL" "tlinks s mp = detached"
    "tm_address (tmaps s mp) = a" "list_append (tlinks s) (transient_maps s) mp = (lk, l)"
  shows "owns (s\<lparr>tlinks := lk, transient_maps := l\<rparr>) P"
proof -
  obtain L ms where o: "kheap_inv s L" "dll (tlinks s) (transient_maps s) ms"
      "distinct (ms @ map (\<lambda>m. tm_address (tmaps s m)) ms)"
      "\<forall>m\<in>set ms. m \<in> L - insert mp (insert a P) \<and> tm_address (tmaps s m) \<in> L - insert mp (insert a P)"
      "insert mp (insert a P) \<subseteq> L"
    using assms(1) by (auto simp: owns_def)
  have "dll lk l (ms @ [mp])"
    using o(2,4) assms(5,6,8) by (intro dll_append [of "tlinks s" "transient_maps s"]) (auto simp: linkable_def)
  moreover have "kheap_inv (s\<lparr>tlinks := lk, transient_maps := l\<rparr>) L"
    using o(1) by (simp add: kheap_inv_def heap_inv_def heap_wf_def live_def canary_addr_def)
  moreover have "distinct ((ms @ [mp]) @ map (\<lambda>m. tm_address (tmaps s m)) (ms @ [mp]))"
    using o(3,4) assms(2,7) by fastforce
  moreover have "\<forall>m\<in>set (ms @ [mp]). m \<in> L - P \<and> tm_address (tmaps s m) \<in> L - P"
    using o(4,5) assms(3,4,7) by simp
  moreover have "P \<subseteq> L" using o(5) by simp
  ultimately show ?thesis unfolding owns_def by (intro exI [of _ L] exI [of _ "ms @ [mp]"]) simp
qed

text \<open>The list node and the descriptor of an owned block are not among the registered ones.\<close>

lemma owns_descriptor:
  assumes "owns s P" "mp \<in> P"
  shows "owns (s\<lparr>tmaps := (tmaps s)(mp := x), tlinks := (tlinks s)(mp := y)\<rparr>) P"
proof -
  obtain L ms where o: "kheap_inv s L" "dll (tlinks s) (transient_maps s) ms"
      "distinct (ms @ map (\<lambda>m. tm_address (tmaps s m)) ms)"
      "\<forall>m\<in>set ms. m \<in> L - P \<and> tm_address (tmaps s m) \<in> L - P" "P \<subseteq> L"
    using assms(1) by (auto simp: owns_def)
  let ?t = "s\<lparr>tmaps := (tmaps s)(mp := x), tlinks := (tlinks s)(mp := y)\<rparr>"
  have mp: "m \<noteq> mp" if "m \<in> set ms" for m using that o(4) assms(2) by auto
  have "dll (tlinks ?t) (transient_maps ?t) ms" using o(2) by (simp, rule dll_frame) (use mp in auto)
  moreover have "kheap_inv ?t L"
    using o(1) by (simp add: kheap_inv_def heap_inv_def heap_wf_def live_def canary_addr_def)
  moreover have e: "tmaps ?t m = tmaps s m" if "m \<in> set ms" for m using mp that by simp
  have "distinct (ms @ map (\<lambda>m. tm_address (tmaps ?t m)) ms)" using o(3) e by (simp cong: map_cong)
  moreover have "\<forall>m\<in>set ms. m \<in> L - P \<and> tm_address (tmaps ?t m) \<in> L - P" using o(4) e by simp
  ultimately show ?thesis unfolding owns_def using o(5) by blast
qed

lemma owns_transient_map:
  assumes "owns s P" "vmm_transient_map f fl s = Inr (a, t)"
  shows "owns t P"
proof -
  obtain a' s1 where s1: "kmalloc_a PAGE_SIZE PAGE_SIZE s = Inr (a', s1)"
    and c: "critical (\<lambda>s. res_bind (kmalloc 20 s) (\<lambda>(mp, s).
       res_bind (vmm_get_physical a' s) (\<lambda>(old_frame, s).
       res_bind (vmm_get_flags a' s) (\<lambda>(old_flags, s).
       let s = s\<lparr>tmaps := (tmaps s)(mp := \<lparr>tm_frame = old_frame, tm_flags = old_flags, tm_address = a'\<rparr>),
                 tlinks := (tlinks s)(mp := detached)\<rparr>
       in
       res_bind (vmm_unmap a' s) (\<lambda>(_, s).
       res_bind (vmm_map a' f (VMM_PAGE_PRESENT OR fl) s) (\<lambda>(_, s).
       case list_append (tlinks s) (transient_maps s) mp of (lk, l) \<Rightarrow>
         Inr (a', s\<lparr>tlinks := lk, transient_maps := l\<rparr>))))))) s1 = Inr (a, t)"
    using assms(2) by (auto simp: vmm_transient_map_def res_simps)
  have a: "a' \<notin> P" "owns s1 (insert a' P)"
    using owns_kmalloc_a [of s P 4096 12 a' s1] assms(1) s1 by (auto simp: PAGE_SIZE_def)
  show ?thesis
  proof (rule owns_critical [OF c a(2)])
    fix u v assume u: "owns u (insert a' P)" and body: "res_bind (kmalloc 20 u) (\<lambda>(mp, s).
       res_bind (vmm_get_physical a' s) (\<lambda>(old_frame, s).
       res_bind (vmm_get_flags a' s) (\<lambda>(old_flags, s).
       let s = s\<lparr>tmaps := (tmaps s)(mp := \<lparr>tm_frame = old_frame, tm_flags = old_flags, tm_address = a'\<rparr>),
                 tlinks := (tlinks s)(mp := detached)\<rparr>
       in
       res_bind (vmm_unmap a' s) (\<lambda>(_, s).
       res_bind (vmm_map a' f (VMM_PAGE_PRESENT OR fl) s) (\<lambda>(_, s).
       case list_append (tlinks s) (transient_maps s) mp of (lk, l) \<Rightarrow>
         Inr (a', s\<lparr>tlinks := lk, transient_maps := l\<rparr>)))))) = Inr (a, v)"
    then obtain mp u1 f2 u2 f3 u3 w5 u5 w6 u6 where
        k: "kmalloc 20 u = Inr (mp, u1)" "vmm_get_physical a' u1 = Inr (f2, u2)" "vmm_get_flags a' u2 = Inr (f3, u3)"
          "vmm_unmap a' (u3\<lparr>tmaps := (tmaps u3)(mp := \<lparr>tm_frame = f2, tm_flags = f3, tm_address = a'\<rparr>),
                 tlinks := (tlinks u3)(mp := detached)\<rparr>) = Inr (w5, u5)"
          "vmm_map a' f (VMM_PAGE_PRESENT OR fl) u5 = Inr (w6, u6)"
        and v: "v = u6\<lparr>tlinks := fst (list_append (tlinks u6) (transient_maps u6) mp),
                  transient_maps := snd (list_append (tlinks u6) (transient_maps u6) mp)\<rparr>"
      by (auto simp: res_simps Let_def prod.case_eq_if [of _ "list_append _ _ _"])
    have mp: "mp \<notin> insert a' P" "owns u1 (insert mp (insert a' P))" "mp \<noteq> NULL"
      using owns_kmalloc [OF u k(1)] k(1) by (auto simp: kmalloc_def kmalloc_a_Inr res_simps)
    have v3: "vouter u3 = vouter u1" using vouter_lookup(2) [OF k(3)] vouter_lookup(1) [OF k(2)] by simp
    let ?u4 = "u3\<lparr>tmaps := (tmaps u3)(mp := \<lparr>tm_frame = f2, tm_flags = f3, tm_address = a'\<rparr>),
                 tlinks := (tlinks u3)(mp := detached)\<rparr>"
    have v6: "vouter u6 = vouter ?u4" using vouter_vmm_map(1) [OF k(5)] vouter_vmm_map(2) [OF k(4)] by simp
    have "owns ?u4 (insert mp (insert a' P))"
      using mp(2) owns_vouter [OF v3] by (intro owns_descriptor) auto
    then have "owns u6 (insert mp (insert a' P))" using owns_vouter [OF v6] by simp
    then show "owns v P"
      unfolding v using mp a(1) vouter_fields(5,6) [OF v6]
      by (intro owns_register [where mp = mp and a = a']) auto
  qed
qed

text \<open>Loops that look for one element, act on it and leave: until then the state is unchanged.\<close>

definition search_body :: "(ptr \<Rightarrow> 's \<Rightarrow> (bool \<times> 's) res) \<Rightarrow> bool" where
  "search_body body \<longleftrightarrow> (\<forall>x s b s'. body x s = Inr (b, s') \<longrightarrow> b \<or> s' = s)"

lemma search_keeps_successors: "search_body body \<Longrightarrow> keeps_successors lk body xs s"
proof (induction xs)
  case (Cons x xs)
  then show ?case by (cases "body x s") (auto simp: search_body_def)
qed simp

lemma search_fold:
  assumes "search_body body" "foreach_fold body xs s = Inr t"
  shows "t = s \<or> (\<exists>x\<in>set xs. body x s = Inr (True, t))"
  using assms(2)
proof (induction xs)
  case (Cons x xs)
  obtain b s' where b: "body x s = Inr (b, s')" using Cons.prems by (cases "body x s") auto
  then show ?case using Cons assms(1) by (cases b) (auto simp: search_body_def)
qed simp

lemma list_foreach_search:
  assumes "search_body body" "dll (lk s) l xs" "list_foreach lk l body s = Inr t"
  shows "t = s \<or> (\<exists>x\<in>set xs. body x s = Inr (True, t))"
  using search_fold [OF assms(1)] list_foreach_fold [of lk s l xs body] search_keeps_successors [OF assms(1)] assms(2,3)
  by simp

lemma transient_unmap_search: "search_body (transient_unmap_body a)"
  by (auto simp: search_body_def transient_unmap_body_def res_simps Let_def prod.case_eq_if [of _ "list_remove _ _ _"]
      split: if_splits)

lemma owns_unregister:
  assumes "owns s P" "list_remove (tlinks s) (transient_maps s) mp = (lk, l)" "tm_address (tmaps s mp) = a"
    "dll (tlinks s) (transient_maps s) ms" "mp \<in> set ms"
  shows "owns (s\<lparr>tlinks := lk, transient_maps := l\<rparr>) (insert mp (insert a P)) \<and> mp \<noteq> a \<and> mp \<notin> P \<and> a \<notin> P"
proof -
  obtain L ms' where o: "kheap_inv s L" "dll (tlinks s) (transient_maps s) ms'"
      "distinct (ms' @ map (\<lambda>m. tm_address (tmaps s m)) ms')"
      "\<forall>m\<in>set ms'. m \<in> L - P \<and> tm_address (tmaps s m) \<in> L - P" "P \<subseteq> L"
    using assms(1) by (auto simp: owns_def)
  have ms: "ms' = ms" using dll_unique [OF o(2) assms(4)] .
  let ?t = "s\<lparr>tlinks := lk, transient_maps := l\<rparr>" and ?A = "\<lambda>m. tm_address (tmaps s m)"
  obtain ys zs where yz: "ms = ys @ mp # zs" using assms(5) by (auto simp: in_set_conv_decomp)
  have r: "remove1 mp ms = ys @ zs" using o(3) unfolding ms yz by (simp add: remove1_append)
  have "dll lk l (ys @ zs)" using dll_remove [OF assms(4,5,2)] r by simp
  moreover have "kheap_inv ?t L"
    using o(1) by (simp add: kheap_inv_def heap_inv_def heap_wf_def live_def canary_addr_def)
  moreover have "distinct ((ys @ zs) @ map ?A (ys @ zs))" using o(3) unfolding ms yz by auto
  moreover have "\<forall>m\<in>set (ys @ zs). m \<in> L - insert mp (insert a P) \<and> ?A m \<in> L - insert mp (insert a P)"
    using o(3,4) assms(3) unfolding ms yz by (auto simp: image_iff)
  moreover have "insert mp (insert a P) \<subseteq> L" using o(4,5) assms(3,5) unfolding ms by auto
  ultimately have "owns ?t (insert mp (insert a P))"
    unfolding owns_def by (intro exI [of _ L] exI [of _ "ys @ zs"]) simp
  moreover have "mp \<noteq> a" using o(3) assms(3,5) unfolding ms by auto
  moreover have "mp \<notin> P" "a \<notin> P" using o(4) assms(3,5) unfolding ms by auto
  ultimately show ?thesis by simp
qed

lemma owns_transient_unmap_body:
  assumes "owns s P" "dll (tlinks s) (transient_maps s) ms" "mp \<in> set ms"
    "transient_unmap_body a mp (False, s) = Inr (True, found, t)"
  shows "owns t P"
proof -
  obtain w1 s1 w2 s2 w3 s3 w4 where k: "tm_address (tmaps s mp) = a"
      "vmm_unmap a s = Inr (w1, s1)" "vmm_map a (tm_frame (tmaps s1 mp)) (tm_flags (tmaps s1 mp)) s1 = Inr (w2, s2)"
      "kfree mp (s2\<lparr>tlinks := fst (list_remove (tlinks s2) (transient_maps s2) mp),
         transient_maps := snd (list_remove (tlinks s2) (transient_maps s2) mp)\<rparr>) = Inr (w3, s3)"
      "kfree a s3 = Inr (w4, t)"
    using assms(4) by (auto simp: transient_unmap_body_def res_simps Let_def prod.case_eq_if [of _ "list_remove _ _ _"]
        split: if_splits)
  have v: "vouter s2 = vouter s" using vouter_vmm_map(1) [OF k(3)] vouter_vmm_map(2) [OF k(2)] by simp
  note f = vouter_fields [OF v]
  have "owns s2 P" using assms(1) owns_vouter [OF v] by simp
  then have u: "owns (s2\<lparr>tlinks := fst (list_remove (tlinks s2) (transient_maps s2) mp),
         transient_maps := snd (list_remove (tlinks s2) (transient_maps s2) mp)\<rparr>) (insert mp (insert a P))"
      "mp \<noteq> a" "mp \<notin> P" "a \<notin> P"
    using owns_unregister [of s2 P mp "fst (list_remove (tlinks s2) (transient_maps s2) mp)"
        "snd (list_remove (tlinks s2) (transient_maps s2) mp)" a ms] f k(1) assms(2,3) by auto
  have "owns s3 (insert a P)" using owns_kfree [OF u(1) _ k(4)] u(2,3) by (simp add: insert_Diff_if)
  from owns_kfree [OF this _ k(5)] show ?thesis using u(4) by simp
qed

lemma owns_transient_unmap:
  assumes "owns s P" "vmm_transient_unmap a s = Inr (w, t)"
  shows "owns t P"
  using assms(2) unfolding vmm_transient_unmap_def
proof (rule owns_critical [OF _ assms(1)])
  fix u v assume u: "owns u P" and b: "res_bind (list_foreach (\<lambda>fs. tlinks (snd fs)) (transient_maps u) (transient_unmap_body a) (False, u))
         (\<lambda>(found, s). if \<not> found then Inl Panic else Inr ((), s)) = Inr (w, v)"
  obtain ms where ms: "dll (tlinks u) (transient_maps u) ms" using u by (auto simp: owns_def)
  have l: "list_foreach (\<lambda>fs. tlinks (snd fs)) (transient_maps u) (transient_unmap_body a) (False, u) = Inr (True, v)"
    using b by (auto simp: res_simps split: if_splits)
  have "\<exists>x\<in>set ms. transient_unmap_body a x (False, u) = Inr (True, True, v)"
    using list_foreach_search [OF transient_unmap_search _ l, of ms] ms by auto
  then show "owns v P" using owns_transient_unmap_body [OF u ms] by blast
qed

section \<open>Page directories\<close>

named_theorems own_rules \<open>operations under which a component keeps what it owns\<close>

definition owns_on :: "'a dir_state_scheme \<Rightarrow> 'a dir_state_scheme \<Rightarrow> bool" where
  "owns_on s t \<longleftrightarrow> (\<forall>P. owns s P \<longrightarrow> owns t P)"

lemma owns_onI: "vouter t = vouter s \<Longrightarrow> owns_on s t"
  using owns_vouter [of t s] by (simp add: owns_on_def)

lemma owns_onD: "owns_on s t \<Longrightarrow> owns s P \<Longrightarrow> owns t P"
  by (simp add: owns_on_def)

lemma owns_on_trans: "owns_on s t \<Longrightarrow> owns_on t u \<Longrightarrow> owns_on s u"
  by (simp add: owns_on_def)

lemma owns_on_refl [simp, intro]: "owns_on s s"
  by (simp add: owns_on_def)

lemmas owns_vframe [own_rules] = vframe [THEN owns_onI]

lemma owns_transient [own_rules]:
  "vmm_transient_map f fl s = Inr (a, t) \<Longrightarrow> owns_on s t"
  "vmm_transient_unmap b s = Inr (w, t) \<Longrightarrow> owns_on s t"
  using owns_transient_map owns_transient_unmap by (auto simp: owns_on_def)

lemma owns_for_each:
  assumes "for_each body is s = Inr t" and "\<And>i u v. body i u = Inr v \<Longrightarrow> owns_on u v"
  shows "owns_on s t"
  using assms(1)
proof (induction "is" arbitrary: s)
  case (Cons i "is")
  then obtain u where "body i s = Inr u" "for_each body is u = Inr t" by (auto simp: res_simps)
  then show ?case using Cons.IH [of u] assms(2) [of i s u] owns_on_trans by blast
qed simp

lemma owns_clone_entry [own_rules]: "clone_entry d c i s = Inr t \<Longrightarrow> owns_on s t"
  by (auto simp: clone_entry_def memcpy_page_def res_simps Let_def dest!: own_rules split: if_splits)
    (simp add: owns_on_def)

lemma owns_for_each_clone [own_rules]: "for_each (clone_entry d c) is s = Inr t \<Longrightarrow> owns_on s t"
  by (erule owns_for_each, erule own_rules)

lemma owns_clone_pagetable [own_rules]: "clone_pagetable d c s = Inr t \<Longrightarrow> owns_on s t"
  by (auto simp: clone_pagetable_def res_simps dest!: own_rules intro: owns_on_trans)

lemma owns_clone_user_entry [own_rules]: "clone_user_entry r i s = Inr t \<Longrightarrow> owns_on s t"
  by (auto simp: clone_user_entry_def res_simps Let_def dest!: own_rules split: if_splits)
    (simp add: owns_on_def)

lemma owns_for_each_user [own_rules]: "for_each (clone_user_entry r) is s = Inr t \<Longrightarrow> owns_on s t"
  by (erule owns_for_each, erule own_rules)

lemma owns_destroy_entry [own_rules]: "destroy_entry p i s = Inr t \<Longrightarrow> owns_on s t"
  by (auto simp: destroy_entry_def res_simps Let_def dest!: own_rules split: if_splits)
    (simp add: owns_on_def)

lemma owns_for_each_destroy [own_rules]: "for_each (destroy_entry p) is s = Inr t \<Longrightarrow> owns_on s t"
  by (erule owns_for_each, erule own_rules)

lemma owns_clone_pagedir:
  assumes "owns s P" "vmm_clone_pagedir s = Inr (p, t)"
  shows "p \<notin> P \<and> owns t (insert p P)"
proof -
  obtain r s1 s2 where k: "kmalloc_a 4096 PAGE_SIZE s = Inr (r, s1)" "bzero_table r s1 = Inr s2"
    and c: "critical (\<lambda>s.
       res_bind (for_each (clone_user_entry r) (entry_range USER_PDE_START USER_PDE_END) s) (\<lambda>s.
       res_bind (for_each (copy_kernel_entry r) (entry_range KERNEL_PDE_START KERNEL_PDE_END) s) (\<lambda>s.
       res_bind (vmm_get_physical r s) (\<lambda>(pa, s).
       res_bind (store32 s (pagedir_entry r RECURSIVE_MAPPING_PDE) (pa OR PDE_PRESENT OR PDE_WRITABLE)) (\<lambda>s.
         Inr (r, s)))))) s2 = Inr (p, t)"
    using assms(2) by (auto simp: vmm_clone_pagedir_def res_simps)
  have r: "p = r" using c by (auto simp: critical_Inr res_simps)
  have "r \<notin> P" "owns s1 (insert r P)"
    using owns_kmalloc_a [of s P 4096 12 r s1] assms(1) k(1) by (auto simp: PAGE_SIZE_def)
  moreover from this have "owns s2 (insert r P)" using k(2) by (auto dest!: own_rules intro: owns_onD)
  then have "owns t (insert r P)"
    by (rule owns_critical [OF c]) (auto simp: res_simps dest!: own_rules simp: owns_on_def)
  ultimately show ?thesis using r by simp
qed

lemma owns_destroy_pagedir:
  assumes "owns s P" "p \<in> P" "vmm_destroy_pagedir p s = Inr (u, t)"
  shows "owns t (P - {p})"
proof -
  obtain s1 where s1: "for_each (destroy_entry p) (entry_range USER_PDE_START USER_PDE_END) s = Inr s1"
      "kfree p s1 = Inr (u, t)"
    using assms(3) by (auto simp: vmm_destroy_pagedir_def res_simps)
  have "owns s1 P" using owns_for_each_destroy [OF s1(1)] assms(1) by (rule owns_onD)
  from owns_kfree [OF this assms(2) s1(2)] show ?thesis .
qed

end
