(* ===== verification/CString.thy ===== *)
theory CString
  imports KPrelude
begin

text \<open>
  \<open>common/string.c\<close>. An object in memory is the list of its bytes and a pointer into it an
  index; reading or writing outside the object is a fault. Functions of two pointers that may
  alias (\<open>memcpy\<close>) take both as indices into one object.
\<close>

section \<open>Bytes\<close>

definition rd :: "u8 list \<Rightarrow> nat \<Rightarrow> u8 res" where
  "rd b i = (if i < length b then Inr (b ! i) else Inl Undefined)"

definition wr :: "u8 list \<Rightarrow> nat \<Rightarrow> u8 \<Rightarrow> u8 list res" where
  "wr b i v = (if i < length b then Inr (b[i := v]) else Inl Undefined)"

text \<open>\<open>while(*(str++)) len++\<close>, on the bytes from the pointer to the end of the object.\<close>

fun strlen_from :: "u8 list \<Rightarrow> nat res" where
  "strlen_from [] = Inl Undefined"
| "strlen_from (c # cs) = (if c = 0 then Inr 0 else res_bind (strlen_from cs) (\<lambda>n. Inr (n + 1)))"

definition strlen :: "u8 list \<Rightarrow> nat \<Rightarrow> nat res" where
  "strlen b p = strlen_from (drop p b)"

fun memset_loop :: "u8 list \<Rightarrow> nat \<Rightarrow> u8 \<Rightarrow> nat \<Rightarrow> u8 list res" where
  "memset_loop b p ch 0 = Inr b"
| "memset_loop b p ch (Suc n) = res_bind (wr b p ch) (\<lambda>b. memset_loop b (p + 1) ch n)"

definition memset :: "u8 list \<Rightarrow> nat \<Rightarrow> u8 \<Rightarrow> nat \<Rightarrow> u8 list res" where
  "memset b p ch sz = memset_loop b p ch sz"

definition bzero :: "u8 list \<Rightarrow> nat \<Rightarrow> nat \<Rightarrow> u8 list res" where
  "bzero b p sz = memset b p 0 sz"

fun copy_forward :: "u8 list \<Rightarrow> nat \<Rightarrow> nat \<Rightarrow> nat \<Rightarrow> u8 list res" where
  "copy_forward b d s 0 = Inr b"
| "copy_forward b d s (Suc n) =
     res_bind (rd b s) (\<lambda>c. res_bind (wr b d c) (\<lambda>b. copy_forward b (d + 1) (s + 1) n))"

text \<open>\<open>d\<close> and \<open>s\<close> have been advanced by \<open>n\<close> and are decremented before each access.\<close>

fun copy_backward :: "u8 list \<Rightarrow> nat \<Rightarrow> nat \<Rightarrow> nat \<Rightarrow> u8 list res" where
  "copy_backward b d s 0 = Inr b"
| "copy_backward b d s (Suc n) =
     res_bind (rd b (s - 1)) (\<lambda>c. res_bind (wr b (d - 1) c) (\<lambda>b. copy_backward b (d - 1) (s - 1) n))"

definition memcpy :: "u8 list \<Rightarrow> nat \<Rightarrow> nat \<Rightarrow> nat \<Rightarrow> u8 list res" where
  "memcpy b dest source sz =
     (if source < dest \<and> source + sz > dest then copy_backward b (dest + sz) (source + sz) sz
      else copy_forward b dest source sz)"

fun memcmp_loop :: "u8 list \<Rightarrow> nat \<Rightarrow> u8 list \<Rightarrow> nat \<Rightarrow> nat \<Rightarrow> int res" where
  "memcmp_loop b0 p0 b1 p1 0 = Inr 0"
| "memcmp_loop b0 p0 b1 p1 (Suc n) =
     res_bind (rd b0 p0) (\<lambda>x. res_bind (rd b1 p1) (\<lambda>y.
       if x \<noteq> y then Inr (int (unat y) - int (unat x)) else memcmp_loop b0 (p0 + 1) b1 (p1 + 1) n))"

definition memcmp :: "u8 list \<Rightarrow> nat \<Rightarrow> u8 list \<Rightarrow> nat \<Rightarrow> nat \<Rightarrow> int res" where
  "memcmp b0 p0 b1 p1 sz = (if sz = 0 then Inr 0 else memcmp_loop b0 p0 b1 p1 sz)"

section \<open>Strings\<close>

fun strlcpy_loop :: "u8 list \<Rightarrow> nat \<Rightarrow> u8 list \<Rightarrow> nat \<Rightarrow> nat \<Rightarrow> u8 list res" where
  "strlcpy_loop dst d src s siz =
     (if siz > 1 then
        res_bind (rd src s) (\<lambda>c.
          if c \<noteq> 0 then res_bind (wr dst d c) (\<lambda>dst. strlcpy_loop dst (d + 1) src (s + 1) (siz - 1))
          else wr dst d 0)
      else wr dst d 0)"

declare strlcpy_loop.simps [simp del]

definition strlcpy :: "u8 list \<Rightarrow> nat \<Rightarrow> u8 list \<Rightarrow> nat \<Rightarrow> nat \<Rightarrow> u8 list res" where
  "strlcpy dst d src s siz = strlcpy_loop dst d src s siz"

fun strlcat_seek :: "u8 list \<Rightarrow> nat \<Rightarrow> nat \<Rightarrow> (nat \<times> nat) res" where
  "strlcat_seek dst d 0 = res_bind (rd dst d) (\<lambda>_. Inr (d, 0))"
| "strlcat_seek dst d (Suc siz) =
     res_bind (rd dst d) (\<lambda>c. if c \<noteq> 0 then strlcat_seek dst (d + 1) siz else Inr (d, Suc siz))"

fun strlcat_copy :: "u8 list \<Rightarrow> nat \<Rightarrow> u8 list \<Rightarrow> nat \<Rightarrow> nat \<Rightarrow> u8 list res" where
  "strlcat_copy dst d src s siz =
     res_bind (rd src s) (\<lambda>c.
       if c \<noteq> 0 \<and> siz > 1
       then res_bind (wr dst d c) (\<lambda>dst. strlcat_copy dst (d + 1) src (s + 1) (siz - 1))
       else wr dst d 0)"

declare strlcat_copy.simps [simp del]

definition strlcat :: "u8 list \<Rightarrow> nat \<Rightarrow> u8 list \<Rightarrow> nat \<Rightarrow> nat \<Rightarrow> u8 list res" where
  "strlcat dst d src s siz = res_bind (strlcat_seek dst d siz) (\<lambda>(d, siz). strlcat_copy dst d src s siz)"

text \<open>
  \<open>strcmp\<close> tests \<open>!*s0 || !*s0\<close>, the same byte twice; \<open>char\<close> is signed. The arguments are the
  bytes from each pointer to the end of its object.
\<close>

fun strcmp :: "u8 list \<Rightarrow> u8 list \<Rightarrow> int res" where
  "strcmp (x # xs) (y # ys) =
     (if x = 0 \<or> x = 0 then Inr (sint y - sint x)
      else if x \<noteq> y then Inr (sint y - sint x)
      else strcmp xs ys)"
| "strcmp _ _ = Inl Undefined"

text \<open>\<open>basename\<close> scans the string remembering the last slash.\<close>

fun basename_loop :: "u8 list \<Rightarrow> u8 list \<Rightarrow> u8 list res" where
  "basename_loop result [] = Inl Undefined"
| "basename_loop result (c # cs) =
     (if c = 0 then Inr result
      else basename_loop (if c = 47 then c # cs else result) cs)"

definition basename :: "u8 list \<Rightarrow> u8 list res" where
  "basename filename =
     res_bind (basename_loop filename filename) (\<lambda>result.
       res_bind (rd result 0) (\<lambda>c. Inr (if c = 47 then drop 1 result else result)))"

section \<open>Numbers\<close>

function reverse_loop :: "u8 list \<Rightarrow> nat \<Rightarrow> int \<Rightarrow> int \<Rightarrow> u8 list res" where
  "reverse_loop b p start end' =
     (if start < end' then
        res_bind (rd b (p + nat start)) (\<lambda>tmp.
        res_bind (rd b (p + nat end')) (\<lambda>c.
        res_bind (wr b (p + nat start) c) (\<lambda>b.
        res_bind (wr b (p + nat end') tmp) (\<lambda>b.
          reverse_loop b p (start + 1) (end' - 1)))))
      else Inr b)"
  by auto
termination by (relation "measure (\<lambda>(b, p, start, end'). nat (end' - start))") auto

declare reverse_loop.simps [simp del]

definition strreverse :: "u8 list \<Rightarrow> nat \<Rightarrow> u32 \<Rightarrow> u8 list res" where
  "strreverse b p sz =
     res_bind (if sz = -1 then strlen b p else Inr (unat sz)) (\<lambda>sz.
       reverse_loop b p 0 (int sz - 1))"

definition digit_char :: "u64 \<Rightarrow> u8" where
  "digit_char d = (if d < 10 then 48 + ucast d else 65 + (ucast d - 10))"

text \<open>
  The digit loop of \<open>format_int\<close>: \<open>out\<close> is the write position and \<open>sz\<close> the room left. With
  base 0 the division faults; with base 1 and a number other than 0 the loop never ends.
\<close>

partial_function (option) digits_loop ::
  "u8 list \<Rightarrow> nat \<Rightarrow> nat \<Rightarrow> u64 \<Rightarrow> u64 \<Rightarrow> nat \<Rightarrow> (u8 list \<times> nat \<times> nat \<times> nat) res option" where
  "digits_loop b out sz n base ret =
     (if ret = 0 \<or> n \<noteq> 0 then
        if base = 0 then Some (Inl Undefined)
        else if sz > 0 then
          (case wr b out (digit_char (n mod base)) of
             Inl e \<Rightarrow> Some (Inl e)
           | Inr b \<Rightarrow> digits_loop b (out + 1) (sz - 1) (n div base) base (ret + 1))
        else digits_loop b out sz (n div base) base (ret + 1)
      else Some (Inr (b, out, sz, ret)))"

declare digits_loop.simps [code]

definition format_int :: "u8 list \<Rightarrow> nat \<Rightarrow> nat \<Rightarrow> u64 \<Rightarrow> u64 \<Rightarrow> (nat \<times> u8 list) res" where
  "format_int b buffer sz n base =
     res_bind (if sz > 0 then wr b buffer 0 else Inr b) (\<lambda>b.
     res_bind (loop_result (digits_loop b buffer sz n base 0)) (\<lambda>(b, out, sz, ret).
     res_bind (if sz > 0 then res_bind (wr b out 0) (\<lambda>b. strreverse b buffer (-1)) else Inr b) (\<lambda>b.
       Inr (ret + 1, b))))"

definition lltoa :: "u8 list \<Rightarrow> nat \<Rightarrow> nat \<Rightarrow> u64 \<Rightarrow> (nat \<times> u8 list) res" where
  "lltoa b buffer sz n = format_int b buffer sz n 10"

definition itoa :: "u8 list \<Rightarrow> nat \<Rightarrow> u32 \<Rightarrow> u8 list res" where
  "itoa b str n = res_bind (format_int b str 15 (ucast n) 10) (\<lambda>(_, b). Inr b)"

definition itox :: "u8 list \<Rightarrow> nat \<Rightarrow> u32 \<Rightarrow> (nat \<times> u8 list) res" where
  "itox b str n = format_int b str 9 (ucast n) 16"

definition hex_value :: "u8 \<Rightarrow> u32 option" where
  "hex_value c =
     (if 48 \<le> c \<and> c \<le> 57 then Some (ucast c - 48)
      else if 97 \<le> c \<and> c \<le> 102 then Some (ucast c - 97 + 10)
      else if 65 \<le> c \<and> c \<le> 70 then Some (ucast c - 65 + 10)
      else None)"

text \<open>\<open>*p\<close> is read before \<open>p < str + 8\<close> is tested.\<close>

fun xtoa_loop :: "u8 list \<Rightarrow> nat \<Rightarrow> u32 \<Rightarrow> u32 res" where
  "xtoa_loop [] k res = Inl Undefined"
| "xtoa_loop (c # cs) k res =
     (if c \<noteq> 0 \<and> k > 0 then
        (case hex_value c of
           Some v \<Rightarrow> xtoa_loop cs (k - 1) (push_bit 4 res OR v)
         | None \<Rightarrow> Inr res)
      else Inr res)"

definition xtoa :: "u8 list \<Rightarrow> nat \<Rightarrow> u32 res" where
  "xtoa b str = xtoa_loop (drop str b) 8 0"

section \<open>Formatted output\<close>

text \<open>
  The arguments of a call are the list of their values; taking one with the wrong type is a
  fault. \<open>callback\<close> receives one character and the state behind \<open>callback_params\<close>.
\<close>

datatype arg = Arg_Unsigned u32 | Arg_Long u64 | Arg_String "u8 list"

fun va_unsigned :: "arg list \<Rightarrow> (u32 \<times> arg list) res" where
  "va_unsigned (Arg_Unsigned v # args) = Inr (v, args)"
| "va_unsigned _ = Inl Undefined"

fun va_long :: "arg list \<Rightarrow> (u64 \<times> arg list) res" where
  "va_long (Arg_Long v # args) = Inr (v, args)"
| "va_long _ = Inl Undefined"

fun va_string :: "arg list \<Rightarrow> (u8 list \<times> arg list) res" where
  "va_string (Arg_String v # args) = Inr (v, args)"
| "va_string _ = Inl Undefined"

text \<open>\<open>while(*p) { callback(*(p++), callback_params); ret++; }\<close>\<close>

fun emit_string :: "(u8 \<Rightarrow> 's \<Rightarrow> 's res) \<Rightarrow> u8 list \<Rightarrow> 's \<Rightarrow> nat \<Rightarrow> ('s \<times> nat) res" where
  "emit_string callback [] st ret = Inl Undefined"
| "emit_string callback (c # cs) st ret =
     (if c = 0 then Inr (st, ret)
      else res_bind (callback c st) (\<lambda>st. emit_string callback cs st (ret + 1)))"

fun emit_zeros :: "(u8 \<Rightarrow> 's \<Rightarrow> 's res) \<Rightarrow> nat \<Rightarrow> 's \<Rightarrow> nat \<Rightarrow> ('s \<times> nat) res" where
  "emit_zeros callback 0 st ret = Inr (st, ret)"
| "emit_zeros callback (Suc n) st ret =
     res_bind (callback 48 st) (\<lambda>st. emit_zeros callback n st (ret + 1))"

text \<open>The next argument as \<open>unsigned\<close> or, after two \<open>l\<close>, as \<open>unsigned long long\<close>.\<close>

definition va_number :: "nat \<Rightarrow> arg list \<Rightarrow> (u64 \<times> arg list) res" where
  "va_number l args =
     (if l < 2 then res_bind (va_unsigned args) (\<lambda>(v, args). Inr (ucast v, args)) else va_long args)"

text \<open>
  The cases \<open>d\<close>, \<open>u\<close>, \<open>x\<close> and \<open>X\<close>; \<open>num_buffer\<close> is the 64-byte buffer on the stack with
  whatever it holds.
\<close>

definition emit_number ::
    "(u8 \<Rightarrow> 's \<Rightarrow> 's res) \<Rightarrow> u8 list \<Rightarrow> u64 \<Rightarrow> nat \<Rightarrow> nat \<Rightarrow> nat \<Rightarrow> arg list \<Rightarrow> 's \<Rightarrow> nat \<Rightarrow> (arg list \<times> 's \<times> nat) res" where
  "emit_number callback num_buffer base l width leading_zero args st ret =
     res_bind (va_number l args) (\<lambda>(val, args).
     res_bind (format_int num_buffer 0 (length num_buffer) val base) (\<lambda>(_, num_buffer).
     res_bind (strlen num_buffer 0) (\<lambda>len.
     res_bind (if leading_zero > 0 \<and> len < width then emit_zeros callback (width - len) st ret else Inr (st, ret))
       (\<lambda>(st, ret).
     res_bind (emit_string callback num_buffer st ret) (\<lambda>(st, ret).
       Inr (args, st, ret))))))"

definition emit_pointer ::
    "(u8 \<Rightarrow> 's \<Rightarrow> 's res) \<Rightarrow> u8 list \<Rightarrow> nat \<Rightarrow> arg list \<Rightarrow> 's \<Rightarrow> nat \<Rightarrow> (arg list \<times> 's \<times> nat) res" where
  "emit_pointer callback num_buffer l args st ret =
     res_bind (strlcpy num_buffer 0 [48, 120, 0] 0 (length num_buffer)) (\<lambda>num_buffer.
     res_bind (va_number l args) (\<lambda>(val, args).
     res_bind (format_int num_buffer 2 (length num_buffer - 2) val 16) (\<lambda>(_, num_buffer).
     res_bind (emit_string callback num_buffer st ret) (\<lambda>(st, ret).
       Inr (args, st, ret)))))"

definition emit_text ::
    "(u8 \<Rightarrow> 's \<Rightarrow> 's res) \<Rightarrow> arg list \<Rightarrow> 's \<Rightarrow> nat \<Rightarrow> (arg list \<times> 's \<times> nat) res" where
  "emit_text callback args st ret =
     res_bind (va_string args) (\<lambda>(p, args).
     res_bind (emit_string callback p st ret) (\<lambda>(st, ret). Inr (args, st, ret)))"

text \<open>
  Where the scan of the format stands: outside a directive, or behind a percent sign with the
  counters \<open>l\<close>, \<open>width\<close> and \<open>leading_zero\<close>.
\<close>

datatype scan = Text | Directive nat nat nat

fun formatv_loop ::
    "(u8 \<Rightarrow> 's \<Rightarrow> 's res) \<Rightarrow> u8 list \<Rightarrow> scan \<Rightarrow> u8 list \<Rightarrow> arg list \<Rightarrow> 's \<Rightarrow> nat \<Rightarrow> (nat \<times> 's) res" where
  "formatv_loop callback num_buffer sc [] args st ret = Inl Undefined"
| "formatv_loop callback num_buffer Text (c # fmt) args st ret =
     (if c = 0 then Inr (ret, st)
      else if c = 37 then formatv_loop callback num_buffer (Directive 0 0 0) fmt args st ret
      else res_bind (callback c st) (\<lambda>st. formatv_loop callback num_buffer Text fmt args st (ret + 1)))"
| "formatv_loop callback num_buffer (Directive l width leading_zero) (c # fmt) args st ret =
     (if c = 100 \<or> c = 117 then
        res_bind (emit_number callback num_buffer 10 l width leading_zero args st ret) (\<lambda>(args, st, ret).
          formatv_loop callback num_buffer Text fmt args st ret)
      else if c = 115 then
        res_bind (emit_text callback args st ret) (\<lambda>(args, st, ret).
          formatv_loop callback num_buffer Text fmt args st ret)
      else if c = 88 \<or> c = 120 then
        res_bind (emit_number callback num_buffer 16 l width leading_zero args st ret) (\<lambda>(args, st, ret).
          formatv_loop callback num_buffer Text fmt args st ret)
      else if c = 112 \<or> c = 80 then
        res_bind (emit_pointer callback num_buffer l args st ret) (\<lambda>(args, st, ret).
          formatv_loop callback num_buffer Text fmt args st ret)
      else if c = 108 then formatv_loop callback num_buffer (Directive (l + 1) width leading_zero) fmt args st ret
      else if c = 48 \<and> width = 0 then
        formatv_loop callback num_buffer (Directive l width (leading_zero + 1)) fmt args st ret
      else if 48 \<le> c \<and> c \<le> 57 then
        let width' = (if width = 0 then unat (c - 48) else width * 10 + unat (c - 48)) in
        if width' < 2 ^ 31 then formatv_loop callback num_buffer (Directive l width' leading_zero) fmt args st ret
        else Inl Undefined
      else if c \<noteq> 0 then
        res_bind (callback c st) (\<lambda>st.
          formatv_loop callback num_buffer (Directive l width leading_zero) fmt args st (ret + 1))
      else formatv_loop callback num_buffer (Directive l width leading_zero) fmt args st ret)"

definition formatv ::
    "(u8 \<Rightarrow> 's \<Rightarrow> 's res) \<Rightarrow> u8 list \<Rightarrow> u8 list \<Rightarrow> arg list \<Rightarrow> 's \<Rightarrow> (nat \<times> 's) res" where
  "formatv callback num_buffer fmt args st = formatv_loop callback num_buffer Text fmt args st 0"

text \<open>\<open>snprintf_t\<close>: the object written, the write position and the room left (an \<open>int\<close>).\<close>

record snprintf_t =
  sn_mem :: "u8 list"
  sn_buf :: nat
  sn_siz :: int

definition snprintf_callback :: "u8 \<Rightarrow> snprintf_t \<Rightarrow> snprintf_t res" where
  "snprintf_callback ch b =
     (if sn_siz b \<noteq> 0 then
        res_bind (wr (sn_mem b) (sn_buf b) ch) (\<lambda>m.
          Inr (b\<lparr>sn_mem := m, sn_buf := sn_buf b + 1, sn_siz := sn_siz b - 1\<rparr>))
      else Inr b)"

definition vsnprintf :: "u8 list \<Rightarrow> u8 list \<Rightarrow> nat \<Rightarrow> nat \<Rightarrow> u8 list \<Rightarrow> arg list \<Rightarrow> (nat \<times> u8 list) res" where
  "vsnprintf num_buffer m buffer sz fmt args =
     res_bind (formatv snprintf_callback num_buffer fmt args \<lparr>sn_mem = m, sn_buf = buffer, sn_siz = int sz - 1\<rparr>)
       (\<lambda>(ret, b). res_bind (wr (sn_mem b) (buffer + ret) 0) (\<lambda>m. Inr (ret + 1, m)))"

definition vsncatf :: "u8 list \<Rightarrow> u8 list \<Rightarrow> nat \<Rightarrow> nat \<Rightarrow> u8 list \<Rightarrow> arg list \<Rightarrow> (nat \<times> u8 list) res" where
  "vsncatf num_buffer m buffer sz fmt args =
     res_bind (strlen m buffer) (\<lambda>len.
       if len + 1 \<ge> sz then Inr (0, m)
       else vsnprintf num_buffer m (buffer + len) (sz - len) fmt args)"

section \<open>Copying\<close>

lemma rd_simps [simp]: "i < length b \<Longrightarrow> rd b i = Inr (b ! i)" "length b \<le> i \<Longrightarrow> rd b i = Inl Undefined"
  by (simp_all add: rd_def)

lemma wr_simps [simp]: "i < length b \<Longrightarrow> wr b i v = Inr (b[i := v])" "length b \<le> i \<Longrightarrow> wr b i v = Inl Undefined"
  by (simp_all add: wr_def)

text \<open>What a copy is meant to do: the old bytes of the source range end up at the destination.\<close>

definition moved :: "u8 list \<Rightarrow> nat \<Rightarrow> nat \<Rightarrow> nat \<Rightarrow> u8 list" where
  "moved b d s n = map (\<lambda>i. if d \<le> i \<and> i < d + n then b ! (s + (i - d)) else b ! i) [0..<length b]"

lemma moved_simps [simp]: "length (moved b d s n) = length b"
  "i < length b \<Longrightarrow> moved b d s n ! i = (if d \<le> i \<and> i < d + n then b ! (s + (i - d)) else b ! i)"
  by (simp_all add: moved_def)

lemma copy_forward_moves:
  "d + n \<le> length b \<Longrightarrow> s + n \<le> length b \<Longrightarrow> d \<le> s \<or> s + n \<le> d \<Longrightarrow> copy_forward b d s n = Inr (moved b d s n)"
proof (induction n arbitrary: b d s)
  case 0
  then show ?case by (auto intro!: nth_equalityI)
next
  case (Suc n)
  have "Suc (s + i - Suc d) = s + i - d" if "Suc d \<le> i" for i using that by simp
  then have "moved (b[d := b ! s]) (Suc d) (Suc s) n = moved b d s (Suc n)"
    using Suc.prems by (auto intro!: nth_equalityI simp: nth_list_update)
  then show ?case using Suc.IH [of "Suc d" "b[d := b ! s]" "Suc s"] Suc.prems by auto
qed

lemma copy_backward_moves:
  "d + n \<le> length b \<Longrightarrow> s \<le> d \<Longrightarrow> copy_backward b (d + n) (s + n) n = Inr (moved b d s n)"
proof (induction n arbitrary: b)
  case 0
  then show ?case by (auto intro!: nth_equalityI)
next
  case (Suc n)
  have "moved (b[d + n := b ! (s + n)]) d s n = moved b d s (Suc n)"
    using Suc.prems by (auto intro!: nth_equalityI simp: nth_list_update less_Suc_eq)
  then show ?case using Suc by simp
qed

lemma moved_take_drop:
  "d + n \<le> length b \<Longrightarrow> s + n \<le> length b \<Longrightarrow>
     moved b d s n = take d b @ take n (drop s b) @ drop (d + n) b"
  by (rule nth_equalityI) (auto simp: nth_append min_absorb2)

text \<open>
  C27: \<open>memcpy\<close> moves a block of bytes correctly even when source and destination overlap: the
  destination holds what the source held before, every other byte is unchanged.
\<close>

theorem memcpy_moves:
  assumes "dest + sz \<le> length b" "source + sz \<le> length b"
  shows "memcpy b dest source sz = Inr (take dest b @ take sz (drop source b) @ drop (dest + sz) b)"
  using assms copy_forward_moves [of dest sz b source] copy_backward_moves [of dest sz b source]
  by (auto simp: memcpy_def moved_take_drop [symmetric])

theorem memcpy_moves_witness:
  "memcpy [1, 2, 3, 4, 5] 1 0 3 = Inr [1, 1, 2, 3, 5]"
  using memcpy_moves [of 1 3 "[1, 2, 3, 4, 5]" 0] by simp

section \<open>Strings\<close>

text \<open>\<open>b\<close> holds the string \<open>str\<close> at \<open>p\<close>: its characters are not zero and a zero follows them.\<close>

definition cstr :: "u8 list \<Rightarrow> nat \<Rightarrow> u8 list \<Rightarrow> bool" where
  "cstr b p str \<longleftrightarrow> 0 \<notin> set str \<and> (\<exists>rest. drop p b = str @ 0 # rest)"

lemma drop_eq_Cons: "drop p b = c # r \<Longrightarrow> p < length b \<and> b ! p = c \<and> drop (Suc p) b = r"
  by (metis Cons_nth_drop_Suc drop_eq_Nil2 leI list.discI list.inject)

lemma cstr_Cons: "cstr b p (c # cs) \<Longrightarrow> p < length b \<and> b ! p = c \<and> c \<noteq> 0 \<and> cstr b (Suc p) cs"
  unfolding cstr_def by (auto dest!: drop_eq_Cons)

lemma cstr_Nil: "cstr b p [] \<Longrightarrow> p < length b \<and> b ! p = 0"
  unfolding cstr_def by (auto dest!: drop_eq_Cons)

lemma strlen_from_cstr: "0 \<notin> set str \<Longrightarrow> strlen_from (str @ 0 # rest) = Inr (length str)"
  by (induction str) auto

lemma strlen_cstr: "cstr b p str \<Longrightarrow> strlen b p = Inr (length str)"
  unfolding cstr_def strlen_def by (auto simp: strlen_from_cstr)

text \<open>Overwriting a stretch of an object.\<close>

definition overwrite :: "u8 list \<Rightarrow> nat \<Rightarrow> u8 list \<Rightarrow> u8 list" where
  "overwrite b p xs = take p b @ xs @ drop (p + length xs) b"

lemma length_overwrite [simp]: "p + length xs \<le> length b \<Longrightarrow> length (overwrite b p xs) = length b"
  by (simp add: overwrite_def)

lemma overwrite_Cons:
  "p < length b \<Longrightarrow> overwrite (b[p := x]) (Suc p) xs = overwrite b p (x # xs)"
  by (simp add: overwrite_def take_Suc_conv_app_nth)

lemma overwrite_one: "p < length b \<Longrightarrow> overwrite b p [x] = b[p := x]"
  by (simp add: overwrite_def upd_conv_take_nth_drop)

lemma strlcpy_loop_spec:
  "cstr src s str \<Longrightarrow> 0 < siz \<Longrightarrow> d + siz \<le> length dst \<Longrightarrow>
     strlcpy_loop dst d src s siz = Inr (overwrite dst d (take (siz - 1) str @ [0]))"
proof (induction str arbitrary: dst d s siz)
  case Nil
  then show ?case by (subst strlcpy_loop.simps) (auto dest!: cstr_Nil simp: overwrite_one)
next
  case (Cons c cs)
  note c = cstr_Cons [OF Cons.prems(1)]
  show ?case
  proof (cases "siz > 1")
    case False
    then have "siz = 1" using Cons.prems by simp
    then show ?thesis using Cons.prems by (subst strlcpy_loop.simps) (simp add: overwrite_one)
  next
    case True
    then have "strlcpy_loop (dst[d := c]) (Suc d) src (Suc s) (siz - 1)
        = Inr (overwrite (dst[d := c]) (Suc d) (take (siz - 2) cs @ [0]))"
      using Cons.IH [of "Suc s" "siz - 1" "Suc d" "dst[d := c]"] c Cons.prems by (simp add: numeral_2_eq_2)
    moreover have "take (siz - 1) (c # cs) = c # take (siz - 2) cs"
      using True by (simp add: take_Cons' numeral_2_eq_2)
    ultimately show ?thesis
      using True c Cons.prems by (subst strlcpy_loop.simps) (simp add: overwrite_Cons)
  qed
qed

text \<open>
  C39: \<open>strlcpy\<close> never writes outside the \<open>siz\<close> bytes it is given and always terminates the copy:
  the destination holds the first \<open>siz - 1\<close> characters of the source followed by a zero, and the
  bytes behind them are unchanged.
\<close>

theorem strlcpy_bounded:
  assumes "cstr src s str" "0 < siz" "d + siz \<le> length dst"
  shows "strlcpy dst d src s siz = Inr (overwrite dst d (take (siz - 1) str @ [0]))"
  unfolding strlcpy_def using assms by (rule strlcpy_loop_spec)

theorem strlcpy_bounded_witness:
  "strlcpy [9, 9, 9, 9, 9] 1 [104, 101, 108, 108, 111, 0] 0 3 = Inr [9, 104, 101, 0, 9]"
  using strlcpy_bounded [of "[104, 101, 108, 108, 111, 0]" 0 "[104, 101, 108, 108, 111]" 3 1 "[9, 9, 9, 9, 9]"]
  by (simp add: cstr_def overwrite_def)

lemma sint_inj: "sint (a :: u8) = sint b \<longleftrightarrow> a = b" "sint (a :: u8) = 0 \<longleftrightarrow> a = 0"
  by (auto simp flip: sint_0 intro: signed_word_eqI)

lemma strcmp_cstr:
  "0 \<notin> set a \<Longrightarrow> 0 \<notin> set b \<Longrightarrow> \<exists>r. strcmp (a @ 0 # x) (b @ 0 # y) = Inr r \<and> (r = 0 \<longleftrightarrow> a = b)"
proof (induction a arbitrary: b)
  case Nil
  then show ?case by (cases b) (auto simp: sint_inj)
next
  case (Cons c cs)
  then show ?case by (cases b) (auto simp: sint_inj)
qed

section \<open>Numbers\<close>

lemma reverse_loop_spec:
  "length A = p + nat start \<Longrightarrow> 0 \<le> start \<Longrightarrow>
     reverse_loop (A @ xs @ C) p start (start + int (length xs) - 1) = Inr (A @ rev xs @ C)"
proof (induction "length xs" arbitrary: A xs C start rule: less_induct)
  case less
  consider "length xs \<le> 1" | x y ys where "xs = x # ys @ [y]"
    by (cases xs; cases "tl xs" rule: rev_cases) auto
  then show ?case
  proof cases
    case 1
    then show ?thesis by (cases xs) (auto simp: reverse_loop.simps)
  next
    case 2
    have "reverse_loop ((A @ [y]) @ ys @ (x # C)) p (start + 1) (start + 1 + int (length ys) - 1)
        = Inr ((A @ [y]) @ rev ys @ x # C)"
      using less.prems 2 by (intro less.hyps) auto
    moreover have "p + nat (start + int (length xs) - 1) = length A + Suc (length ys)"
      using less.prems 2 by simp
    ultimately show ?thesis
      using less.prems 2
      by (subst reverse_loop.simps) (simp add: nth_append list_update_append algebra_simps)
  qed
qed

lemma strreverse_cstr:
  assumes "cstr b p str"
  shows "strreverse b p (-1) = Inr (overwrite b p (rev str))"
proof -
  obtain rest where r: "drop p b = str @ 0 # rest" using assms by (auto simp: cstr_def)
  then have "p \<le> length b" by (metis drop_all linorder_le_cases append_is_Nil_conv list.distinct(1))
  then have "reverse_loop (take p b @ str @ (0 # rest)) p 0 (0 + int (length str) - 1) = Inr (take p b @ rev str @ (0 # rest))"
    by (intro reverse_loop_spec) auto
  moreover have "take p b @ str @ 0 # rest = b" by (metis r append_take_drop_id)
  moreover have "drop (p + length str) b = 0 # rest" by (metis r drop_drop add.commute append_eq_conv_conj)
  ultimately show ?thesis
    using assms by (simp add: strreverse_def strlen_cstr overwrite_def)
qed

text \<open>The digits of a number, the last one first.\<close>

function digs :: "u64 \<Rightarrow> u64 \<Rightarrow> u64 list" where
  "digs base n = (if base < 2 \<or> n = 0 then [] else (n mod base) # digs base (n div base))"
  by auto
termination
proof (relation "measure (\<lambda>(_, n). unat n)")
  fix base n :: u64 assume a: "\<not> (base < 2 \<or> n = 0)"
  then have "2 \<le> unat base" "0 < unat n" by (auto simp: word_less_nat_alt unat_gt_0)
  then show "((base, n div base), (base, n)) \<in> measure (\<lambda>(_, n). unat n)"
    by (simp add: unat_div_distrib)
qed simp

declare digs.simps [simp del]

lemma digs_0 [simp]: "digs base 0 = []"
  by (simp add: digs.simps)

lemma digits_loop_spec:
  "2 \<le> base \<Longrightarrow> 0 < ret \<Longrightarrow> length (digs base n) \<le> sz \<Longrightarrow> out + length (digs base n) \<le> length b \<Longrightarrow>
     digits_loop b out sz n base ret =
       Some (Inr (overwrite b out (map digit_char (digs base n)), out + length (digs base n),
                  sz - length (digs base n), ret + length (digs base n)))"
proof (induction base n arbitrary: b out sz ret rule: digs.induct)
  case (1 base n)
  show ?case
  proof (cases "n = 0")
    case True
    then show ?thesis using 1 by (subst digits_loop.simps) (simp add: overwrite_def)
  next
    case False
    have b: "\<not> base < 2" "base \<noteq> 0" using 1(2) by auto
    then have d: "digs base n = (n mod base) # digs base (n div base)" using False by (subst digs.simps) simp
    have "digits_loop (b[out := digit_char (n mod base)]) (out + 1) (sz - 1) (n div base) base (ret + 1) =
       Some (Inr (overwrite (b[out := digit_char (n mod base)]) (out + 1) (map digit_char (digs base (n div base))),
         out + 1 + length (digs base (n div base)), sz - 1 - length (digs base (n div base)),
         ret + 1 + length (digs base (n div base))))"
      using 1(2-5) b False d by (intro 1(1)) auto
    then show ?thesis
      using 1(2-5) b False d by (subst digits_loop.simps) (simp add: overwrite_Cons)
  qed
qed

text \<open>The digits \<open>format_int\<close> prints: at least one, also for 0.\<close>

definition digits_of :: "u64 \<Rightarrow> u64 \<Rightarrow> u64 list" where
  "digits_of base n = (n mod base) # digs base (n div base)"

lemma digits_loop_first:
  assumes "2 \<le> base" "length (digits_of base n) \<le> sz" "out + length (digits_of base n) \<le> length b"
  shows "digits_loop b out sz n base 0 =
     Some (Inr (overwrite b out (map digit_char (digits_of base n)), out + length (digits_of base n),
                sz - length (digits_of base n), length (digits_of base n)))"
proof -
  have "base \<noteq> 0" using assms(1) by auto
  then show ?thesis
    using assms digits_loop_spec [of base 1 "n div base" "sz - 1" "out + 1" "b[out := digit_char (n mod base)]"]
    by (subst digits_loop.simps) (auto simp: digits_of_def overwrite_Cons)
qed

lemma small_u64: "(d :: u64) < of_nat m \<Longrightarrow> m < 2 ^ 64 \<Longrightarrow> \<exists>k < m. d = of_nat k"
  by (intro exI [of _ "unat d"]) (auto simp: word_less_nat_alt unat_of_nat)

lemma digit_char_nonzero: "d < 36 \<Longrightarrow> digit_char d \<noteq> 0"
proof -
  assume "d < 36"
  then obtain k where k: "k < 36" "d = of_nat k" using small_u64 [of d 36] by auto
  have "\<forall>k < 36. digit_char (of_nat k) \<noteq> 0" by code_simp
  with k show ?thesis by simp
qed

lemma mod_less64: "2 \<le> base \<Longrightarrow> (x :: u64) mod base < base"
  by (simp add: word_less_nat_alt word_le_nat_alt unat_mod_distrib)

lemma digs_less: "d \<in> set (digs base n) \<Longrightarrow> d < base"
proof (induction base n rule: digs.induct)
  case (1 base n)
  have nz: "\<not> (base < 2 \<or> n = 0)" using 1(2) by (subst (asm) digs.simps) (simp split: if_splits)
  then have "digs base n = (n mod base) # digs base (n div base)" by (subst digs.simps) simp
  then show ?case using 1 nz by (auto simp: mod_less64)
qed

lemma digits_of_less: "d \<in> set (digits_of base n) \<Longrightarrow> 2 \<le> base \<Longrightarrow> d < base"
  by (auto simp: digits_of_def mod_less64 digs_less)

lemma overwrite_twice: "overwrite (overwrite b p xs) (p + length xs) ys = overwrite b p (xs @ ys)"
  if "p + length xs \<le> length b"
  using that by (simp add: overwrite_def ac_simps)

lemma overwrite_same: "length ys = length xs \<Longrightarrow> p + length xs \<le> length b \<Longrightarrow>
  overwrite (overwrite b p (xs @ zs)) p ys = overwrite b p (ys @ zs)"
  by (simp add: overwrite_def add.assoc)

lemma cstr_overwrite: "p + length str < length b \<Longrightarrow> 0 \<notin> set str \<Longrightarrow> cstr (overwrite b p (str @ [0])) p str"
  by (simp add: cstr_def overwrite_def)

lemma format_int_spec:
  assumes "2 \<le> base" "base \<le> 36" "length (digits_of base n) < sz" "p + sz \<le> length b"
  shows "format_int b p sz n base =
    Inr (length (digits_of base n) + 1, overwrite b p (rev (map digit_char (digits_of base n)) @ [0]))"
proof -
  let ?ds = "map digit_char (digits_of base n)"
  have nz: "0 \<notin> set ?ds"
    using digits_of_less [OF _ assms(1)] assms(2) digit_char_nonzero by force
  have "loop_result (digits_loop (b[p := 0]) p sz n base 0) =
      Inr (overwrite (b[p := 0]) p ?ds, p + length ?ds, sz - length ?ds, length ?ds)"
    using assms by (subst digits_loop_first) auto
  moreover have "(overwrite (b[p := 0]) p ?ds)[p + length ?ds := 0] = overwrite b p (?ds @ [0])"
    using assms overwrite_one [of "p + length ?ds" "overwrite b p ?ds" 0] overwrite_twice [of p ?ds b "[0]"]
    by (simp add: overwrite_def digits_of_def)
  moreover have "strreverse (overwrite b p (?ds @ [0])) p (-1) = Inr (overwrite b p (rev ?ds @ [0]))"
    using assms nz strreverse_cstr [OF cstr_overwrite [of p ?ds b]] overwrite_same [of "rev ?ds" ?ds p b "[0]"]
    by simp
  ultimately show ?thesis
    using assms by (simp add: format_int_def)
qed

section \<open>Hexadecimal round trip\<close>

lemma hex_digit: "d < 16 \<Longrightarrow> hex_value (digit_char d) = Some (ucast d)"
proof -
  assume "d < 16"
  then obtain k where k: "k < 16" "d = of_nat k" using small_u64 [of d 16] by auto
  have "\<forall>k < 16. hex_value (digit_char (of_nat k)) = Some (ucast (of_nat k :: u64))" by code_simp
  with k show ?thesis by simp
qed

definition hex_fold :: "u64 list \<Rightarrow> u32 \<Rightarrow> u32" where
  "hex_fold ds r = fold (\<lambda>d r. push_bit 4 r OR ucast d) ds r"

lemma hex_char_nonzero [simp]: "d < 16 \<Longrightarrow> digit_char d \<noteq> 0"
  by (rule digit_char_nonzero) (auto elim: less_trans)

lemma xtoa_loop_digits:
  "\<forall>d \<in> set ds. d < 16 \<Longrightarrow> length ds \<le> k \<Longrightarrow>
     xtoa_loop (map digit_char ds @ 0 # rest) k r = Inr (hex_fold ds r)"
  by (induction ds arbitrary: k r) (auto simp: hex_fold_def hex_digit)

lemma join_nibble: "push_bit 4 (ucast (n div 16) :: u32) OR ucast (n mod 16) = ucast (n :: u64)"
proof -
  have "n div 16 = drop_bit 4 n" "n mod 16 = take_bit 4 n"
    by (simp_all add: drop_bit_eq_div take_bit_eq_mod)
  then show ?thesis by (intro bit_word_eqI) (auto simp: bit_simps)
qed

lemma hex_fold_digs: "hex_fold (rev (digs 16 n)) 0 = ucast n"
proof (induction "16 :: u64" n rule: digs.induct)
  case (1 n)
  show ?case
  proof (cases "n = 0")
    case False
    then have "digs 16 n = (n mod 16) # digs 16 (n div 16)" by (subst digs.simps) simp
    then show ?thesis using 1 False by (simp add: hex_fold_def join_nibble)
  qed (simp add: hex_fold_def)
qed

lemma hex_fold_digits_of: "hex_fold (rev (digits_of 16 n)) 0 = ucast n"
  using hex_fold_digs [of "n div 16"] by (simp add: digits_of_def hex_fold_def join_nibble)

lemma length_digs16: "unat n < 16 ^ k \<Longrightarrow> length (digs 16 n) \<le> k"
proof (induction k arbitrary: n)
  case 0
  then have "n = 0" by (simp add: unat_eq_0)
  then show ?case by simp
next
  case (Suc k)
  have "unat (n div 16) < 16 ^ k" using Suc.prems by (simp add: unat_div_distrib less_mult_imp_div_less mult.commute)
  then show ?case using Suc.IH [of "n div 16"] by (subst digs.simps) simp
qed

lemma length_digits_of16: "unat (n :: u64) < 16 ^ 8 \<Longrightarrow> length (digits_of 16 n) \<le> 8"
  using length_digs16 [of "n div 16" 7]
  by (simp add: digits_of_def unat_div_distrib less_mult_imp_div_less)

text \<open>
  C40: hexadecimal conversion is a round trip: \<open>itox\<close> writes a string into nine bytes from which
  \<open>xtoa\<close> reads the same number, for every 32-bit number, and reports its length.
\<close>

theorem itox_xtoa_roundtrip:
  assumes "p + 9 \<le> length b"
  shows "\<exists>ret b'. itox b p n = Inr (ret, b') \<and> length b' = length b \<and> ret \<le> 9 \<and> xtoa b' p = Inr n"
proof -
  let ?ds = "digits_of 16 (ucast n)"
  have len: "length ?ds \<le> 8"
    using le_less_trans [OF take_bit_nat_less_eq_self unat_lt32, of 64 n]
    by (intro length_digits_of16) (simp add: unsigned_ucast_eq)
  have "itox b p n = Inr (length ?ds + 1, overwrite b p (rev (map digit_char ?ds) @ [0]))"
    unfolding itox_def using assms len by (intro format_int_spec) auto
  moreover have "xtoa (overwrite b p (map digit_char (rev ?ds) @ [0])) p = Inr (hex_fold (rev ?ds) 0)"
    using assms len digits_of_less [of _ 16] xtoa_loop_digits [of "rev ?ds" 8]
    by (simp add: xtoa_def overwrite_def)
  moreover have "ucast (ucast n :: u64) = n" by (rule bit_word_eqI) (auto simp: bit_simps)
  ultimately show ?thesis
    using assms len by (simp add: hex_fold_digits_of rev_map)
qed

theorem itox_xtoa_roundtrip_witness:
  "\<exists>ret b'. itox (replicate 12 0xCC) 2 0xC0400000 = Inr (ret, b') \<and> length b' = 12 \<and> ret \<le> 9 \<and> xtoa b' 2 = Inr 0xC0400000"
  using itox_xtoa_roundtrip [of 2 "replicate 12 0xCC" "0xC0400000"] by simp

section \<open>Formatted output\<close>

text \<open>The state \<open>snprintf_callback\<close> reaches after the characters \<open>str\<close>.\<close>

lemma snprintf_emit:
  assumes "0 \<notin> set str" "siz \<le> length m - p" "p \<le> length m"
  shows "emit_string snprintf_callback (str @ 0 # rest) \<lparr>sn_mem = m, sn_buf = p, sn_siz = int siz\<rparr> ret =
    Inr (\<lparr>sn_mem = overwrite m p (take siz str), sn_buf = p + min siz (length str),
          sn_siz = int (siz - length str)\<rparr>, ret + length str)"
  using assms
proof (induction str arbitrary: m p siz ret)
  case Nil
  then show ?case by (simp add: overwrite_def)
next
  case (Cons c cs)
  show ?case
  proof (cases siz)
    case 0
    then show ?thesis using Cons.IH [of 0 m p "ret + 1"] Cons.prems by (simp add: snprintf_callback_def)
  next
    case (Suc k)
    then have "p < length m" using Cons.prems by simp
    then show ?thesis
      using Cons.IH [of k "m[p := c]" "p + 1" "ret + 1"] Cons.prems Suc
      by (simp add: snprintf_callback_def overwrite_Cons)
  qed
qed

text \<open>
  Further: \<open>vsnprintf\<close> does not respect its size: it puts the terminating zero at the length of the
  whole text, so formatting a string that does not fit writes behind the buffer. Exactly the
  strings shorter than the buffer are safe, and those are copied and terminated.
\<close>

theorem vsnprintf_string:
  assumes "0 \<notin> set str" "0 < length m"
  shows "vsnprintf num_buffer m 0 (length m) [37, 115, 0] [Arg_String (str @ [0])] =
    (if length str < length m then Inr (length str + 1, overwrite m 0 (str @ [0])) else Inl Undefined)"
proof -
  have siz: "int (length m) - 1 = int (length m - 1)" using assms(2) by linarith
  have "emit_string snprintf_callback (str @ [0]) \<lparr>sn_mem = m, sn_buf = 0, sn_siz = int (length m) - 1\<rparr> 0 =
    Inr (\<lparr>sn_mem = overwrite m 0 (take (length m - 1) str), sn_buf = min (length m - 1) (length str),
          sn_siz = int (length m - 1 - length str)\<rparr>, length str)"
    unfolding siz using snprintf_emit [OF assms(1), of "length m - 1" m 0 "[]" 0] by simp
  then have r: "vsnprintf num_buffer m 0 (length m) [37, 115, 0] [Arg_String (str @ [0])] =
      res_bind (wr (overwrite m 0 (take (length m - 1) str)) (length str) 0) (\<lambda>m. Inr (length str + 1, m))"
    by (simp add: vsnprintf_def formatv_def emit_text_def)
  show ?thesis
  proof (cases "length str < length m")
    case True
    then have "take (length m - 1) str = str" by simp
    then show ?thesis
      using r True overwrite_one [of "length str" "overwrite m 0 str" 0] overwrite_twice [of 0 str m "[0]"] by simp
  next
    case False
    then show ?thesis using r by simp
  qed
qed

theorem vsnprintf_string_witness:
  "vsnprintf (replicate 64 0) [7, 7, 7] 0 3 [37, 115, 0] [Arg_String [104, 105, 33, 0]] = Inl Undefined \<and>
   vsnprintf (replicate 64 0) [7, 7, 7] 0 3 [37, 115, 0] [Arg_String [104, 105, 0]] = Inr (3, [104, 105, 0])"
  using vsnprintf_string [of "[104, 105, 33]" "[7, 7, 7]" "replicate 64 0"]
    vsnprintf_string [of "[104, 105]" "[7, 7, 7]" "replicate 64 0"]
  by (simp add: overwrite_def numeral_3_eq_3)

end
