(* ===== verification/Scheduler.thy ===== *)
theory Scheduler
  imports Machine Owned CString
begin

text \<open>
  Tasks and the scheduler (\<open>kernel/scheduler.c\<close>). Task structures live in the kernel heap; the
  store \<open>tasks\<close> gives the structure at an address and \<open>task_links\<close> its list node, which all
  three queues share. Switching to a task loads its saved context and does not return: the
  state after a switch is the one in which the task \<open>current_task\<close> goes on with the registers
  \<open>running\<close>. A system call that blocks resumes later in the kernel, on the kernel stack of its
  task; \<open>kstacks\<close> says where each task is suspended inside the kernel.
\<close>

section \<open>State\<close>

record task_context =
  c_cs :: u32
  c_ds :: u32
  c_ss :: u32
  c_cr3 :: u32
  c_esp :: u32
  c_eflags :: u32
  c_eip :: u32
  c_edi :: u32
  c_esi :: u32
  c_edx :: u32
  c_ecx :: u32
  c_ebx :: u32
  c_eax :: u32
  c_ebp :: u32

record task =
  pid :: int
  task_name :: "u8 list"
  pagedir :: ptr
  ctx :: task_context
  iomap :: "u8 list"
  wait_canrecv_port :: int
  wait_cansend_port :: int
  sleep_deadline :: u64

record message =
  checksum :: u32
  sender :: int
  reply_port :: int
  code :: u32
  len :: u32
  msg_data :: "u8 list"

text \<open>
  Where a task is inside the kernel: in none of the blocking calls, or waiting in \<open>sleep\<close>, in
  \<open>msgsend\<close> for the port to open or for the message to be received, in \<open>msgrecv\<close> or in \<open>msgwait\<close>.
\<close>

datatype kcont =
    K_None
  | K_Sleep
  | K_Send_Open int message
  | K_Send_Done
  | K_Recv int ptr ptr u32 ptr
  | K_Wait int ptr

text \<open>The functions \<open>syscall_register\<close> is called with.\<close>

datatype syscall_fn =
    Fn_Exit | Fn_Portopen | Fn_Msgsend | Fn_Msgrecv | Fn_Msgwait | Fn_Msgpeek | Fn_Yield | Fn_Fork
  | Fn_Sleep | Fn_Exec | Fn_Mmap | Fn_Hwportopen | Fn_Block

record sched_state = machine_state +
  tasks :: "ptr \<Rightarrow> task"
  task_links :: links
  ready_queue :: list_header
  sleeping_queue :: list_header
  exited_queue :: list_header
  next_pid_value :: int
  current_task :: ptr
  idle_task :: ptr
  running :: task_context
  kstacks :: "ptr \<Rightarrow> kcont"
  syscall_handlers :: "syscall_fn option list"

definition TASK_NAME_MAX :: nat where "TASK_NAME_MAX = 32"
definition INVALID_PID :: int where "INVALID_PID = -1"
definition INVALID_PORT :: int where "INVALID_PORT = -1"
definition SLEEP_INFINITE :: u32 where "SLEEP_INFINITE = 0xFFFFFFFF"
definition USER_STACK :: u32 where "USER_STACK = 0xBFFFC000"
definition KERNEL_STACK :: u32 where "KERNEL_STACK = 0xBFFFE000"
definition USER_START :: u32 where "USER_START = 0x1000"
definition USER_END :: u32 where "USER_END = 0xBFFFFFFF"
definition DEBUG_PORT :: int where "DEBUG_PORT = 0xE9"
definition SIZEOF_TASK :: u32 where "SIZEOF_TASK = 8312"

definition upd_task :: "ptr \<Rightarrow> (task \<Rightarrow> task) \<Rightarrow> 'a sched_state_scheme \<Rightarrow> 'a sched_state_scheme" where
  "upd_task t f s = s\<lparr>tasks := (tasks s)(t := f (tasks s t))\<rparr>"

section \<open>Queues\<close>

definition append_ready :: "ptr \<Rightarrow> 'a sched_state_scheme \<Rightarrow> 'a sched_state_scheme" where
  "append_ready t s = (case list_append (task_links s) (ready_queue s) t of
     (lk, q) \<Rightarrow> s\<lparr>task_links := lk, ready_queue := q\<rparr>)"

definition append_sleeping :: "ptr \<Rightarrow> 'a sched_state_scheme \<Rightarrow> 'a sched_state_scheme" where
  "append_sleeping t s = (case list_append (task_links s) (sleeping_queue s) t of
     (lk, q) \<Rightarrow> s\<lparr>task_links := lk, sleeping_queue := q\<rparr>)"

definition append_exited :: "ptr \<Rightarrow> 'a sched_state_scheme \<Rightarrow> 'a sched_state_scheme" where
  "append_exited t s = (case list_append (task_links s) (exited_queue s) t of
     (lk, q) \<Rightarrow> s\<lparr>task_links := lk, exited_queue := q\<rparr>)"

definition remove_ready :: "ptr \<Rightarrow> 'a sched_state_scheme \<Rightarrow> 'a sched_state_scheme" where
  "remove_ready t s = (case list_remove (task_links s) (ready_queue s) t of
     (lk, q) \<Rightarrow> s\<lparr>task_links := lk, ready_queue := q\<rparr>)"

definition remove_sleeping :: "ptr \<Rightarrow> 'a sched_state_scheme \<Rightarrow> 'a sched_state_scheme" where
  "remove_sleeping t s = (case list_remove (task_links s) (sleeping_queue s) t of
     (lk, q) \<Rightarrow> s\<lparr>task_links := lk, sleeping_queue := q\<rparr>)"

definition remove_exited :: "ptr \<Rightarrow> 'a sched_state_scheme \<Rightarrow> 'a sched_state_scheme" where
  "remove_exited t s = (case list_remove (task_links s) (exited_queue s) t of
     (lk, q) \<Rightarrow> s\<lparr>task_links := lk, exited_queue := q\<rparr>)"

section \<open>Saving and switching\<close>

definition save_task_state :: "ptr \<Rightarrow> isr_regs \<Rightarrow> 'a sched_state_scheme \<Rightarrow> 'a sched_state_scheme res" where
  "save_task_state t regs s =
     (let sel = r_cs regs AND NOT 3 in
      res_bind
        (if sel = KERNEL_CODE_SEG then Inr (r_esp regs + 20)
         else if sel = USER_CODE_SEG then Inr (useresp regs)
         else Inl Panic)
        (\<lambda>esp. Inr (upd_task t (\<lambda>k. k\<lparr>ctx := (ctx k)\<lparr>c_esp := esp, c_cs := r_cs regs,
            c_ds := r_ds regs, c_ss := r_ds regs, c_eflags := r_eflags regs, c_eip := r_eip regs,
            c_edi := r_edi regs, c_esi := r_esi regs, c_edx := r_edx regs, c_ecx := r_ecx regs,
            c_ebx := r_ebx regs, c_eax := r_eax regs, c_ebp := r_ebp regs\<rparr>\<rparr>) s)))"

definition save_current_task_state :: "isr_regs \<Rightarrow> 'a sched_state_scheme \<Rightarrow> 'a sched_state_scheme res" where
  "save_current_task_state regs s =
     assert_then (current_task s \<noteq> NULL) (
     assert_then (\<not> interrupts_enabled s) (
       save_task_state (current_task s) regs s))"

text \<open>\<open>1 << pid\<close> is an \<open>int\<close> and is widened to 64 bits only afterwards.\<close>

definition pid_mask :: "int \<Rightarrow> u64 res" where
  "pid_mask p = (if 0 \<le> p \<and> p < 32 then Inr (scast (push_bit (nat p) 1 :: u32)) else Inl Undefined)"

definition check_task :: "'a sched_state_scheme \<Rightarrow> ptr \<Rightarrow> u64 \<Rightarrow> (bool \<times> u64) res" where
  "check_task s t encountered =
     assert_then (t \<noteq> current_task s \<and> t \<noteq> idle_task s) (
     res_bind (pid_mask (pid (tasks s t))) (\<lambda>m.
     assert_then (encountered AND m = 0) (Inr (False, encountered OR m))))"

definition scheduler_perform_checks :: "'a sched_state_scheme \<Rightarrow> unit res" where
  "scheduler_perform_checks s =
     res_bind (list_foreach (\<lambda>_. task_links s) (ready_queue s) (check_task s) 0) (\<lambda>e.
     res_bind (list_foreach (\<lambda>_. task_links s) (sleeping_queue s) (check_task s) e) (\<lambda>e.
     res_bind (list_foreach (\<lambda>_. task_links s) (exited_queue s) (check_task s) e) (\<lambda>e.
       Inr ())))"

text \<open>\<open>kernel/context.asm\<close>: the page directory and every register come from the context.\<close>

definition switch_context :: "task_context \<Rightarrow> 'a sched_state_scheme \<Rightarrow> 'a sched_state_scheme" where
  "switch_context c s = s\<lparr>cr3 := c_cr3 c, eflags := c_eflags c, running := c\<rparr>"

definition task_switch :: "ptr \<Rightarrow> 'a sched_state_scheme \<Rightarrow> 'a sched_state_scheme res" where
  "task_switch t s =
     assert_then (t \<noteq> NULL) (
     assert_then (\<not> interrupts_enabled s) (
     let s = s\<lparr>current_task := t\<rparr> in
     res_bind (scheduler_perform_checks s) (\<lambda>_.
     res_bind (vmm_copy_kernel_mappings (pagedir (tasks s t)) s) (\<lambda>(_, s).
     res_bind (tss_set_kernel_stack (KERNEL_STACK + PAGE_SIZE) s) (\<lambda>(_, s).
     res_bind (gdt_iomap_set (iomap (tasks s t)) s) (\<lambda>s.
       Inr (switch_context (ctx (tasks s t)) s)))))))"

definition deadline_passed :: "u64 \<Rightarrow> task \<Rightarrow> bool" where
  "deadline_passed now t \<longleftrightarrow> sleep_deadline t \<noteq> 0 \<and> now \<ge> sleep_deadline t"

definition task_switch_next :: "'a sched_state_scheme \<Rightarrow> 'a sched_state_scheme res" where
  "task_switch_next s =
     (let now = timer_timestamp s in
      res_bind (list_find (task_links s) (sleeping_queue s) (\<lambda>t. deadline_passed now (tasks s t))) (\<lambda>next.
        if next \<noteq> NULL then task_switch next (remove_sleeping next s)
        else if head (ready_queue s) \<noteq> NULL
        then task_switch (head (ready_queue s)) (remove_ready (head (ready_queue s)) s)
        else task_switch (idle_task s) s))"

section \<open>The scheduler tick\<close>

definition collect_task :: "ptr \<Rightarrow> 'a sched_state_scheme \<Rightarrow> (bool \<times> 'a sched_state_scheme) res" where
  "collect_task t s =
     (let dir = pagedir (tasks s t); s = remove_exited t s in
      res_bind (vmm_destroy_pagedir dir s) (\<lambda>(_, s).
      res_bind (kfree t s) (\<lambda>(_, s). Inr (False, s))))"

text \<open>
  \<open>may_wakeup\<close> starts as \<open>false\<close> and the loop assigns \<open>false\<close> to it, so it is what it starts as.
\<close>

definition scheduler_timer :: "isr_regs \<Rightarrow> 'a sched_state_scheme \<Rightarrow> 'a sched_state_scheme res" where
  "scheduler_timer regs s =
     assert_then (current_task s \<noteq> NULL) (
     res_bind (save_task_state (current_task s) regs s) (\<lambda>s.
     res_bind (scheduler_perform_checks s) (\<lambda>_.
     let s = (if current_task s \<noteq> idle_task s then append_ready (current_task s) s else s) in
     res_bind (list_foreach task_links (exited_queue s) collect_task s) (\<lambda>s.
     res_bind
       (if list_empty (ready_queue s) \<and> list_empty (sleeping_queue s) then Inr False
        else if list_empty (ready_queue s) then
          list_foreach (\<lambda>_. task_links s) (sleeping_queue s)
            (\<lambda>t may_wakeup. Inr (if sleep_deadline (tasks s t) \<noteq> 0 then (True, False) else (False, may_wakeup))) False
        else Inr True)
       (\<lambda>moretasks. if \<not> moretasks then Inl Reboot else task_switch_next s)))))"

section \<open>Task structures\<close>

definition set_iomap_bit :: "int \<Rightarrow> bool \<Rightarrow> u8 list \<Rightarrow> u8 list res" where
  "set_iomap_bit port allow m =
     (let idx = nat (port div 8); mask = push_bit (nat (port mod 8)) 1 in
      if idx < length m then Inr (m[idx := (if allow then m ! idx AND NOT mask else m ! idx OR mask)]) else Inl Undefined)"

definition task_iomap_set :: "ptr \<Rightarrow> int \<Rightarrow> bool \<Rightarrow> 'a sched_state_scheme \<Rightarrow> 'a sched_state_scheme res" where
  "task_iomap_set t port allow s =
     assert_then (0 \<le> port \<and> port < 65536) (
     res_bind (set_iomap_bit port allow (iomap (tasks s t))) (\<lambda>m. Inr (upd_task t (\<lambda>k. k\<lparr>iomap := m\<rparr>) s)))"

definition task_iomap_test :: "ptr \<Rightarrow> int \<Rightarrow> 'a sched_state_scheme \<Rightarrow> bool res" where
  "task_iomap_test t port s =
     assert_then (0 \<le> port \<and> port < 65536) (
     let idx = nat (port div 8); m = iomap (tasks s t) in
     if idx < length m then Inr (m ! idx AND push_bit (nat (port mod 8)) 1 \<noteq> 0) else Inl Undefined)"

definition zero_context :: task_context where
  "zero_context = \<lparr>c_cs = 0, c_ds = 0, c_ss = 0, c_cr3 = 0, c_esp = 0, c_eflags = 0, c_eip = 0, c_edi = 0,
     c_esi = 0, c_edx = 0, c_ecx = 0, c_ebx = 0, c_eax = 0, c_ebp = 0\<rparr>"

definition task_create :: "u8 list \<Rightarrow> 'a sched_state_scheme \<Rightarrow> (ptr \<times> 'a sched_state_scheme) res" where
  "task_create name s =
     res_bind (kmalloc SIZEOF_TASK s) (\<lambda>(result, s).
     let s = s\<lparr>tasks := (tasks s)(result := \<lparr>pid = 0, task_name = replicate TASK_NAME_MAX 0, pagedir = NULL,
                 ctx = zero_context, iomap = replicate 8192 0xFF, wait_canrecv_port = 0, wait_cansend_port = 0,
                 sleep_deadline = 0\<rparr>),
               task_links := (task_links s)(result := detached),
               kstacks := (kstacks s)(result := K_None)\<rparr>
     in
     res_bind (task_iomap_set result DEBUG_PORT True s) (\<lambda>s.
     let p = next_pid_value s;
         s = upd_task result (\<lambda>k. k\<lparr>pid := p\<rparr>) (s\<lparr>next_pid_value := p + 1\<rparr>)
     in
     assert_then (p < 64) (
     res_bind (strlcpy (task_name (tasks s result)) 0 name 0 TASK_NAME_MAX) (\<lambda>n.
     let s = upd_task result (\<lambda>k. k\<lparr>task_name := n\<rparr>) s in
     res_bind (vmm_clone_pagedir s) (\<lambda>(dir, s).
       Inr (result, upd_task result (\<lambda>k. k\<lparr>pagedir := dir\<rparr>) s))))))"

definition task_get :: "int \<Rightarrow> 'a sched_state_scheme \<Rightarrow> ptr res" where
  "task_get p s =
     (if idle_task s = NULL then Inl Undefined
      else if p = pid (tasks s (idle_task s)) then Inr (idle_task s)
      else if current_task s = NULL then Inl Undefined
      else if p = pid (tasks s (current_task s)) then Inr (current_task s)
      else
        res_bind (list_find (task_links s) (ready_queue s) (\<lambda>t. pid (tasks s t) = p)) (\<lambda>r.
          if r \<noteq> NULL then Inr r
          else list_find (task_links s) (sleeping_queue s) (\<lambda>t. pid (tasks s t) = p)))"

section \<open>Blocking and waking\<close>

definition syscall_yield_handler :: "'a sched_state_scheme \<Rightarrow> 'a sched_state_scheme res" where
  "syscall_yield_handler s = task_switch_next (append_ready (current_task s) s)"

definition syscall_exit_handler :: "'a sched_state_scheme \<Rightarrow> 'a sched_state_scheme res" where
  "syscall_exit_handler s = task_switch_next (append_exited (current_task s) s)"

definition syscall_block_handler :: "'a sched_state_scheme \<Rightarrow> 'a sched_state_scheme res" where
  "syscall_block_handler s = task_switch_next (append_sleeping (current_task s) s)"

text \<open>
  What \<open>syscall_handler\<close> does before every handler; \<open>task_block\<close> enters the kernel once more,
  with the registers \<open>kregs\<close> of the kernel code it is called from.
\<close>

definition enter_syscall :: "isr_regs \<Rightarrow> 'a sched_state_scheme \<Rightarrow> 'a sched_state_scheme res" where
  "enter_syscall regs s =
     assert_then (\<not> interrupts_enabled s) (
     res_bind (save_current_task_state regs s) (\<lambda>s.
     res_bind (kernel_heap_check s) (\<lambda>_. Inr s)))"

definition task_block ::
    "isr_regs \<Rightarrow> kcont \<Rightarrow> int \<Rightarrow> int \<Rightarrow> u32 \<Rightarrow> 'a sched_state_scheme \<Rightarrow> 'a sched_state_scheme res" where
  "task_block kregs k canrecv_port cansend_port timeout s =
     assert_then (\<not> interrupts_enabled s) (
     let deadline = (if timeout \<noteq> SLEEP_INFINITE then 0 else timer_timestamp s + ucast timeout);
         s = upd_task (current_task s) (\<lambda>t. t\<lparr>wait_canrecv_port := canrecv_port,
               wait_cansend_port := cansend_port, sleep_deadline := deadline\<rparr>) s;
         s = s\<lparr>kstacks := (kstacks s)(current_task s := k)\<rparr>
     in res_bind (enter_syscall kregs s) syscall_block_handler)"

definition syscall_sleep_handler :: "isr_regs \<Rightarrow> isr_regs \<Rightarrow> 'a sched_state_scheme \<Rightarrow> 'a sched_state_scheme res" where
  "syscall_sleep_handler kregs regs s = task_block kregs K_Sleep INVALID_PORT INVALID_PORT (r_ebx regs) s"

definition task_wake :: "int \<Rightarrow> 'a sched_state_scheme \<Rightarrow> 'a sched_state_scheme res" where
  "task_wake p s =
     assert_then (\<not> interrupts_enabled s) (
     res_bind (task_get p s) (\<lambda>t.
     assert_then (t \<noteq> NULL) (
     res_bind (list_find (task_links s) (sleeping_queue s) (\<lambda>x. x = t)) (\<lambda>r.
       if r \<noteq> NULL then Inr (append_ready t (remove_sleeping r s))
       else
         res_bind (list_find (task_links s) (ready_queue s) (\<lambda>x. x = t)) (\<lambda>r.
           if r \<noteq> NULL then Inr s
           else if p = pid (tasks s (current_task s)) then Inr s
           else if p = pid (tasks s (idle_task s)) then Inr s
           else Inl Panic)))))"

definition wake_waiting :: "int \<Rightarrow> ptr \<Rightarrow> 'a sched_state_scheme \<Rightarrow> (bool \<times> 'a sched_state_scheme) res" where
  "wake_waiting port_number t s =
     (if wait_cansend_port (tasks s t) = port_number
      then res_bind (task_wake (pid (tasks s t)) s) (\<lambda>s. Inr (False, s)) else Inr (False, s))"

definition wake_tasks_waiting_for_port :: "int \<Rightarrow> 'a sched_state_scheme \<Rightarrow> 'a sched_state_scheme res" where
  "wake_tasks_waiting_for_port port_number s =
     assert_then (\<not> interrupts_enabled s) (
       list_foreach task_links (sleeping_queue s) (wake_waiting port_number) s)"

definition current_task_name :: "'a sched_state_scheme \<Rightarrow> u8 list option res" where
  "current_task_name s = assert_then (\<not> interrupts_enabled s)
     (Inr (if current_task s \<noteq> NULL then Some (task_name (tasks s (current_task s))) else None))"

definition current_task_set_name :: "u8 list \<Rightarrow> 'a sched_state_scheme \<Rightarrow> 'a sched_state_scheme res" where
  "current_task_set_name name s =
     assert_then (\<not> interrupts_enabled s) (
     res_bind (strlcpy (task_name (tasks s (current_task s))) 0 name 0 TASK_NAME_MAX) (\<lambda>n.
       Inr (upd_task (current_task s) (\<lambda>k. k\<lparr>task_name := n\<rparr>) s)))"

definition current_task_pid :: "'a sched_state_scheme \<Rightarrow> int res" where
  "current_task_pid s = assert_then (\<not> interrupts_enabled s)
     (Inr (if current_task s \<noteq> NULL then pid (tasks s (current_task s)) else INVALID_PID))"

record task_info =
  ti_pid :: int
  ti_name :: "u8 list"

definition get_task_info :: "task_info \<Rightarrow> int \<Rightarrow> 'a sched_state_scheme \<Rightarrow> (bool \<times> task_info) res" where
  "get_task_info buffer p s =
     assert_then (\<not> interrupts_enabled s) (
     res_bind (task_get p s) (\<lambda>t.
       if t = NULL then Inr (False, buffer)
       else res_bind (strlcpy (ti_name buffer) 0 (task_name (tasks s t)) 0 64) (\<lambda>n.
         Inr (True, buffer\<lparr>ti_pid := p, ti_name := n\<rparr>))))"

section \<open>Fork, memory and hardware ports\<close>

definition syscall_fork_handler :: "isr_regs \<Rightarrow> 'a sched_state_scheme \<Rightarrow> (u32 \<times> 'a sched_state_scheme) res" where
  "syscall_fork_handler regs s =
     res_bind (task_create (task_name (tasks s (current_task s))) s) (\<lambda>(t, s).
     res_bind (save_task_state t regs s) (\<lambda>s.
     res_bind (vmm_get_physical (pagedir (tasks s t)) s) (\<lambda>(pa, s).
     let s = upd_task t (\<lambda>k. k\<lparr>ctx := (ctx k)\<lparr>c_cr3 := pa, c_eax := 0\<rparr>\<rparr>) s;
         s = append_ready t s
     in Inr (of_int (pid (tasks s t)), s))))"

partial_function (option) pages_free :: "u32 \<Rightarrow> u32 \<Rightarrow> 'a sched_state_scheme \<Rightarrow> (bool \<times> 'a sched_state_scheme) res option" where
  "pages_free page limit s =
     (if page < limit then
        (case vmm_get_flags page s of
           Inl e \<Rightarrow> Some (Inl e)
         | Inr (fl, s) \<Rightarrow>
             if fl AND VMM_PAGE_PRESENT \<noteq> 0 then Some (Inr (False, s))
             else if page < USER_START \<or> page > USER_END then Some (Inr (False, s))
             else pages_free (page + PAGE_SIZE) limit s)
      else Some (Inr (True, s)))"

partial_function (option) unmap_pages :: "u32 \<Rightarrow> u32 \<Rightarrow> 'a sched_state_scheme \<Rightarrow> 'a sched_state_scheme res option" where
  "unmap_pages page limit s =
     (if page < limit then
        (case vmm_unmap page s of
           Inl e \<Rightarrow> Some (Inl e)
         | Inr (_, s) \<Rightarrow> unmap_pages (page + PAGE_SIZE) limit s)
      else Some (Inr s))"

partial_function (option) map_pages ::
    "u32 \<Rightarrow> u32 \<Rightarrow> u32 \<Rightarrow> u32 \<Rightarrow> 'a sched_state_scheme \<Rightarrow> (bool \<times> 'a sched_state_scheme) res option" where
  "map_pages addr page limit flags s =
     (if page < limit then
        (case pmm_alloc s of
           Inl e \<Rightarrow> Some (Inl e)
         | Inr (frame, s) \<Rightarrow>
             if frame = INVALID_FRAME
             then Some (res_bind (loop_result (unmap_pages addr page s)) (\<lambda>s. Inr (False, s)))
             else (case vmm_map page frame flags s of
                     Inl e \<Rightarrow> Some (Inl e)
                   | Inr (_, s) \<Rightarrow> map_pages addr (page + PAGE_SIZE) limit flags s))
      else Some (Inr (True, s)))"

declare pages_free.simps [code] unmap_pages.simps [code] map_pages.simps [code]

definition syscall_mmap_handler :: "isr_regs \<Rightarrow> 'a sched_state_scheme \<Rightarrow> (u32 \<times> 'a sched_state_scheme) res" where
  "syscall_mmap_handler regs s =
     (let addr = r_ebx regs; sz = r_ecx regs; flags = r_edx regs in
      if \<not> IS_ALIGNED addr PAGE_SIZE \<or> \<not> IS_ALIGNED sz PAGE_SIZE then Inr (0, s)
      else if flags = 0 then Inr (0, s)
      else
        let vmm_flags = VMM_PAGE_PRESENT OR VMM_PAGE_USER;
            vmm_flags = (if flags AND 2 \<noteq> 0 then vmm_flags OR VMM_PAGE_WRITABLE else vmm_flags)
        in
        res_bind (loop_result (pages_free addr (addr + sz) s)) (\<lambda>(ok, s).
          if \<not> ok then Inr (0, s)
          else res_bind (loop_result (map_pages addr addr (addr + sz) vmm_flags s)) (\<lambda>(ok, s).
            Inr (if ok then addr else 0, s))))"

definition syscall_hwportopen_handler :: "isr_regs \<Rightarrow> 'a sched_state_scheme \<Rightarrow> (u32 \<times> 'a sched_state_scheme) res" where
  "syscall_hwportopen_handler regs s =
     res_bind (task_iomap_set (current_task s) (sint (r_ebx regs)) True s) (\<lambda>s.
     res_bind (gdt_iomap_set (iomap (tasks s (current_task s))) s) (\<lambda>s. Inr (0, s)))"

section \<open>Starting up\<close>

definition fill_page :: "u32 \<Rightarrow> u32 \<Rightarrow> 'a vmm_state_scheme \<Rightarrow> 'a vmm_state_scheme res" where
  "fill_page va w s = for_each (\<lambda>i s. store32 s (va + 4 * i) w) (entry_range 0 1023) s"

definition jump_to_usermode :: "u32 \<Rightarrow> 'a sched_state_scheme \<Rightarrow> 'a sched_state_scheme res" where
  "jump_to_usermode user_entry s =
     (let t = current_task s;
          s = upd_task t (\<lambda>k. k\<lparr>ctx := (ctx k)\<lparr>c_cs := USER_CODE_SEG OR RPL3, c_ds := USER_DATA_SEG OR RPL3,
                c_ss := USER_DATA_SEG OR RPL3\<rparr>\<rparr>) s
      in
      res_bind (pmm_alloc s) (\<lambda>(frame, s).
      assert_then (frame \<noteq> INVALID_FRAME) (
      res_bind (vmm_map USER_STACK frame (VMM_PAGE_PRESENT OR VMM_PAGE_WRITABLE OR VMM_PAGE_USER) s) (\<lambda>(_, s).
      res_bind (fill_page USER_STACK 0xCCCCCCCC s) (\<lambda>s.
      let s = upd_task t (\<lambda>k. k\<lparr>ctx := (ctx k)\<lparr>c_esp := USER_STACK + PAGE_SIZE,
                c_eflags := c_eflags (ctx k) OR EFLAGS_IF, c_eip := user_entry\<rparr>\<rparr>) s
      in Inr (switch_context (ctx (tasks s t)) s))))))"

definition syscall_register :: "nat \<Rightarrow> syscall_fn \<Rightarrow> 'a sched_state_scheme \<Rightarrow> 'a sched_state_scheme res" where
  "syscall_register num handler s =
     (if num < length (syscall_handlers s)
      then Inr (s\<lparr>syscall_handlers := (syscall_handlers s)[num := Some handler]\<rparr>) else Inl Panic)"

definition kernel_context :: "u32 \<Rightarrow> u32 \<Rightarrow> u32 \<Rightarrow> task_context \<Rightarrow> task_context" where
  "kernel_context pa flags entry c = c\<lparr>c_cs := KERNEL_CODE_SEG, c_ds := KERNEL_DATA_SEG, c_ss := KERNEL_DATA_SEG,
     c_cr3 := pa, c_esp := KERNEL_STACK + PAGE_SIZE, c_eflags := flags OR EFLAGS_IF, c_eip := entry\<rparr>"

text \<open>
  The addresses of \<open>scheduler_timer\<close>, \<open>kernel_task_entry\<close> and \<open>idle_task_entry\<close> are arguments, and so are
  the two task names as byte strings.
\<close>

definition scheduler_start ::
    "ptr \<Rightarrow> u32 \<Rightarrow> u32 \<Rightarrow> u8 list \<Rightarrow> u8 list \<Rightarrow> 'a sched_state_scheme \<Rightarrow> 'a sched_state_scheme res" where
  "scheduler_start timer_addr kernel_task_entry idle_task_entry kernel_name idle_name s =
     (let s = s\<lparr>ready_queue := list_init, sleeping_queue := list_init, exited_queue := list_init\<rparr> in
      res_bind (timer_schedule timer_addr NULL 50 True s) (\<lambda>(_, s).
      res_bind (for_each (\<lambda>(n, f) s. syscall_register n f s)
        [(6, Fn_Yield), (7, Fn_Fork), (0, Fn_Exit), (9, Fn_Sleep), (11, Fn_Exec), (13, Fn_Mmap), (17, Fn_Block),
         (15, Fn_Hwportopen)] s) (\<lambda>s.
      res_bind (pmm_alloc s) (\<lambda>(stack_frame, s).
      assert_then (stack_frame \<noteq> INVALID_FRAME) (
      res_bind (vmm_map KERNEL_STACK stack_frame (VMM_PAGE_PRESENT OR VMM_PAGE_WRITABLE) s) (\<lambda>(_, s).
      res_bind (fill_page KERNEL_STACK 0xCCCCCCCC s) (\<lambda>s.
      res_bind (tss_set_kernel_stack (KERNEL_STACK + PAGE_SIZE) s) (\<lambda>(_, s).
      res_bind (task_create kernel_name s) (\<lambda>(t, s).
      res_bind (vmm_get_physical (pagedir (tasks s t)) s) (\<lambda>(pa, s).
      let s = upd_task t (\<lambda>k. k\<lparr>ctx := kernel_context pa (eflags s) kernel_task_entry (ctx k)\<rparr>) s in
      res_bind (task_create idle_name s) (\<lambda>(t1, s).
      res_bind (vmm_get_physical (pagedir (tasks s t1)) s) (\<lambda>(pa1, s).
      let s = upd_task t1 (\<lambda>k. k\<lparr>ctx := kernel_context pa1 (eflags s) idle_task_entry (ctx k)\<rparr>) s;
          s = s\<lparr>idle_task := t1\<rparr>
      in task_switch t s))))))))))))"

end
