(* ===== verification/Ipc.thy ===== *)
theory Ipc
  imports Scheduler
begin

text \<open>
  Ports and messages (\<open>kernel/ipc.c\<close>) and the wrappers around the system calls (\<open>common/port.c\<close>). Ports and
  queued messages are blocks of the kernel heap, each with its own store and list nodes. A
  call that blocks leaves a continuation on the kernel stack of its task and goes on from
  there, in \<open>resume\<close>, when the task is switched to again. The message a task sends is an
  argument: its memory does not change while the task is in the kernel. What a handler
  writes to user memory is part of its result.
\<close>

section \<open>State\<close>

record port =
  number :: int
  receiver :: int
  queue :: list_header
  lock :: u32

record ipc_state = sched_state +
  ports :: "ptr \<Rightarrow> port"
  port_links :: links
  messages :: "ptr \<Rightarrow> message"
  msg_links :: links
  port_list :: list_header
  port_list_lock :: u32
  reserved_ports :: u32
  next_port_value :: int

definition SIZEOF_PORT :: u32 where "SIZEOF_PORT = 28"
definition SIZEOF_MESSAGE :: u32 where "SIZEOF_MESSAGE = 28"

datatype user_write =
    Write_Word ptr u32
  | Write_Message ptr message

text \<open>A handler returns a value, having written to user memory, or another task runs.\<close>

datatype outcome =
    Return u32 "user_write list"
  | Away

section \<open>Checksums\<close>

definition le_bytes :: "u32 \<Rightarrow> u8 list" where
  "le_bytes w = [ucast w, ucast (drop_bit 8 w), ucast (drop_bit 16 w), ucast (drop_bit 24 w)]"

definition message_checksum :: "message \<Rightarrow> u32" where
  "message_checksum msg =
     (let checksum = hash2 (le_bytes (of_int (sender msg))) 0;
          checksum = hash2 (le_bytes (of_int (reply_port msg))) checksum;
          checksum = hash2 (le_bytes (code msg)) checksum;
          checksum = hash2 (le_bytes (len msg)) checksum
      in hash2 (msg_data msg) checksum)"

section \<open>Locks and ports\<close>

definition lock_ports :: "'a ipc_state_scheme \<Rightarrow> 'a ipc_state_scheme res" where
  "lock_ports s = res_bind (checked_lock (port_list_lock s)) (\<lambda>l. Inr (s\<lparr>port_list_lock := l\<rparr>))"

definition unlock_ports :: "'a ipc_state_scheme \<Rightarrow> 'a ipc_state_scheme res" where
  "unlock_ports s = res_bind (checked_unlock (port_list_lock s)) (\<lambda>l. Inr (s\<lparr>port_list_lock := l\<rparr>))"

definition upd_port :: "ptr \<Rightarrow> (port \<Rightarrow> port) \<Rightarrow> 'a ipc_state_scheme \<Rightarrow> 'a ipc_state_scheme" where
  "upd_port p f s = s\<lparr>ports := (ports s)(p := f (ports s p))\<rparr>"

definition lock_port :: "ptr \<Rightarrow> 'a ipc_state_scheme \<Rightarrow> 'a ipc_state_scheme res" where
  "lock_port p s = res_bind (checked_lock (lock (ports s p))) (\<lambda>l. Inr (upd_port p (\<lambda>q. q\<lparr>lock := l\<rparr>) s))"

definition unlock_port :: "ptr \<Rightarrow> 'a ipc_state_scheme \<Rightarrow> 'a ipc_state_scheme res" where
  "unlock_port p s = res_bind (checked_unlock (lock (ports s p))) (\<lambda>l. Inr (upd_port p (\<lambda>q. q\<lparr>lock := l\<rparr>) s))"

definition port_get :: "int \<Rightarrow> 'a ipc_state_scheme \<Rightarrow> (ptr \<times> 'a ipc_state_scheme) res" where
  "port_get n s =
     (if n \<ge> 0 then
        critical (\<lambda>s.
          res_bind (lock_ports s) (\<lambda>s.
          res_bind (list_find (port_links s) (port_list s) (\<lambda>p. number (ports s p) = n)) (\<lambda>p.
          res_bind (unlock_ports s) (\<lambda>s. Inr (p, s))))) s
      else Inr (NULL, s))"

text \<open>\<open>BITTEST\<close> and \<open>BITSET\<close> shift by the port number, whatever it is.\<close>

definition port_bit :: "int \<Rightarrow> u32 res" where
  "port_bit n = (if 0 \<le> n \<and> n < 32 then Inr (push_bit (nat n) 1) else Inl Undefined)"

definition choose_port :: "int \<Rightarrow> 'a ipc_state_scheme \<Rightarrow> (int \<times> 'a ipc_state_scheme) res" where
  "choose_port port_number s =
     (if port_number = INVALID_PORT then
        res_bind (lock_ports s) (\<lambda>s.
        let n = next_port_value s; s = s\<lparr>next_port_value := n + 1\<rparr> in
        res_bind (unlock_ports s) (\<lambda>s. Inr (n, s)))
      else
        res_bind (lock_ports s) (\<lambda>s.
        res_bind (port_bit port_number) (\<lambda>b.
        let taken = reserved_ports s AND b \<noteq> 0;
            s = (if taken then s else s\<lparr>reserved_ports := reserved_ports s OR b\<rparr>)
        in res_bind (unlock_ports s) (\<lambda>s. Inr (if taken then INVALID_PORT else port_number, s)))))"

definition add_port :: "ptr \<Rightarrow> int \<Rightarrow> 'a ipc_state_scheme \<Rightarrow> (unit \<times> 'a ipc_state_scheme) res" where
  "add_port p n s =
     critical (\<lambda>s.
       res_bind (current_task_pid s) (\<lambda>me.
       let s = upd_port p (\<lambda>_. \<lparr>number = n, receiver = me, queue = list_init, lock = 0\<rparr>)
                 (s\<lparr>port_links := (port_links s)(p := detached)\<rparr>)
       in
       res_bind (lock_ports s) (\<lambda>s.
       let (lk, l) = list_append (port_links s) (port_list s) p in
       res_bind (unlock_ports (s\<lparr>port_links := lk, port_list := l\<rparr>)) (\<lambda>s. Inr ((), s))))) s"

definition syscall_portopen_handler :: "isr_regs \<Rightarrow> 'a ipc_state_scheme \<Rightarrow> (outcome \<times> 'a ipc_state_scheme) res" where
  "syscall_portopen_handler regs s =
     res_bind (choose_port (sint (r_ebx regs)) s) (\<lambda>(n, s).
       if n \<noteq> INVALID_PORT then
         res_bind (kmalloc SIZEOF_PORT s) (\<lambda>(p, s).
         res_bind (add_port p n s) (\<lambda>(_, s). Inr (Return (of_int n) [], s)))
       else Inr (Return (of_int n) [], s))"

section \<open>Sending\<close>

definition append_message :: "ptr \<Rightarrow> ptr \<Rightarrow> 'a ipc_state_scheme \<Rightarrow> 'a ipc_state_scheme" where
  "append_message p msg s =
     (let (lk, l) = list_append (msg_links s) (queue (ports s p)) msg
      in upd_port p (\<lambda>q. q\<lparr>queue := l\<rparr>) (s\<lparr>msg_links := lk\<rparr>))"

text \<open>
  From the copy of the message into kernel space on. A length that makes \<open>bufsize + 64\<close> wrap
  gives a block smaller than the copy.
\<close>

definition msgsend_deliver :: "isr_regs \<Rightarrow> ptr \<Rightarrow> message \<Rightarrow> 'a ipc_state_scheme \<Rightarrow> (outcome \<times> 'a ipc_state_scheme) res" where
  "msgsend_deliver kregs p msg s =
     (let bufsize = SIZEOF_MESSAGE + len msg; sum = message_checksum msg in
      res_bind (kernel_heap_check s) (\<lambda>_.
      if 2 ^ 32 \<le> unat SIZEOF_MESSAGE + unat (len msg) + 64 then Inl Undefined else
      res_bind (kmalloc (bufsize + 64) s) (\<lambda>(msg_copy, s).
      res_bind (kernel_heap_check s) (\<lambda>_.
      let s = s\<lparr>messages := (messages s)(msg_copy := msg), msg_links := (msg_links s)(msg_copy := detached)\<rparr> in
      res_bind (kernel_heap_check s) (\<lambda>_.
      assert_then (checksum msg = sum) (
      res_bind (current_task_pid s) (\<lambda>me.
      let copy = msg\<lparr>sender := me\<rparr>;
          s = s\<lparr>messages := (messages s)(msg_copy := copy\<lparr>checksum := message_checksum copy\<rparr>)\<rparr>
      in
      res_bind (kernel_heap_check s) (\<lambda>_.
      res_bind (lock_port p s) (\<lambda>s.
      res_bind (unlock_port p (append_message p msg_copy s)) (\<lambda>s.
      res_bind (kernel_heap_check s) (\<lambda>_.
      res_bind (task_wake (receiver (ports s p)) s) (\<lambda>s.
      res_bind (task_block kregs K_Send_Done INVALID_PORT INVALID_PORT SLEEP_INFINITE s) (\<lambda>s.
        Inr (Away, s))))))))))))))"

text \<open>One round of the loop that waits for the port to be open.\<close>

definition msgsend_open :: "isr_regs \<Rightarrow> int \<Rightarrow> message \<Rightarrow> 'a ipc_state_scheme \<Rightarrow> (outcome \<times> 'a ipc_state_scheme) res" where
  "msgsend_open kregs port_number msg s =
     res_bind (port_get port_number s) (\<lambda>(p, s).
       if p = NULL then
         res_bind (task_block kregs (K_Send_Open port_number msg) INVALID_PORT port_number SLEEP_INFINITE s) (\<lambda>s. Inr (Away, s))
       else msgsend_deliver kregs p msg s)"

definition syscall_msgsend_handler ::
    "isr_regs \<Rightarrow> isr_regs \<Rightarrow> message \<Rightarrow> 'a ipc_state_scheme \<Rightarrow> (outcome \<times> 'a ipc_state_scheme) res" where
  "syscall_msgsend_handler kregs regs msg s =
     assert_then (\<not> interrupts_enabled s) (
     assert_then (message_checksum msg = checksum msg) (
       msgsend_open kregs (sint (r_ebx regs)) msg s))"

section \<open>Receiving\<close>

definition take_message :: "ptr \<Rightarrow> ptr \<Rightarrow> 'a ipc_state_scheme \<Rightarrow> 'a ipc_state_scheme" where
  "take_message p msg s =
     (let (lk, l) = list_remove (msg_links s) (queue (ports s p)) msg
      in upd_port p (\<lambda>q. q\<lparr>queue := l\<rparr>) (s\<lparr>msg_links := lk\<rparr>))"

definition queue_empty :: "ptr \<Rightarrow> 'a ipc_state_scheme \<Rightarrow> (bool \<times> 'a ipc_state_scheme) res" where
  "queue_empty p s =
     res_bind (lock_port p s) (\<lambda>s.
     let empty = list_empty (queue (ports s p)) in
     res_bind (unlock_port p s) (\<lambda>s. Inr (empty, s)))"

text \<open>From the point on where the queue of the port is not empty.\<close>

definition msgrecv_take ::
    "ptr \<Rightarrow> ptr \<Rightarrow> u32 \<Rightarrow> ptr \<Rightarrow> 'a ipc_state_scheme \<Rightarrow> (outcome \<times> 'a ipc_state_scheme) res" where
  "msgrecv_take p buffer buffer_size outsize s =
     res_bind (lock_port p s) (\<lambda>s.
     let m = head (queue (ports s p)); msg = messages s m; need = SIZEOF_MESSAGE + len msg;
         w = (if outsize \<noteq> NULL then [Write_Word outsize need] else [])
     in
     if message_checksum msg \<noteq> checksum msg then Inl Panic
     else if buffer_size \<ge> need then
       let s = take_message p m s in
       res_bind (task_wake (sender (messages s m)) s) (\<lambda>s.
       res_bind (kfree m s) (\<lambda>(_, s).
       res_bind (unlock_port p s) (\<lambda>s. Inr (Return 0 (w @ [Write_Message buffer msg]), s))))
     else res_bind (unlock_port p s) (\<lambda>s. Inr (Return 3 w, s)))"

text \<open>One round of the loop that waits for a message.\<close>

definition msgrecv_wait ::
    "isr_regs \<Rightarrow> int \<Rightarrow> ptr \<Rightarrow> ptr \<Rightarrow> u32 \<Rightarrow> ptr \<Rightarrow> 'a ipc_state_scheme \<Rightarrow> (outcome \<times> 'a ipc_state_scheme) res" where
  "msgrecv_wait kregs port_number p buffer buffer_size outsize s =
     res_bind (queue_empty p s) (\<lambda>(empty, s).
       if empty then
         res_bind (wake_tasks_waiting_for_port port_number s) (\<lambda>s.
         res_bind (task_block kregs (K_Recv port_number p buffer buffer_size outsize) port_number INVALID_PORT SLEEP_INFINITE s) (\<lambda>s.
           Inr (Away, s)))
       else msgrecv_take p buffer buffer_size outsize s)"

definition syscall_msgrecv_handler ::
    "isr_regs \<Rightarrow> isr_regs \<Rightarrow> 'a ipc_state_scheme \<Rightarrow> (outcome \<times> 'a ipc_state_scheme) res" where
  "syscall_msgrecv_handler kregs regs s =
     assert_then (\<not> interrupts_enabled s) (
     let port_number = sint (r_ebx regs) in
     res_bind (port_get port_number s) (\<lambda>(p, s).
       if p = NULL then Inr (Return 1 [], s)
       else res_bind (current_task_pid s) (\<lambda>me.
         if me \<noteq> receiver (ports s p) then Inr (Return 2 [], s)
         else msgrecv_wait kregs port_number p (r_ecx regs) (r_edx regs) (r_esi regs) s)))"

section \<open>Waiting and peeking\<close>

definition msgwait_loop :: "isr_regs \<Rightarrow> int \<Rightarrow> ptr \<Rightarrow> 'a ipc_state_scheme \<Rightarrow> (outcome \<times> 'a ipc_state_scheme) res" where
  "msgwait_loop kregs port_number p s =
     res_bind (queue_empty p s) (\<lambda>(empty, s).
       if empty then
         res_bind (task_block kregs (K_Wait port_number p) port_number INVALID_PORT SLEEP_INFINITE s) (\<lambda>s. Inr (Away, s))
       else Inr (Return 0 [], s))"

definition syscall_msgwait_handler ::
    "isr_regs \<Rightarrow> isr_regs \<Rightarrow> 'a ipc_state_scheme \<Rightarrow> (outcome \<times> 'a ipc_state_scheme) res" where
  "syscall_msgwait_handler kregs regs s =
     assert_then (\<not> interrupts_enabled s) (
     let port_number = sint (r_ebx regs) in
     res_bind (port_get port_number s) (\<lambda>(p, s).
       if p = NULL then Inr (Return (-1) [], s)
       else res_bind (current_task_pid s) (\<lambda>me.
         if me \<noteq> receiver (ports s p) then Inr (Return (-1) [], s)
         else msgwait_loop kregs port_number p s)))"

definition syscall_msgpeek_handler :: "isr_regs \<Rightarrow> 'a ipc_state_scheme \<Rightarrow> (outcome \<times> 'a ipc_state_scheme) res" where
  "syscall_msgpeek_handler regs s =
     res_bind (port_get (sint (r_ebx regs)) s) (\<lambda>(p, s).
       if p = NULL then Inr (Return 0 [], s)
       else
         res_bind (lock_port p s) (\<lambda>s.
         res_bind (current_task_pid s) (\<lambda>me.
         let r = (if me = receiver (ports s p) \<and> \<not> list_empty (queue (ports s p)) then 1 else 0) in
         res_bind (unlock_port p s) (\<lambda>s. Inr (Return r [], s)))))"

section \<open>Going on after a wait\<close>

text \<open>
  What the current task does in the kernel when it is switched to again: \<open>task_block\<close> returns to
  the handler that called it. A handler that returns leaves nothing on the kernel stack.
\<close>

definition resume :: "isr_regs \<Rightarrow> 'a ipc_state_scheme \<Rightarrow> (outcome \<times> 'a ipc_state_scheme) res" where
  "resume kregs s =
     (let k = kstacks s (current_task s); s = s\<lparr>kstacks := (kstacks s)(current_task s := K_None)\<rparr> in
      case k of
        K_None \<Rightarrow> Inl Undefined
      | K_Sleep \<Rightarrow> Inr (Return 0 [], s)
      | K_Send_Open n msg \<Rightarrow> msgsend_open kregs n msg s
      | K_Send_Done \<Rightarrow> Inr (Return 0 [], s)
      | K_Recv n p buffer buffer_size outsize \<Rightarrow>
          assert_then (\<not> interrupts_enabled s) (
          res_bind (kernel_heap_check s) (\<lambda>_. msgrecv_wait kregs n p buffer buffer_size outsize s))
      | K_Wait n p \<Rightarrow> msgwait_loop kregs n p s)"

definition ipc_init :: "'a ipc_state_scheme \<Rightarrow> 'a ipc_state_scheme res" where
  "ipc_init s =
     res_bind (for_each (\<lambda>(n, f) s. syscall_register n f s)
       [(1, Fn_Portopen), (2, Fn_Msgsend), (3, Fn_Msgrecv), (4, Fn_Msgwait), (5, Fn_Msgpeek)] s) (\<lambda>s.
     Inr (s\<lparr>port_list := list_init\<rparr>))"

section \<open>The library side\<close>

text \<open>What \<open>msgsend\<close> makes of a message before it enters the kernel, and what \<open>msgrecv\<close> requires of its buffer afterwards.\<close>

definition msgsend_prepare :: "message \<Rightarrow> message" where
  "msgsend_prepare msg = (let msg = msg\<lparr>sender := 0\<rparr> in msg\<lparr>checksum := message_checksum msg\<rparr>)"

definition msgrecv_verify :: "message \<Rightarrow> u32 \<Rightarrow> int res" where
  "msgrecv_verify buffer result = assert_then (checksum buffer = message_checksum buffer) (Inr (sint result))"

end
