(* ===== verification/SchedInv.thy ===== *)
theory SchedInv
  imports Scheduler
begin

text \<open>
  The invariant of the scheduler and its preservation. Every task is in at most one of the
  three queues, the running and the idle task are in none, process identifiers are unique and
  the task structures and page directories are blocks of the kernel heap that belong to the
  scheduler alone. Each scheduler operation is shown to keep this, and the assertions of
  \<open>scheduler_perform_checks\<close> are shown to follow from it.
\<close>

section \<open>The invariant\<close>

text \<open>
  \<open>R\<close>, \<open>S\<close> and \<open>E\<close> are the tasks in the ready, sleeping and exited queue, \<open>F\<close> those in no queue.
\<close>

definition all_tasks :: "ptr list \<Rightarrow> ptr list \<Rightarrow> ptr list \<Rightarrow> ptr set \<Rightarrow> ptr set" where
  "all_tasks R S E F = set R \<union> set S \<union> set E \<union> F"

definition dir_of :: "'a sched_state_scheme \<Rightarrow> ptr \<Rightarrow> ptr" where
  "dir_of s t = pagedir (tasks s t)"

definition pid_of :: "'a sched_state_scheme \<Rightarrow> ptr \<Rightarrow> int" where
  "pid_of s t = pid (tasks s t)"

definition queues :: "'a sched_state_scheme \<Rightarrow> ptr list \<Rightarrow> ptr list \<Rightarrow> ptr list \<Rightarrow> ptr set \<Rightarrow> bool" where
  "queues s R S E F \<longleftrightarrow>
     dll (task_links s) (ready_queue s) R \<and> dll (task_links s) (sleeping_queue s) S \<and>
     dll (task_links s) (exited_queue s) E \<and> distinct (R @ S @ E) \<and>
     (\<forall>t\<in>F. t \<notin> set (R @ S @ E) \<and> linkable (task_links s) t)"

definition tasks_ok :: "'a sched_state_scheme \<Rightarrow> ptr set \<Rightarrow> bool" where
  "tasks_ok s T \<longleftrightarrow>
     inj_on (pid_of s) T \<and> (\<forall>t\<in>T. 0 \<le> pid_of s t \<and> pid_of s t < next_pid_value s) \<and>
     inj_on (dir_of s) T \<and> T \<inter> dir_of s ` T = {} \<and> owns s (T \<union> dir_of s ` T)"

definition sched_wf :: "'a sched_state_scheme \<Rightarrow> ptr list \<Rightarrow> ptr list \<Rightarrow> ptr list \<Rightarrow> ptr set \<Rightarrow> bool" where
  "sched_wf s R S E F \<longleftrightarrow> queues s R S E F \<and> tasks_ok s (all_tasks R S E F)"

definition sched_inv :: "'a sched_state_scheme \<Rightarrow> ptr list \<Rightarrow> ptr list \<Rightarrow> ptr list \<Rightarrow> bool" where
  "sched_inv s R S E \<longleftrightarrow> sched_wf s R S E {current_task s, idle_task s}"

section \<open>What the invariant depends on\<close>

definition sched_part :: "'a sched_state_scheme \<Rightarrow>
    (ptr \<Rightarrow> task) \<times> links \<times> list_header \<times> list_header \<times> list_header \<times> int \<times> ptr \<times> ptr \<times> (ptr \<Rightarrow> kcont)" where
  "sched_part s = (tasks s, task_links s, ready_queue s, sleeping_queue s, exited_queue s, next_pid_value s,
     current_task s, idle_task s, kstacks s)"

lemma sched_partD:
  assumes "sched_part t = sched_part s"
  shows "tasks t = tasks s" "task_links t = task_links s" "ready_queue t = ready_queue s"
    "sleeping_queue t = sleeping_queue s" "exited_queue t = exited_queue s" "next_pid_value t = next_pid_value s"
    "current_task t = current_task s" "idle_task t = idle_task s" "kstacks t = kstacks s"
  using assms by (auto simp: sched_part_def)

lemma outer_sched_part:
  fixes s t :: "'a sched_state_scheme"
  assumes "outer t = outer s"
  shows "sched_part t = sched_part s" "eflags t = eflags s" "timer_timestamp t = timer_timestamp s"
  using assms by (cases s, cases t, simp add: outer_def sched_part_def timer_timestamp_def)+

lemma sched_wf_cong:
  assumes "sched_part t = sched_part s" "\<And>P. owns s P \<Longrightarrow> owns t P"
  shows "sched_wf s R S E F \<Longrightarrow> sched_wf t R S E F"
proof -
  note f = sched_partD [OF assms(1)]
  have d: "dir_of t = dir_of s" "pid_of t = pid_of s" using f(1) by (auto simp: dir_of_def pid_of_def)
  show "sched_wf s R S E F \<Longrightarrow> sched_wf t R S E F"
    unfolding sched_wf_def queues_def tasks_ok_def f d using assms(2) by blast
qed

lemma owns_machine [simp]:
  "owns (s\<lparr>tss := x\<rparr>) P = owns s P" "owns (s\<lparr>tasks := a\<rparr>) P = owns s P" "owns (s\<lparr>task_links := b\<rparr>) P = owns s P"
  "owns (s\<lparr>ready_queue := c\<rparr>) P = owns s P" "owns (s\<lparr>sleeping_queue := c\<rparr>) P = owns s P"
  "owns (s\<lparr>exited_queue := c\<rparr>) P = owns s P" "owns (s\<lparr>current_task := d\<rparr>) P = owns s P"
  "owns (s\<lparr>kstacks := e\<rparr>) P = owns s P" "owns (s\<lparr>next_pid_value := f\<rparr>) P = owns s P"
  "owns (s\<lparr>running := g\<rparr>) P = owns s P" "owns (s\<lparr>eflags := h\<rparr>) P = owns s P" "owns (s\<lparr>cr3 := i\<rparr>) P = owns s P"
  by (rule owns_cong; simp add: heap_inv_def heap_wf_def live_def canary_addr_def)+

section \<open>Queue operations\<close>

lemma all_tasks_move [simp]:
  "all_tasks (R @ [t]) S E (F - {t}) = insert t (all_tasks R S E F)"
  "all_tasks R (S @ [t]) E (F - {t}) = insert t (all_tasks R S E F)"
  "all_tasks R S (E @ [t]) (F - {t}) = insert t (all_tasks R S E F)"
  by (auto simp: all_tasks_def)

lemma tasks_ok_queue:
  "tasks_ok (s\<lparr>task_links := lk, ready_queue := q\<rparr>) T = tasks_ok s T"
  "tasks_ok (s\<lparr>task_links := lk, sleeping_queue := q\<rparr>) T = tasks_ok s T"
  "tasks_ok (s\<lparr>task_links := lk, exited_queue := q\<rparr>) T = tasks_ok s T"
  by (simp_all add: tasks_ok_def dir_of_def [abs_def] pid_of_def [abs_def])

text \<open>
  Appending a task that is in no queue; \<open>Q\<close> is the queue it goes to and the other two are
  untouched because the lists share no task.
\<close>

lemma append_queues:
  assumes "dll lk q Q" "dll lk a A" "dll lk b B" "distinct (Q @ A @ B)" "list_append lk q t = (lk', q')"
    and "\<forall>x\<in>F. x \<notin> set (Q @ A @ B) \<and> linkable lk x" "t \<in> F"
  shows "dll lk' q' (Q @ [t]) \<and> dll lk' a A \<and> dll lk' b B \<and> (\<forall>x\<in>F - {t}. linkable lk' x)"
  using ll.app_rep [OF assms(1) _ _ assms(5)] ll.app_other [OF assms(1,2) _ _ assms(5)]
    ll.app_other [OF assms(1,3) _ _ assms(5)] ll.app_free [OF assms(1) _ _ _ assms(5)] assms(4,6,7)
  by auto

lemma sched_wf_append:
  assumes "sched_wf s R S E F" "t \<in> F"
  shows "sched_wf (append_ready t s) (R @ [t]) S E (F - {t})"
    and "sched_wf (append_sleeping t s) R (S @ [t]) E (F - {t})"
    and "sched_wf (append_exited t s) R S (E @ [t]) (F - {t})"
proof -
  have q: "queues s R S E F" and ok: "tasks_ok s (all_tasks R S E F)" using assms(1) by (auto simp: sched_wf_def)
  have ins: "insert t (all_tasks R S E F) = all_tasks R S E F" using assms(2) by (auto simp: all_tasks_def)
  obtain lk1 q1 where r: "list_append (task_links s) (ready_queue s) t = (lk1, q1)" by (cases "list_append (task_links s) (ready_queue s) t")
  obtain lk2 q2 where l: "list_append (task_links s) (sleeping_queue s) t = (lk2, q2)" by (cases "list_append (task_links s) (sleeping_queue s) t")
  obtain lk3 q3 where e: "list_append (task_links s) (exited_queue s) t = (lk3, q3)" by (cases "list_append (task_links s) (exited_queue s) t")
  show "sched_wf (append_ready t s) (R @ [t]) S E (F - {t})"
    using append_queues [of "task_links s" _ R _ S _ E t lk1 q1 F, OF _ _ _ _ r] q ok assms(2)
    by (auto simp: sched_wf_def append_ready_def r queues_def tasks_ok_queue ins)
  show "sched_wf (append_sleeping t s) R (S @ [t]) E (F - {t})"
    using append_queues [of "task_links s" _ S _ R _ E t lk2 q2 F, OF _ _ _ _ l] q ok assms(2)
    by (auto simp: sched_wf_def append_sleeping_def l queues_def tasks_ok_queue ins)
  show "sched_wf (append_exited t s) R S (E @ [t]) (F - {t})"
    using append_queues [of "task_links s" _ E _ R _ S t lk3 q3 F, OF _ _ _ _ e] q ok assms(2)
    by (auto simp: sched_wf_def append_exited_def e queues_def tasks_ok_queue ins)
qed

lemma remove_queues:
  assumes "dll lk q Q" "dll lk a A" "dll lk b B" "distinct (Q @ A @ B)" "list_remove lk q t = (lk', q')"
    and "\<forall>x\<in>F. x \<notin> set (Q @ A @ B) \<and> linkable lk x" "t \<in> set Q"
  shows "dll lk' q' (remove1 t Q) \<and> dll lk' a A \<and> dll lk' b B \<and> (\<forall>x\<in>insert t F. linkable lk' x)"
  using ll.rem_rep [OF assms(1,7,5)] ll.rem_other [OF assms(1,2) _ assms(7,5)]
    ll.rem_other [OF assms(1,3) _ assms(7,5)] ll.rem_free [OF assms(1,7,5)]
    ll.rem_free_other [OF assms(1,7) _ _ assms(5)] assms(4,6)
  by auto

lemma all_tasks_remove:
  "t \<in> set R \<Longrightarrow> distinct R \<Longrightarrow> all_tasks (remove1 t R) S E (insert t F) = all_tasks R S E F"
  "t \<in> set S \<Longrightarrow> distinct S \<Longrightarrow> all_tasks R (remove1 t S) E (insert t F) = all_tasks R S E F"
  "t \<in> set E \<Longrightarrow> distinct E \<Longrightarrow> all_tasks R S (remove1 t E) (insert t F) = all_tasks R S E F"
  by (auto simp: all_tasks_def)

lemma sched_wf_remove:
  assumes "sched_wf s R S E F"
  shows "t \<in> set R \<Longrightarrow> sched_wf (remove_ready t s) (remove1 t R) S E (insert t F)"
    and "t \<in> set S \<Longrightarrow> sched_wf (remove_sleeping t s) R (remove1 t S) E (insert t F)"
    and "t \<in> set E \<Longrightarrow> sched_wf (remove_exited t s) R S (remove1 t E) (insert t F)"
proof -
  have q: "queues s R S E F" and ok: "tasks_ok s (all_tasks R S E F)" using assms(1) by (auto simp: sched_wf_def)
  have d: "distinct R" "distinct S" "distinct E" using q by (auto simp: queues_def)
  obtain lk1 q1 where r: "list_remove (task_links s) (ready_queue s) t = (lk1, q1)" by (cases "list_remove (task_links s) (ready_queue s) t")
  obtain lk2 q2 where l: "list_remove (task_links s) (sleeping_queue s) t = (lk2, q2)" by (cases "list_remove (task_links s) (sleeping_queue s) t")
  obtain lk3 q3 where e: "list_remove (task_links s) (exited_queue s) t = (lk3, q3)" by (cases "list_remove (task_links s) (exited_queue s) t")
  show "t \<in> set R \<Longrightarrow> sched_wf (remove_ready t s) (remove1 t R) S E (insert t F)"
    using remove_queues [of "task_links s" _ R _ S _ E t lk1 q1 F, OF _ _ _ _ r] q ok d
    by (auto simp: sched_wf_def remove_ready_def r queues_def tasks_ok_queue all_tasks_remove)
  show "t \<in> set S \<Longrightarrow> sched_wf (remove_sleeping t s) R (remove1 t S) E (insert t F)"
    using remove_queues [of "task_links s" _ S _ R _ E t lk2 q2 F, OF _ _ _ _ l] q ok d
    by (auto simp: sched_wf_def remove_sleeping_def l queues_def tasks_ok_queue all_tasks_remove)
  show "t \<in> set E \<Longrightarrow> sched_wf (remove_exited t s) R S (remove1 t E) (insert t F)"
    using remove_queues [of "task_links s" _ E _ R _ S t lk3 q3 F, OF _ _ _ _ e] q ok d
    by (auto simp: sched_wf_def remove_exited_def e queues_def tasks_ok_queue all_tasks_remove)
qed

section \<open>The consistency checks\<close>

text \<open>
  The bits of the accumulated mask: bit 31 of the mask of process 31 is the sign, which the
  conversion to 64 bits repeats.
\<close>

lemma bit_pid_mask:
  assumes "p < 32"
  shows "bit (scast (push_bit p 1 :: u32) :: u64) k \<longleftrightarrow> k < 64 \<and> min k 31 = p"
  using assms by (auto simp: bit_simps min_def)

definition seen :: "u64 \<Rightarrow> int set \<Rightarrow> bool" where
  "seen e A \<longleftrightarrow> (\<forall>k < 64. bit e k \<longleftrightarrow> int (min k 31) \<in> A)"

lemma seen_step:
  assumes "seen e A" "0 \<le> p" "p < 32"
  shows "\<exists>m. pid_mask p = Inr m \<and> (e AND m = 0 \<longleftrightarrow> p \<notin> A) \<and> seen (e OR m) (insert p A)"
proof -
  let ?m = "scast (push_bit (nat p) 1 :: u32) :: u64"
  have m: "bit ?m k \<longleftrightarrow> k < 64 \<and> int (min k 31) = p" for k
    using bit_pid_mask [of "nat p" k] assms(2,3) by auto
  have "e AND ?m = 0 \<longleftrightarrow> (\<forall>k < 64. \<not> (bit e k \<and> bit ?m k))"
    by (auto simp: bit_eq_iff bit_and_iff m)
  also have "\<dots> \<longleftrightarrow> p \<notin> A"
  proof
    assume a: "\<forall>k < 64. \<not> (bit e k \<and> bit ?m k)"
    have "int (min (nat p) 31) = p" "nat p < 64" using assms(2,3) by auto
    then show "p \<notin> A" using a [rule_format, of "nat p"] assms(1) m [of "nat p"] by (auto simp: seen_def)
  next
    assume "p \<notin> A"
    then show "\<forall>k < 64. \<not> (bit e k \<and> bit ?m k)" using assms(1) m by (auto simp: seen_def)
  qed
  finally have "e AND ?m = 0 \<longleftrightarrow> p \<notin> A" .
  moreover have "seen (e OR ?m) (insert p A)" using assms(1) m by (auto simp: seen_def bit_or_iff)
  ultimately show ?thesis using assms(2,3) by (intro exI [of _ ?m]) (simp add: pid_mask_def)
qed

lemma check_fold:
  assumes "\<forall>t\<in>set xs. t \<noteq> current_task s \<and> t \<noteq> idle_task s \<and> 0 \<le> pid_of s t \<and> pid_of s t < 32"
    and "inj_on (pid_of s) (set xs)" "distinct xs" "pid_of s ` set xs \<inter> A = {}" "seen e A"
  shows "\<exists>e'. foreach_fold (check_task s) xs e = Inr e' \<and> seen e' (A \<union> pid_of s ` set xs)"
  using assms
proof (induction xs arbitrary: e A)
  case (Cons t xs)
  obtain m where m: "pid_mask (pid_of s t) = Inr m" "e AND m = 0" "seen (e OR m) (insert (pid_of s t) A)"
    using seen_step [OF Cons.prems(5), of "pid_of s t"] Cons.prems(1,4) by auto
  have "pid_of s ` set xs \<inter> insert (pid_of s t) A = {}"
    using Cons.prems(2,3,4) by (auto simp: inj_on_def)
  then obtain e' where "foreach_fold (check_task s) xs (e OR m) = Inr e'"
      "seen e' (insert (pid_of s t) A \<union> pid_of s ` set xs)"
    using Cons.IH [of "insert (pid_of s t) A" "e OR m"] Cons.prems m(3) by auto
  moreover have "check_task s t e = Inr (False, e OR m)"
    using Cons.prems(1) m by (simp add: check_task_def pid_of_def)
  ultimately show ?case by auto
qed simp

lemma keeps_successors_const: "keeps_successors (\<lambda>_. l) body xs s"
  by (induction xs arbitrary: s) (auto split: sum.splits)

lemma foreach_const: "dll l h xs \<Longrightarrow> list_foreach (\<lambda>_. l) h body e = foreach_fold body xs e"
  by (rule list_foreach_fold [where lk = "\<lambda>_. l"]) (simp_all add: keeps_successors_const)

lemma checks_pass:
  assumes "sched_wf s R S E F" "current_task s \<in> F" "idle_task s \<in> F" "next_pid_value s \<le> 32"
  shows "scheduler_perform_checks s = Inr ()"
proof -
  have q: "queues s R S E F" and ok: "tasks_ok s (all_tasks R S E F)" using assms(1) by (auto simp: sched_wf_def)
  have T: "\<forall>t\<in>set (R @ S @ E). t \<noteq> current_task s \<and> t \<noteq> idle_task s \<and> 0 \<le> pid_of s t \<and> pid_of s t < 32"
  proof
    fix t assume t: "t \<in> set (R @ S @ E)"
    then have "t \<in> all_tasks R S E F" by (auto simp: all_tasks_def)
    then have "0 \<le> pid_of s t" "pid_of s t < next_pid_value s" using ok by (auto simp: tasks_ok_def)
    moreover have "t \<notin> F" using q t by (auto simp: queues_def)
    ultimately show "t \<noteq> current_task s \<and> t \<noteq> idle_task s \<and> 0 \<le> pid_of s t \<and> pid_of s t < 32"
      using assms(2-4) by auto
  qed
  have inj: "inj_on (pid_of s) (set (R @ S @ E))"
    by (rule inj_on_subset [of _ "all_tasks R S E F"]) (use ok in \<open>auto simp: tasks_ok_def all_tasks_def\<close>)
  have d: "distinct R" "distinct S" "distinct E" "set R \<inter> set S = {}" "set R \<inter> set E = {}" "set S \<inter> set E = {}"
    using q by (auto simp: queues_def)
  have dis: "pid_of s ` A \<inter> pid_of s ` B = {}" if "A \<inter> B = {}" "A \<union> B \<subseteq> set (R @ S @ E)" for A B
    using inj_on_image_Int [OF inj, of A B] that by auto
  obtain e1 where e1: "foreach_fold (check_task s) R 0 = Inr e1" "seen e1 (pid_of s ` set R)"
    using check_fold [of R s "{}" 0] T inj_on_subset [OF inj, of "set R"] d(1) by (auto simp: seen_def)
  obtain e2 where e2: "foreach_fold (check_task s) S e1 = Inr e2" "seen e2 (pid_of s ` (set R \<union> set S))"
    using check_fold [of S s "pid_of s ` set R" e1] T inj_on_subset [OF inj, of "set S"] d(2) e1(2) dis [of "set S" "set R"] d(4)
    by (auto simp: image_Un)
  obtain e3 where e3: "foreach_fold (check_task s) E e2 = Inr e3"
    using check_fold [of E s "pid_of s ` (set R \<union> set S)" e2] T inj_on_subset [OF inj, of "set E"] d(3) e2(2)
      dis [of "set E" "set R \<union> set S"] d(5,6) by auto
  have l: "dll (task_links s) (ready_queue s) R" "dll (task_links s) (sleeping_queue s) S"
    "dll (task_links s) (exited_queue s) E" using q by (auto simp: queues_def)
  show ?thesis
    using e1(1) e2(1) e3 by (simp add: scheduler_perform_checks_def foreach_const [OF l(1)] foreach_const [OF l(2)] foreach_const [OF l(3)])
qed

section \<open>Switching\<close>

definition same_sched :: "'a sched_state_scheme \<Rightarrow> 'a sched_state_scheme \<Rightarrow> bool" where
  "same_sched s t \<longleftrightarrow> sched_part t = sched_part s \<and> owns_on s t"

lemma same_sched_trans: "same_sched s t \<Longrightarrow> same_sched t u \<Longrightarrow> same_sched s u"
  by (auto simp: same_sched_def intro: owns_on_trans)

lemma same_sched_refl [simp, intro]: "same_sched s s"
  by (simp add: same_sched_def)

lemma same_sched_wf: "same_sched s t \<Longrightarrow> sched_wf s R S E F \<Longrightarrow> sched_wf t R S E F"
  by (rule sched_wf_cong [of t s]) (auto simp: same_sched_def intro: owns_onD)

lemma vouter_same_sched: "vouter t = vouter s \<Longrightarrow> same_sched s t"
  using outer_sched_part(1) [OF kouter_outer [OF vouter_kouter]] by (auto simp: same_sched_def intro: owns_onI)

lemma same_sched_tss:
  "tss_set_kernel_stack e s = Inr (u, t) \<Longrightarrow> same_sched s t"
  "gdt_iomap_set b s = Inr t \<Longrightarrow> same_sched s t"
  "same_sched s (switch_context c s)"
  by (auto simp: tss_set_kernel_stack_def critical_Inr gdt_iomap_set_def res_simps same_sched_def sched_part_def
      switch_context_def owns_on_def restore_if_def cli_def sti_def)

lemma task_switch_effect:
  assumes "task_switch t s = Inr s'"
  shows "same_sched (s\<lparr>current_task := t\<rparr>) s'" "running s' = ctx (tasks s t)" "cr3 s' = c_cr3 (ctx (tasks s t))"
    "eflags s' = c_eflags (ctx (tasks s t))" "t \<noteq> NULL"
proof -
  let ?s = "s\<lparr>current_task := t\<rparr>"
  obtain u1 s1 u2 s2 s3 where k: "vmm_copy_kernel_mappings (pagedir (tasks s t)) ?s = Inr (u1, s1)"
      "tss_set_kernel_stack (KERNEL_STACK + PAGE_SIZE) s1 = Inr (u2, s2)" "gdt_iomap_set (iomap (tasks s2 t)) s2 = Inr s3"
    and s': "s' = switch_context (ctx (tasks s3 t)) s3" and t: "t \<noteq> NULL"
    using assms by (auto simp: task_switch_def res_simps Let_def)
  have "same_sched ?s s1" using k(1) by (intro vouter_same_sched vframe)
  then have s3: "same_sched ?s s3" using same_sched_tss(1) [OF k(2)] same_sched_tss(2) [OF k(3)] same_sched_trans by blast
  have "tasks s3 = tasks s" using s3 sched_partD(1) [of s3 ?s] by (simp add: same_sched_def)
  then show "running s' = ctx (tasks s t)" "cr3 s' = c_cr3 (ctx (tasks s t))" "eflags s' = c_eflags (ctx (tasks s t))"
    by (simp_all add: s' switch_context_def)
  show "same_sched ?s s'" unfolding s' by (rule same_sched_trans [OF s3 same_sched_tss(3)])
  show "t \<noteq> NULL" by (rule t)
qed

lemma sched_wf_current [simp]: "sched_wf (s\<lparr>current_task := t\<rparr>) R S E F = sched_wf s R S E F"
  by (simp add: sched_wf_def queues_def tasks_ok_def dir_of_def [abs_def] pid_of_def [abs_def])

lemma task_switch_inv:
  assumes "task_switch t s = Inr s'" "sched_wf s R S E {t, idle_task s}"
  shows "sched_inv s' R S E" "current_task s' = t" "idle_task s' = idle_task s" "tasks s' = tasks s"
    "kstacks s' = kstacks s"
proof -
  note e = task_switch_effect [OF assms(1)]
  have p: "sched_part s' = sched_part (s\<lparr>current_task := t\<rparr>)" using e(1) by (simp add: same_sched_def)
  show f: "current_task s' = t" "idle_task s' = idle_task s" "tasks s' = tasks s" "kstacks s' = kstacks s"
    using sched_partD [OF p] by simp_all
  show "sched_inv s' R S E"
    unfolding sched_inv_def f using same_sched_wf [OF e(1), of R S E "{t, idle_task s}"] assms(2) by simp
qed

text \<open>Which task comes next: the first sleeper whose deadline has passed, else the head of the ready queue, else idle.\<close>

definition next_task :: "'a sched_state_scheme \<Rightarrow> ptr list \<Rightarrow> ptr list \<Rightarrow> ptr \<times> ptr list \<times> ptr list" where
  "next_task s R S =
     (case find (\<lambda>t. deadline_passed (timer_timestamp s) (tasks s t)) S of
        Some t \<Rightarrow> (t, R, remove1 t S)
      | None \<Rightarrow> (case R of t # R' \<Rightarrow> (t, R', S) | [] \<Rightarrow> (idle_task s, [], S)))"

lemma find_in_set: "find P xs = Some x \<Longrightarrow> x \<in> set xs"
  by (auto simp: find_Some_iff)

lemma upd_links_simps [simp]:
  "idle_task (remove_ready t s) = idle_task s" "tasks (remove_ready t s) = tasks s" "kstacks (remove_ready t s) = kstacks s"
  "idle_task (remove_sleeping t s) = idle_task s" "tasks (remove_sleeping t s) = tasks s" "kstacks (remove_sleeping t s) = kstacks s"
  "idle_task (remove_exited t s) = idle_task s" "tasks (remove_exited t s) = tasks s" "kstacks (remove_exited t s) = kstacks s"
  "idle_task (append_ready t s) = idle_task s" "tasks (append_ready t s) = tasks s" "kstacks (append_ready t s) = kstacks s"
  "idle_task (append_sleeping t s) = idle_task s" "tasks (append_sleeping t s) = tasks s" "kstacks (append_sleeping t s) = kstacks s"
  "idle_task (append_exited t s) = idle_task s" "tasks (append_exited t s) = tasks s" "kstacks (append_exited t s) = kstacks s"
  "current_task (append_ready t s) = current_task s" "current_task (remove_sleeping t s) = current_task s"
  "current_task (append_sleeping t s) = current_task s" "current_task (append_exited t s) = current_task s"
  "timer_timestamp (append_ready t s) = timer_timestamp s" "timer_timestamp (append_sleeping t s) = timer_timestamp s"
  "timer_timestamp (append_exited t s) = timer_timestamp s"
  by (simp_all add: remove_ready_def remove_sleeping_def remove_exited_def append_ready_def append_sleeping_def
      append_exited_def timer_timestamp_def split: prod.splits)

lemma task_switch_next_step:
  assumes "task_switch_next s = Inr s'" "sched_wf s R S E {idle_task s}" "next_task s R S = (t, R', S')"
  shows "sched_inv s' R' S' E \<and> current_task s' = t \<and> idle_task s' = idle_task s \<and> tasks s' = tasks s
    \<and> kstacks s' = kstacks s \<and> running s' = ctx (tasks s t)"
proof -
  have q: "queues s R S E {idle_task s}" using assms(2) by (simp add: sched_wf_def)
  then have d: "dll (task_links s) (ready_queue s) R" "dll (task_links s) (sleeping_queue s) S" "distinct (R @ S @ E)"
    by (auto simp: queues_def)
  let ?P = "\<lambda>t. deadline_passed (timer_timestamp s) (tasks s t)"
  show ?thesis
  proof (cases "find ?P S")
    case (Some x)
    then have x: "x \<in> set S" "x \<noteq> NULL" using find_in_set d(2) by (fastforce simp: dll_def)+
    have "task_switch x (remove_sleeping x s) = Inr s'"
      using assms(1) Some x by (simp add: task_switch_next_def list_find_eq [OF d(2)])
    then show ?thesis
      using task_switch_inv [of x "remove_sleeping x s" s' R "remove1 x S" E] task_switch_effect(2) [of x "remove_sleeping x s" s']
        sched_wf_remove(2) [OF assms(2) x(1)] Some assms(3) by (auto simp: next_task_def)
  next
    case None
    show ?thesis
    proof (cases R)
      case Nil
      then have "task_switch (idle_task s) s = Inr s'"
        using assms(1) None d(1) by (simp add: task_switch_next_def list_find_eq [OF d(2)] dll_def)
      then show ?thesis
        using task_switch_inv [of "idle_task s" s s' "[]" S E] task_switch_effect(2) [of "idle_task s" s s'] assms(2,3) None Nil
        by (simp add: next_task_def)
    next
      case (Cons x xs)
      have x: "head (ready_queue s) = x" "x \<noteq> NULL" using d(1) Cons by (auto simp: dll_def)
      have "task_switch x (remove_ready x s) = Inr s'"
        using assms(1) None x by (simp add: task_switch_next_def list_find_eq [OF d(2)])
      then show ?thesis
        using task_switch_inv [of x "remove_ready x s" s' xs S E] task_switch_effect(2) [of x "remove_ready x s" s']
          sched_wf_remove(1) [OF assms(2), of x] None Cons assms(3) by (auto simp: next_task_def)
    qed
  qed
qed

section \<open>Giving up the processor\<close>

lemma next_task_append [simp]:
  "next_task (append_ready t s) R S = next_task s R S" "next_task (append_sleeping t s) R S = next_task s R S"
  "next_task (append_exited t s) R S = next_task s R S"
  by (simp_all add: next_task_def cong: option.case_cong list.case_cong)

lemma leave_current:
  assumes "sched_inv s R S E" "current_task s \<noteq> idle_task s"
  shows "sched_wf (append_ready (current_task s) s) (R @ [current_task s]) S E {idle_task s}"
    and "sched_wf (append_sleeping (current_task s) s) R (S @ [current_task s]) E {idle_task s}"
    and "sched_wf (append_exited (current_task s) s) R S (E @ [current_task s]) {idle_task s}"
proof -
  have F: "{current_task s, idle_task s} - {current_task s} = {idle_task s}" using assms(2) by auto
  show "sched_wf (append_ready (current_task s) s) (R @ [current_task s]) S E {idle_task s}"
    "sched_wf (append_sleeping (current_task s) s) R (S @ [current_task s]) E {idle_task s}"
    "sched_wf (append_exited (current_task s) s) R S (E @ [current_task s]) {idle_task s}"
    using sched_wf_append [of s R S E "{current_task s, idle_task s}" "current_task s"] assms(1)
    unfolding F sched_inv_def by simp_all
qed

lemma yield_step:
  assumes "sched_inv s R S E" "current_task s \<noteq> idle_task s" "syscall_yield_handler s = Inr s'"
    "next_task s (R @ [current_task s]) S = (t, R', S')"
  shows "sched_inv s' R' S' E \<and> current_task s' = t \<and> idle_task s' = idle_task s \<and> tasks s' = tasks s
    \<and> kstacks s' = kstacks s \<and> running s' = ctx (tasks s t)"
  using task_switch_next_step [of "append_ready (current_task s) s" s' "R @ [current_task s]" S E t R' S']
    leave_current(1) [OF assms(1,2)] assms(3,4)
  by (simp add: syscall_yield_handler_def)

lemma exit_step:
  assumes "sched_inv s R S E" "current_task s \<noteq> idle_task s" "syscall_exit_handler s = Inr s'"
    "next_task s R S = (t, R', S')"
  shows "sched_inv s' R' S' (E @ [current_task s]) \<and> current_task s' = t \<and> idle_task s' = idle_task s
    \<and> tasks s' = tasks s \<and> kstacks s' = kstacks s \<and> running s' = ctx (tasks s t)"
  using task_switch_next_step [of "append_exited (current_task s) s" s' R S "E @ [current_task s]" t R' S']
    leave_current(3) [OF assms(1,2)] assms(3,4)
  by (simp add: syscall_exit_handler_def)

lemma block_step:
  assumes "sched_inv s R S E" "current_task s \<noteq> idle_task s" "syscall_block_handler s = Inr s'"
    "next_task s R (S @ [current_task s]) = (t, R', S')"
  shows "sched_inv s' R' S' E \<and> current_task s' = t \<and> idle_task s' = idle_task s \<and> tasks s' = tasks s
    \<and> kstacks s' = kstacks s \<and> running s' = ctx (tasks s t)"
  using task_switch_next_step [of "append_sleeping (current_task s) s" s' R "S @ [current_task s]" E t R' S']
    leave_current(2) [OF assms(1,2)] assms(3,4)
  by (simp add: syscall_block_handler_def)

section \<open>Changes to task structures\<close>

definition keeps_identity :: "(task \<Rightarrow> task) \<Rightarrow> bool" where
  "keeps_identity f \<longleftrightarrow> (\<forall>k. pid (f k) = pid k \<and> pagedir (f k) = pagedir k)"

lemma upd_task_of:
  assumes "keeps_identity f"
  shows "pid_of (upd_task t f s) = pid_of s" "dir_of (upd_task t f s) = dir_of s"
  using assms by (auto simp: pid_of_def dir_of_def upd_task_def keeps_identity_def)

lemma upd_task_simps [simp]:
  "task_links (upd_task t f s) = task_links s" "ready_queue (upd_task t f s) = ready_queue s"
  "sleeping_queue (upd_task t f s) = sleeping_queue s" "exited_queue (upd_task t f s) = exited_queue s"
  "next_pid_value (upd_task t f s) = next_pid_value s" "current_task (upd_task t f s) = current_task s"
  "idle_task (upd_task t f s) = idle_task s" "kstacks (upd_task t f s) = kstacks s" "eflags (upd_task t f s) = eflags s"
  "timer_timestamp (upd_task t f s) = timer_timestamp s" "owns (upd_task t f s) P = owns s P"
  "interrupts_enabled (upd_task t f s) = interrupts_enabled s"
  by (simp_all add: upd_task_def timer_timestamp_def interrupts_enabled_def)

lemma sched_wf_upd_task: "keeps_identity f \<Longrightarrow> sched_wf (upd_task t f s) R S E F = sched_wf s R S E F"
  by (simp add: sched_wf_def queues_def tasks_ok_def upd_task_of)

lemma sched_inv_upd_task: "keeps_identity f \<Longrightarrow> sched_inv (upd_task t f s) R S E = sched_inv s R S E"
  by (simp add: sched_inv_def sched_wf_upd_task)

lemma sched_wf_kstacks [simp]: "sched_wf (s\<lparr>kstacks := k\<rparr>) R S E F = sched_wf s R S E F"
  by (simp add: sched_wf_def queues_def tasks_ok_def dir_of_def [abs_def] pid_of_def [abs_def])

lemma save_task_state_upd:
  assumes "save_task_state t regs s = Inr s'"
  obtains f where "keeps_identity f" "s' = upd_task t f s" "\<And>k. sleep_deadline (f k) = sleep_deadline k"
    "\<And>k. wait_cansend_port (f k) = wait_cansend_port k" "\<And>k. c_eip (ctx (f k)) = r_eip regs"
proof -
  obtain e where "s' = upd_task t (\<lambda>k. k\<lparr>ctx := (ctx k)\<lparr>c_esp := e, c_cs := r_cs regs,
            c_ds := r_ds regs, c_ss := r_ds regs, c_eflags := r_eflags regs, c_eip := r_eip regs,
            c_edi := r_edi regs, c_esi := r_esi regs, c_edx := r_edx regs, c_ecx := r_ecx regs,
            c_ebx := r_ebx regs, c_eax := r_eax regs, c_ebp := r_ebp regs\<rparr>\<rparr>) s"
    using assms by (auto simp: save_task_state_def Let_def res_simps split: if_splits)
  then show ?thesis by (rule that [rotated]) (simp_all add: keeps_identity_def)
qed

section \<open>The scheduler tick\<close>

lemma tasks_ok_subset:
  "tasks_ok s T \<Longrightarrow> U \<subseteq> T \<Longrightarrow> owns s (U \<union> dir_of s ` U) \<Longrightarrow> tasks_ok s U"
  by (auto simp: tasks_ok_def intro: inj_on_subset)

lemma collect_step:
  assumes "sched_wf s R S (t # E) F" "collect_task t s = Inr (b, s')"
  shows "\<not> b" "sched_wf s' R S E F" "sched_part s' = sched_part (remove_exited t s)" "eflags s' = eflags s"
    "timer_timestamp s' = timer_timestamp s"
proof -
  obtain u1 s1 u2 where k: "vmm_destroy_pagedir (dir_of s t) (remove_exited t s) = Inr (u1, s1)"
      "kfree t s1 = Inr (u2, s')" and b: "\<not> b"
    using assms(2) by (auto simp: collect_task_def Let_def res_simps dir_of_def)
  show "\<not> b" by (rule b)
  have o: "outer s' = outer (remove_exited t s)"
    using frame_rules(1) outer_destroy_pagedir [OF k(1)] kouter_outer [OF kouter_kmalloc(3) [OF k(2)]] by simp
  note p = outer_sched_part [OF o]
  show "sched_part s' = sched_part (remove_exited t s)" by (rule p(1))
  show "eflags s' = eflags s" "timer_timestamp s' = timer_timestamp s"
    using p(2,3) by (simp_all add: remove_exited_def timer_timestamp_def split: prod.splits)
  have wf: "sched_wf (remove_exited t s) R S E (insert t F)"
    using sched_wf_remove(3) [OF assms(1), of t] by simp
  let ?T = "all_tasks R S E (insert t F)" and ?U = "all_tasks R S E F"
  have ok: "tasks_ok (remove_exited t s) ?T" using wf by (simp add: sched_wf_def)
  have tU: "t \<notin> ?U" "?T = insert t ?U"
    using assms(1) by (auto simp: sched_wf_def queues_def all_tasks_def)
  have dd: "dir_of (remove_exited t s) = dir_of s" by (simp add: dir_of_def [abs_def])
  have "owns s1 (?T \<union> dir_of s ` ?T - {dir_of s t})"
    using owns_destroy_pagedir [OF _ _ k(1), of "?T \<union> dir_of s ` ?T"] ok tU(2) by (simp add: tasks_ok_def dd)
  moreover have "t \<in> ?T \<union> dir_of s ` ?T - {dir_of s t}" using ok tU(2) by (auto simp: tasks_ok_def dd)
  ultimately have "owns s' (?T \<union> dir_of s ` ?T - {dir_of s t} - {t})" using owns_kfree k(2) by blast
  moreover have "?T \<union> dir_of s ` ?T - {dir_of s t} - {t} = ?U \<union> dir_of s ` ?U"
  proof -
    have "dir_of s t \<notin> ?U" "t \<notin> dir_of s ` ?U" "dir_of s t \<notin> dir_of s ` ?U"
      using ok tU by (auto simp: tasks_ok_def dd inj_on_def)
    then show ?thesis using tU by auto
  qed
  ultimately have ow: "owns s' (?U \<union> dir_of s ` ?U)" by simp
  have f: "pid_of s' = pid_of s" "dir_of s' = dir_of s" "pid_of (remove_exited t s) = pid_of s"
      "next_pid_value s' = next_pid_value s" "next_pid_value (remove_exited t s) = next_pid_value s"
    using sched_partD [OF p(1)]
    by (simp_all add: pid_of_def [abs_def] dir_of_def [abs_def] remove_exited_def split: prod.splits)
  have "tasks_ok s' ?U" using ok ow unfolding tU(2) tasks_ok_def f dd by (auto simp: inj_on_def)
  moreover have "queues s' R S E F"
    using wf sched_partD [OF p(1)] by (simp add: sched_wf_def queues_def)
  ultimately show "sched_wf s' R S E F" by (simp add: sched_wf_def)
qed

lemma chain_unique:
  "chain lk xs \<Longrightarrow> chain lk' xs \<Longrightarrow> y \<in> set xs \<Longrightarrow> next_ptr (lk' y) = next_ptr (lk y)"
  by (induction xs) auto

lemma chain_suffix: "chain lk (xs @ ys) \<Longrightarrow> chain lk ys"
  by (induction xs) auto

lemma dll_chain: "dll lk l (xs @ ys) \<Longrightarrow> chain lk ys"
  by (rule chain_suffix [of lk xs]) (auto simp: dll_def intro: seg_chain)

text \<open>What the collection of exited tasks leaves alone.\<close>

definition tick_part where
  "tick_part s = (tasks s, ready_queue s, sleeping_queue s, next_pid_value s, current_task s, idle_task s, kstacks s,
     eflags s, timer_timestamp s)"

lemma collect_all:
  "sched_wf s R S E F \<Longrightarrow> keeps_successors task_links collect_task E s
     \<and> (\<forall>s'. foreach_fold collect_task E s = Inr s' \<longrightarrow> sched_wf s' R S [] F \<and> tick_part s' = tick_part s)"
proof (induction E arbitrary: s)
  case (Cons t E)
  show ?case
  proof (cases "collect_task t s")
    case (Inr r)
    then obtain b u where c: "collect_task t s = Inr (b, u)" by (cases r) auto
    note k = collect_step [OF Cons.prems c]
    have tp: "tick_part u = tick_part s"
      using sched_partD [OF k(3)] k(4,5) by (simp add: tick_part_def remove_exited_def split: prod.splits)
    have "chain (task_links s) E" "chain (task_links u) E"
      using Cons.prems k(2) dll_chain [of _ _ "[t]" E] dll_chain [of _ _ "[]" E] by (auto simp: sched_wf_def queues_def)
    then have "\<forall>y\<in>set E. next_ptr (task_links u y) = next_ptr (task_links s y)" using chain_unique by blast
    then show ?thesis using Cons.IH [OF k(2)] k(1) c tp by auto
  qed simp
qed simp

lemma collect_exited:
  assumes "sched_wf s R S E F" "list_foreach task_links (exited_queue s) collect_task s = Inr s'"
  shows "sched_wf s' R S [] F" "tick_part s' = tick_part s"
proof -
  have "dll (task_links s) (exited_queue s) E" using assms(1) by (simp add: sched_wf_def queues_def)
  then have "foreach_fold collect_task E s = Inr s'"
    using list_foreach_fold [of task_links s "exited_queue s" E collect_task] collect_all [OF assms(1)] assms(2) by simp
  then show "sched_wf s' R S [] F" "tick_part s' = tick_part s" using collect_all [OF assms(1)] by blast+
qed

lemma may_wakeup_false:
  "foreach_fold (\<lambda>t b. Inr (if P t then (True, False) else (False, b))) xs False = Inr False"
  by (induction xs) auto

text \<open>The ready queue as the tick leaves it before it looks for the next task.\<close>

definition requeued :: "'a sched_state_scheme \<Rightarrow> ptr list \<Rightarrow> ptr list" where
  "requeued s R = (if current_task s \<noteq> idle_task s then R @ [current_task s] else R)"

lemma tick_requeue:
  assumes "sched_inv s R S E"
  shows "sched_wf (if current_task s \<noteq> idle_task s then append_ready (current_task s) s else s) (requeued s R) S E {idle_task s}"
  using leave_current(1) [OF assms] assms by (auto simp: requeued_def sched_inv_def)

lemma next_task_tasks:
  assumes "timer_timestamp u = timer_timestamp s" "idle_task u = idle_task s"
    "\<And>t. sleep_deadline (tasks u t) = sleep_deadline (tasks s t)"
  shows "next_task u R S = next_task s R S"
  using assms by (simp add: next_task_def deadline_passed_def cong: option.case_cong list.case_cong)

lemma scheduler_timer_parts:
  assumes "scheduler_timer regs s = Inr s'"
  obtains s1 s2 where "save_task_state (current_task s) regs s = Inr s1"
      "list_foreach task_links (exited_queue (if current_task s1 \<noteq> idle_task s1 then append_ready (current_task s1) s1 else s1))
         collect_task (if current_task s1 \<noteq> idle_task s1 then append_ready (current_task s1) s1 else s1) = Inr s2"
      "res_bind
       (if list_empty (ready_queue s2) \<and> list_empty (sleeping_queue s2) then Inr False
        else if list_empty (ready_queue s2) then
          list_foreach (\<lambda>_. task_links s2) (sleeping_queue s2)
            (\<lambda>t may_wakeup. Inr (if sleep_deadline (tasks s2 t) \<noteq> 0 then (True, False) else (False, may_wakeup))) False
        else Inr True)
       (\<lambda>moretasks. if \<not> moretasks then Inl Reboot else task_switch_next s2) = Inr s'"
  using assms unfolding scheduler_timer_def Let_def by (force simp: res_simps simp del: if_split split: sum.splits)

lemma scheduler_timer_step:
  assumes "sched_inv s R S E" "scheduler_timer regs s = Inr s'" "next_task s (requeued s R) S = (t, R', S')"
  shows "requeued s R \<noteq> [] \<and> sched_inv s' R' S' [] \<and> current_task s' = t \<and> idle_task s' = idle_task s
    \<and> kstacks s' = kstacks s \<and> pid_of s' = pid_of s \<and> dir_of s' = dir_of s
    \<and> (\<forall>x. sleep_deadline (tasks s' x) = sleep_deadline (tasks s x))"
proof -
  obtain s1 s2 where k: "save_task_state (current_task s) regs s = Inr s1"
      "list_foreach task_links (exited_queue (if current_task s1 \<noteq> idle_task s1 then append_ready (current_task s1) s1 else s1))
         collect_task (if current_task s1 \<noteq> idle_task s1 then append_ready (current_task s1) s1 else s1) = Inr s2"
      "res_bind
       (if list_empty (ready_queue s2) \<and> list_empty (sleeping_queue s2) then Inr False
        else if list_empty (ready_queue s2) then
          list_foreach (\<lambda>_. task_links s2) (sleeping_queue s2)
            (\<lambda>t may_wakeup. Inr (if sleep_deadline (tasks s2 t) \<noteq> 0 then (True, False) else (False, may_wakeup))) False
        else Inr True)
       (\<lambda>moretasks. if \<not> moretasks then Inl Reboot else task_switch_next s2) = Inr s'"
    using scheduler_timer_parts [OF assms(2)] by blast
  obtain f where f: "keeps_identity f" "s1 = upd_task (current_task s) f s" "\<And>k. sleep_deadline (f k) = sleep_deadline k"
    using save_task_state_upd [OF k(1)] by metis
  have r: "requeued s1 R = requeued s R" by (simp add: f(2) requeued_def)
  have "sched_inv s1 R S E" using assms(1) sched_inv_upd_task [OF f(1)] f(2) by blast
  note c = collect_exited [OF tick_requeue [OF this] k(2), unfolded r]
  have d: "dll (task_links s2) (ready_queue s2) (requeued s R)" "dll (task_links s2) (sleeping_queue s2) S"
    using c(1) by (auto simp: sched_wf_def queues_def)
  have ne: "requeued s R \<noteq> []" "task_switch_next s2 = Inr s'"
    using k(3) d by (auto simp: dll_list_empty foreach_const [OF d(2)] may_wakeup_false res_simps split: if_splits)
  have t2: "tasks s2 = tasks s1" "idle_task s2 = idle_task s" "timer_timestamp s2 = timer_timestamp s" "kstacks s2 = kstacks s"
    using c(2) f(2) by (auto simp: tick_part_def split: if_splits)
  have n: "next_task s2 (requeued s R) S = (t, R', S')"
    using next_task_tasks [of s2 s "requeued s R" S] assms(3) t2 f(2,3) by (simp add: upd_task_def)
  have w: "sched_wf s2 (requeued s R) S [] {idle_task s2}" using c(1) t2(2) f(2) by simp
  note st = task_switch_next_step [OF ne(2) w n]
  then have ts: "tasks s' = tasks s1" using t2 by simp
  then have "pid_of s' = pid_of s1 \<and> dir_of s' = dir_of s1" by (simp add: pid_of_def [abs_def] dir_of_def [abs_def])
  then show ?thesis using st ne(1) t2 upd_task_of [OF f(1), of "current_task s" s] f(2,3) ts by (simp add: upd_task_def)
qed

section \<open>Blocking\<close>

lemma enter_syscall_upd:
  assumes "enter_syscall regs s = Inr s'"
  obtains f where "keeps_identity f" "s' = upd_task (current_task s) f s" "\<And>k. sleep_deadline (f k) = sleep_deadline k"
    "\<And>k. wait_cansend_port (f k) = wait_cansend_port k"
proof -
  have "save_task_state (current_task s) regs s = Inr s'"
    using assms by (auto simp: enter_syscall_def save_current_task_state_def res_simps)
  then show ?thesis using that by (elim save_task_state_upd) blast
qed

lemma next_task_set:
  assumes "next_task s R S = (t, R', S')"
  shows "insert t (insert (idle_task s) (set R' \<union> set S')) = insert (idle_task s) (set R \<union> set S)"
    "set R' \<subseteq> set R" "set S' \<subseteq> set S"
    "\<lbrakk>x \<in> set S; \<not> deadline_passed (timer_timestamp s) (tasks s x); distinct S; x \<notin> set R; x \<noteq> idle_task s\<rbrakk> \<Longrightarrow> x \<in> set S'"
  using assms by (auto simp: next_task_def find_Some_iff split: option.splits list.splits dest: subsetD [OF set_remove1_subset])

lemma task_block_step:
  assumes "sched_inv s R S E" "current_task s \<noteq> idle_task s" "task_block kregs k cr cs timeout s = Inr s'"
  shows "\<exists>R' S'. sched_inv s' R' S' E
      \<and> insert (current_task s') (insert (idle_task s) (set R' \<union> set S')) = insert (current_task s) (insert (idle_task s) (set R \<union> set S))
      \<and> idle_task s' = idle_task s \<and> pid_of s' = pid_of s \<and> dir_of s' = dir_of s
      \<and> kstacks s' = (kstacks s)(current_task s := k)
      \<and> sleep_deadline (tasks s' (current_task s)) = (if timeout \<noteq> SLEEP_INFINITE then 0 else timer_timestamp s + ucast timeout)
      \<and> wait_cansend_port (tasks s' (current_task s)) = cs
      \<and> (timeout \<noteq> SLEEP_INFINITE \<longrightarrow> current_task s \<in> set S')"
proof -
  let ?c = "current_task s" and ?d = "if timeout \<noteq> SLEEP_INFINITE then 0 else timer_timestamp s + ucast timeout"
  let ?g = "\<lambda>t. t\<lparr>wait_canrecv_port := cr, wait_cansend_port := cs, sleep_deadline := ?d\<rparr>"
  let ?s1 = "(upd_task ?c ?g s)\<lparr>kstacks := (kstacks s)(?c := k)\<rparr>"
  obtain s2 where k: "enter_syscall kregs ?s1 = Inr s2" "syscall_block_handler s2 = Inr s'"
    using assms(3) by (auto simp: task_block_def res_simps Let_def)
  obtain f where f: "keeps_identity f" "s2 = upd_task ?c f ?s1" "\<And>k. sleep_deadline (f k) = sleep_deadline k"
    "\<And>k. wait_cansend_port (f k) = wait_cansend_port k"
    using enter_syscall_upd [OF k(1)] by auto
  have g: "keeps_identity ?g" by (simp add: keeps_identity_def)
  have i1: "sched_inv ?s1 R S E"
    using assms(1) sched_inv_upd_task [OF g, of ?c s R S E] by (simp add: sched_inv_def)
  have i2: "sched_inv s2 R S E" using i1 sched_inv_upd_task [OF f(1), of ?c ?s1 R S E] f(2) by simp
  have c2: "current_task s2 = ?c" "idle_task s2 = idle_task s" by (simp_all add: f(2))
  obtain t R' S' where n: "next_task s2 R (S @ [?c]) = (t, R', S')" by (metis prod_cases3)
  have i3: "sched_inv s' R' S' E \<and> current_task s' = t \<and> idle_task s' = idle_task s \<and> tasks s' = tasks s2
      \<and> kstacks s' = kstacks s2"
    using block_step [OF i2 _ k(2)] n assms(2) c2 by simp
  have id: "pid_of s2 = pid_of s" "dir_of s2 = dir_of s"
    using f(1) by (auto simp: f(2) upd_task_def pid_of_def dir_of_def keeps_identity_def)
  have dl: "sleep_deadline (tasks s2 ?c) = ?d" "wait_cansend_port (tasks s2 ?c) = cs"
    using f(3,4) by (simp_all add: f(2) upd_task_def)
  have "?c \<notin> set (R @ S)" "distinct (S @ [?c])"
    using assms(1) by (auto simp: sched_inv_def sched_wf_def queues_def)
  then have "timeout \<noteq> SLEEP_INFINITE \<longrightarrow> ?c \<in> set S'"
    using next_task_set(4) [OF n, of ?c] dl assms(2) c2 by (simp add: deadline_passed_def)
  then show ?thesis using i3 next_task_set(1) [OF n] id dl c2
    by (intro exI [of _ R'] exI [of _ S']) (auto simp: f(2) pid_of_def [abs_def] dir_of_def [abs_def])
qed

section \<open>Waking\<close>

lemma task_get_result:
  assumes "sched_inv s R S E" "task_get p s = Inr t"
  shows "t = NULL \<or> t \<in> insert (idle_task s) (insert (current_task s) (set R \<union> set S)) \<and> pid_of s t = p"
proof -
  have d: "dll (task_links s) (ready_queue s) R" "dll (task_links s) (sleeping_queue s) S"
    using assms(1) by (auto simp: sched_inv_def sched_wf_def queues_def)
  show ?thesis using assms(2)
    by (auto simp: task_get_def list_find_eq [OF d(1)] list_find_eq [OF d(2)] pid_of_def find_Some_iff split: if_splits option.splits)
qed

lemma find_mem: "find (\<lambda>x. x = t) xs = (if t \<in> set xs then Some t else None)"
  by (induction xs) auto

text \<open>A wake moves a sleeping task to the end of the ready queue and leaves every other task where it is.\<close>

lemma task_wake_step:
  assumes "sched_inv s R S E" "task_wake p s = Inr s'"
  shows "(\<exists>t\<in>set S. pid_of s t = p \<and> s' = append_ready t (remove_sleeping t s) \<and> sched_inv s' (R @ [t]) (remove1 t S) E)
    \<or> s' = s \<and> (\<forall>t\<in>set S. pid_of s t \<noteq> p)"
proof -
  have w: "sched_wf s R S E {current_task s, idle_task s}" using assms(1) by (simp add: sched_inv_def)
  then have d: "dll (task_links s) (ready_queue s) R" "dll (task_links s) (sleeping_queue s) S"
      "\<And>x. x \<in> set S \<Longrightarrow> x \<noteq> current_task s \<and> x \<noteq> idle_task s"
      "inj_on (pid_of s) (all_tasks R S E {current_task s, idle_task s})"
    by (auto simp: sched_wf_def queues_def tasks_ok_def)
  obtain t where t: "task_get p s = Inr t" "t \<noteq> NULL" using assms(2) by (auto simp: task_wake_def res_simps)
  have tp: "t \<in> insert (idle_task s) (insert (current_task s) (set R \<union> set S))" "pid_of s t = p"
    using task_get_result [OF assms(1) t(1)] t(2) by auto
  show ?thesis
  proof (cases "t \<in> set S")
    case True
    have e: "s' = append_ready t (remove_sleeping t s)"
      using assms(2) t(2) True by (simp add: task_wake_def t(1) assert_then_def list_find_eq [OF d(2)] find_mem split: if_splits)
    have "sched_wf (append_ready t (remove_sleeping t s)) (R @ [t]) (remove1 t S) E (insert t {current_task s, idle_task s} - {t})"
      using sched_wf_append(1) [OF sched_wf_remove(2) [OF w True], of t] by blast
    moreover have "insert t {current_task s, idle_task s} - {t} = {current_task s, idle_task s}" using d(3) [OF True] by auto
    ultimately have "sched_inv s' (R @ [t]) (remove1 t S) E" by (simp add: sched_inv_def e remove_sleeping_def append_ready_def split: prod.splits)
    then show ?thesis using True tp(2) e by blast
  next
    case False
    then have "task_wake p s = (if interrupts_enabled s then Inl Assert_Failed else if t \<in> set R then Inr s
        else if p = pid (tasks s (current_task s)) then Inr s else if p = pid (tasks s (idle_task s)) then Inr s else Inl Panic)"
      using t(2) unfolding task_wake_def t(1) assert_then_def by (simp only: list_find_eq [OF d(2)] list_find_eq [OF d(1)] find_mem) simp
    then have "s' = s" using assms(2) by (metis Inl_Inr_False Inr_inject)
    moreover have "pid_of s x \<noteq> p" if "x \<in> set S" for x
      using inj_onD [OF d(4), of x t] tp False that by (auto simp: all_tasks_def)
    ultimately show ?thesis by simp
  qed
qed

lemma sched_inv_not_null:
  assumes "sched_inv s R S E"
  shows "current_task s \<noteq> NULL" "idle_task s \<noteq> NULL" "NULL \<notin> set R" "NULL \<notin> set S"
  using assms by (auto simp: sched_inv_def sched_wf_def queues_def linkable_def dll_def)

lemma sched_inv_same_pid:
  assumes "sched_inv s R S E" "pid_of s x = pid_of s y"
    "x \<in> insert (idle_task s) (insert (current_task s) (set R \<union> set S))"
    "y \<in> insert (idle_task s) (insert (current_task s) (set R \<union> set S))"
  shows "x = y"
proof -
  have "inj_on (pid_of s) (all_tasks R S E {current_task s, idle_task s})"
    using assms(1) by (auto simp: sched_inv_def sched_wf_def tasks_ok_def)
  then show ?thesis by (rule inj_onD [where f = "pid_of s", OF _ assms(2)]) (use assms(3,4) in \<open>auto simp: all_tasks_def\<close>)
qed

lemma find_unique: "t \<in> set xs \<Longrightarrow> P t \<Longrightarrow> (\<And>x. x \<in> set xs \<Longrightarrow> P x \<Longrightarrow> x = t) \<Longrightarrow> find P xs = Some t"
proof (induction xs)
  case (Cons a xs)
  show ?case
  proof (cases "P a")
    case True
    then have "a = t" using Cons.prems(3) [of a] by (simp only: list.set insertI1)
    then show ?thesis using True by simp
  next
    case False
    then have "t \<in> set xs" using Cons.prems(1,2) by auto
    then have "find P xs = Some t" by (rule Cons.IH [OF _ Cons.prems(2)]) (rule Cons.prems(3), simp_all)
    then show ?thesis using False by simp
  qed
qed simp

lemma find_none: "(\<And>x. x \<in> set xs \<Longrightarrow> \<not> P x) \<Longrightarrow> find P xs = None"
  by (simp add: find_None_iff)

lemma task_get_sleeping:
  assumes "sched_inv s R S E" "t \<in> set S"
  shows "task_get (pid_of s t) s = Inr t"
proof -
  have d: "dll (task_links s) (ready_queue s) R" "dll (task_links s) (sleeping_queue s) S" "distinct (R @ S)"
    "t \<noteq> current_task s" "t \<noteq> idle_task s"
    using assms by (auto simp: sched_inv_def sched_wf_def queues_def)
  note same = sched_inv_same_pid [OF assms(1)] and nn = sched_inv_not_null [OF assms(1)]
  have i: "pid_of s t \<noteq> pid_of s (idle_task s)" "pid_of s t \<noteq> pid_of s (current_task s)"
    using same [of t "idle_task s"] same [of t "current_task s"] d assms(2) by auto
  have f: "find (\<lambda>x. pid (tasks s x) = pid_of s t) S = Some t"
    by (rule find_unique [OF assms(2)], simp add: pid_of_def, rule same) (use assms(2) in \<open>simp_all add: pid_of_def\<close>)
  have r: "find (\<lambda>x. pid (tasks s x) = pid_of s t) R = None"
  proof (rule find_none)
    fix x assume "x \<in> set R"
    then show "pid (tasks s x) \<noteq> pid_of s t" using same [of x t] assms(2) d(3) by (auto simp: pid_of_def)
  qed
  show ?thesis using i nn f r by (simp add: task_get_def list_find_eq [OF d(1)] list_find_eq [OF d(2)] pid_of_def)
qed

lemma task_wake_sleeping:
  assumes "sched_inv s R S E" "t \<in> set S" "\<not> interrupts_enabled s"
  shows "task_wake (pid_of s t) s = Inr (append_ready t (remove_sleeping t s))"
    "sched_inv (append_ready t (remove_sleeping t s)) (R @ [t]) (remove1 t S) E"
proof -
  have d: "dll (task_links s) (sleeping_queue s) S" using assms(1) by (auto simp: sched_inv_def sched_wf_def queues_def)
  have "t \<noteq> NULL" using sched_inv_not_null(4) [OF assms(1)] assms(2) by auto
  then show w: "task_wake (pid_of s t) s = Inr (append_ready t (remove_sleeping t s))"
    using assms(2,3) by (simp add: task_wake_def task_get_sleeping [OF assms(1,2)] list_find_eq [OF d] find_mem)
  from task_wake_step [OF assms(1) w] assms(2)
  obtain x where "x \<in> set S" "pid_of s x = pid_of s t" "sched_inv (append_ready t (remove_sleeping t s)) (R @ [x]) (remove1 x S) E" by blast
  then show "sched_inv (append_ready t (remove_sleeping t s)) (R @ [t]) (remove1 t S) E"
    using sched_inv_same_pid [OF assms(1), of x t] assms(2) by simp
qed

text \<open>What a wake leaves alone.\<close>

definition wake_part where
  "wake_part s = (tasks s, exited_queue s, next_pid_value s, current_task s, idle_task s, kstacks s,
     sched_state.more s, interrupts_enabled s, timer_timestamp s)"

lemma wake_part_move: "wake_part (append_ready t (remove_sleeping t s)) = wake_part s"
  by (simp add: wake_part_def append_ready_def remove_sleeping_def interrupts_enabled_def timer_timestamp_def split: prod.splits)

lemma wake_fold:
  assumes "sched_inv s R (A @ S) E" "\<not> interrupts_enabled s" "\<forall>x\<in>set A. wait_cansend_port (tasks s x) \<noteq> port"
  shows "\<exists>s'. foreach_fold (wake_waiting port) S s = Inr s' \<and> keeps_successors task_links (wake_waiting port) S s
    \<and> sched_inv s' (R @ filter (\<lambda>t. wait_cansend_port (tasks s t) = port) S) (A @ filter (\<lambda>t. wait_cansend_port (tasks s t) \<noteq> port) S) E
    \<and> wake_part s' = wake_part s"
  using assms
proof (induction S arbitrary: s R A)
  case (Cons t S)
  show ?case
  proof (cases "wait_cansend_port (tasks s t) = port")
    case True
    let ?u = "append_ready t (remove_sleeping t s)"
    note w = task_wake_sleeping [OF Cons.prems(1) _ Cons.prems(2), of t]
    have p: "wake_part ?u = wake_part s" "tasks ?u = tasks s" "\<not> interrupts_enabled ?u"
      using wake_part_move [of t s] Cons.prems(2) by (auto simp: wake_part_def)
    have "distinct (A @ t # S)" using Cons.prems(1) by (auto simp: sched_inv_def sched_wf_def queues_def)
    then have r: "remove1 t (A @ t # S) = A @ S" by (simp add: remove1_append)
    have i: "sched_inv ?u (R @ [t]) (A @ S) E" using w(2) r by simp
    have b: "wake_waiting port t s = Inr (False, ?u)" using w(1) True by (simp add: wake_waiting_def pid_of_def)
    have "chain (task_links s) S" "chain (task_links ?u) S"
      using Cons.prems(1) i dll_chain [of _ _ "A @ [t]" S] dll_chain [of _ _ A S] by (auto simp: sched_inv_def sched_wf_def queues_def)
    then have "\<forall>y\<in>set S. next_ptr (task_links ?u y) = next_ptr (task_links s y)" using chain_unique by blast
    then show ?thesis using Cons.IH [OF i p(3)] Cons.prems(3) b True p by auto
  next
    case False
    then show ?thesis using Cons.IH [of s R "A @ [t]"] Cons.prems by (auto simp: wake_waiting_def)
  qed
qed simp

lemma wake_tasks_step:
  assumes "sched_inv s R S E" "\<not> interrupts_enabled s"
  shows "\<exists>s'. wake_tasks_waiting_for_port port s = Inr s'
    \<and> sched_inv s' (R @ filter (\<lambda>t. wait_cansend_port (tasks s t) = port) S) (filter (\<lambda>t. wait_cansend_port (tasks s t) \<noteq> port) S) E
    \<and> wake_part s' = wake_part s"
proof -
  have d: "dll (task_links s) (sleeping_queue s) S" using assms(1) by (auto simp: sched_inv_def sched_wf_def queues_def)
  then show ?thesis
    using wake_fold [of s R "[]" S E port] assms list_foreach_fold [of task_links s "sleeping_queue s" S "wake_waiting port"]
    by (auto simp: wake_tasks_waiting_for_port_def)
qed

section \<open>Creating tasks\<close>

text \<open>A new task structure with the next process identifier and a page directory of its own.\<close>

definition created :: "'a sched_state_scheme \<Rightarrow> ptr \<Rightarrow> ptr \<Rightarrow> 'a sched_state_scheme \<Rightarrow> bool" where
  "created s t dir s' \<longleftrightarrow>
     (\<forall>x. x \<noteq> t \<longrightarrow> tasks s' x = tasks s x) \<and> pid_of s' t = next_pid_value s \<and> dir_of s' t = dir \<and>
     task_links s' = (task_links s)(t := detached) \<and> ready_queue s' = ready_queue s \<and> sleeping_queue s' = sleeping_queue s \<and>
     exited_queue s' = exited_queue s \<and> next_pid_value s' = next_pid_value s + 1 \<and> current_task s' = current_task s \<and>
     idle_task s' = idle_task s \<and> kstacks s' = (kstacks s)(t := K_None) \<and> eflags s' = eflags s \<and>
     sched_state.more s' = sched_state.more s \<and> t \<noteq> NULL \<and>
     (\<forall>P. owns s P \<longrightarrow> t \<notin> P \<and> dir \<notin> insert t P \<and> owns s' (insert t (insert dir P)))"

lemma outer_fields:
  fixes s t :: "'a sched_state_scheme"
  assumes "outer t = outer s"
  shows "sched_state.more t = sched_state.more s"
  using assms by (cases s, cases t, simp add: outer_def)

lemma task_create_parts:
  assumes "task_create name s = Inr (t, s')"
  shows "\<exists>s1 m n dir s3. kmalloc SIZEOF_TASK s = Inr (t, s1) \<and>
      vmm_clone_pagedir (s1\<lparr>task_links := (task_links s1)(t := detached), kstacks := (kstacks s1)(t := K_None),
          next_pid_value := next_pid_value s1 + 1, tasks := (tasks s1)(t := \<lparr>pid = next_pid_value s1, task_name = n,
            pagedir = NULL, ctx = zero_context, iomap = m, wait_canrecv_port = 0, wait_cansend_port = 0, sleep_deadline = 0\<rparr>)\<rparr>)
        = Inr (dir, s3) \<and>
      s' = s3\<lparr>tasks := (tasks s3)(t := (tasks s3 t)\<lparr>pagedir := dir\<rparr>)\<rparr>"
  using assms by (fastforce simp: task_create_def task_iomap_set_def upd_task_def Let_def res_simps)

lemma task_create_effect:
  assumes "task_create name s = Inr (t, s')"
  shows "\<exists>dir. created s t dir s'"
proof -
  obtain s1 K dir s3 where k: "kmalloc SIZEOF_TASK s = Inr (t, s1)" "pid K = next_pid_value s1"
      "vmm_clone_pagedir (s1\<lparr>task_links := (task_links s1)(t := detached), kstacks := (kstacks s1)(t := K_None),
          next_pid_value := next_pid_value s1 + 1, tasks := (tasks s1)(t := K)\<rparr>) = Inr (dir, s3)"
      (is "vmm_clone_pagedir ?s2 = _")
      and s': "s' = s3\<lparr>tasks := (tasks s3)(t := (tasks s3 t)\<lparr>pagedir := dir\<rparr>)\<rparr>"
    using task_create_parts [OF assms] by force
  have o1: "outer s1 = outer s" using k(1) by (rule kouter_outer [OF kouter_kmalloc(2)])
  have o3: "outer s3 = outer ?s2" using k(3) by (rule outer_clone_pagedir)
  note p1 = outer_sched_part [OF o1] and p3 = outer_sched_part [OF o3]
  have t: "t \<noteq> NULL" using k(1) by (auto simp: kmalloc_def kmalloc_a_def res_simps critical_Inr split: if_splits)
  have "t \<notin> P \<and> dir \<notin> insert t P \<and> owns s' (insert t (insert dir P))" if "owns s P" for P
  proof -
    have 1: "t \<notin> P" "owns s1 (insert t P)" using owns_kmalloc [OF that k(1)] by (simp_all add: SIZEOF_TASK_def)
    then have "owns ?s2 (insert t P)" by simp
    from owns_clone_pagedir [OF this k(3)] 1 show ?thesis by (simp add: s' insert_commute)
  qed
  then show ?thesis
    using sched_partD [OF p1(1)] sched_partD [OF p3(1)] p1(2) p3(2) k(2) t outer_fields [OF o1] outer_fields [OF o3]
    by (intro exI [of _ dir]) (simp add: created_def s' pid_of_def dir_of_def upd_task_def)
qed

lemma dll_outside: "dll lk l xs \<Longrightarrow> e \<notin> set xs \<Longrightarrow> dll (lk(e := n)) l xs"
  by (erule dll_frame) auto

lemma created_wf:
  assumes "created s t dir s'" "sched_wf s R S E F" "0 \<le> next_pid_value s"
  shows "sched_wf s' R S E (insert t F)" "t \<notin> all_tasks R S E F"
proof -
  let ?T = "all_tasks R S E F"
  have c: "\<And>x. x \<noteq> t \<Longrightarrow> tasks s' x = tasks s x" "pid_of s' t = next_pid_value s" "dir_of s' t = dir"
      "task_links s' = (task_links s)(t := detached)" "ready_queue s' = ready_queue s" "sleeping_queue s' = sleeping_queue s"
      "exited_queue s' = exited_queue s" "next_pid_value s' = next_pid_value s + 1" "t \<noteq> NULL"
    using assms(1) by (auto simp: created_def)
  have q: "queues s R S E F" and ok: "tasks_ok s ?T" using assms(2) by (auto simp: sched_wf_def)
  have "t \<notin> P \<and> dir \<notin> insert t P \<and> owns s' (insert t (insert dir P))" if "owns s P" for P
    using assms(1) that by (simp add: created_def)
  from this [of "?T \<union> dir_of s ` ?T"]
  have o: "t \<notin> ?T \<union> dir_of s ` ?T" "dir \<notin> insert t (?T \<union> dir_of s ` ?T)" "owns s' (insert t (insert dir (?T \<union> dir_of s ` ?T)))"
    using ok by (simp_all add: tasks_ok_def)
  show nt: "t \<notin> ?T" using o(1) by simp
  have f: "x \<in> ?T \<Longrightarrow> pid_of s' x = pid_of s x" "x \<in> ?T \<Longrightarrow> dir_of s' x = dir_of s x" for x
    using c(1) [of x] nt by (cases "x = t"; simp add: pid_of_def dir_of_def)+
  have im: "dir_of s' ` ?T = dir_of s ` ?T" by (rule image_cong) (simp_all add: f(2))
  have "inj_on (pid_of s') ?T = inj_on (pid_of s) ?T" "inj_on (dir_of s') ?T = inj_on (dir_of s) ?T"
    by (rule inj_on_cong, erule f)+
  then have inj: "inj_on (pid_of s') ?T" "inj_on (dir_of s') ?T" using ok by (simp_all add: tasks_ok_def)
  have b: "0 \<le> pid_of s' x \<and> pid_of s' x < next_pid_value s" if "x \<in> ?T" for x
    using ok f(1) [OF that] that by (simp add: tasks_ok_def)
  have "pid_of s' t \<notin> pid_of s' ` ?T" using b c(2) by force
  then have "inj_on (pid_of s') (insert t ?T)" "inj_on (dir_of s') (insert t ?T)"
    using inj nt o(2) c(3) im by simp_all
  moreover have "\<forall>x\<in>insert t ?T. 0 \<le> pid_of s' x \<and> pid_of s' x < next_pid_value s'"
    using b c(2,8) assms(3) by force
  moreover have "insert t ?T \<inter> dir_of s' ` insert t ?T = {}"
    using ok o by (auto simp: tasks_ok_def im c(3))
  moreover have "owns s' (insert t ?T \<union> dir_of s' ` insert t ?T)"
    using o(3) by (simp add: insert_commute im c(3))
  ultimately have "tasks_ok s' (insert t ?T)" by (simp add: tasks_ok_def)
  moreover have "all_tasks R S E (insert t F) = insert t ?T" by (auto simp: all_tasks_def)
  moreover have "queues s' R S E (insert t F)"
    using q nt c(9) by (auto simp: queues_def c(4-7) all_tasks_def linkable_def intro: dll_outside)
  ultimately show "sched_wf s' R S E (insert t F)" by (simp add: sched_wf_def)
qed

lemma fork_step:
  assumes "sched_inv s R S E" "0 \<le> next_pid_value s" "syscall_fork_handler regs s = Inr (r, s')"
  shows "\<exists>t dir. t \<notin> all_tasks R S E {current_task s, idle_task s} \<and> sched_inv s' (R @ [t]) S E
      \<and> current_task s' = current_task s \<and> idle_task s' = idle_task s \<and> next_pid_value s' = next_pid_value s + 1
      \<and> pid_of s' t = next_pid_value s \<and> r = of_int (next_pid_value s)
      \<and> (\<forall>x. x \<noteq> t \<longrightarrow> tasks s' x = tasks s x) \<and> kstacks s' = (kstacks s)(t := K_None)
      \<and> sched_state.more s' = sched_state.more s \<and> eflags s' = eflags s
      \<and> c_eax (ctx (tasks s' t)) = 0 \<and> c_eip (ctx (tasks s' t)) = r_eip regs
      \<and> (\<forall>P. owns s P \<longrightarrow> t \<notin> P \<and> dir \<notin> P \<and> owns s' (insert t (insert dir P))) \<and> dir_of s' t = dir"
proof -
  obtain t s1 s2 pa s3 where k: "task_create (task_name (tasks s (current_task s))) s = Inr (t, s1)"
      "save_task_state t regs s1 = Inr s2" "vmm_get_physical (pagedir (tasks s2 t)) s2 = Inr (pa, s3)"
    and r: "r = of_int (pid (tasks (append_ready t (upd_task t (\<lambda>k. k\<lparr>ctx := (ctx k)\<lparr>c_cr3 := pa, c_eax := 0\<rparr>\<rparr>) s3)) t))"
    and s': "s' = append_ready t (upd_task t (\<lambda>k. k\<lparr>ctx := (ctx k)\<lparr>c_cr3 := pa, c_eax := 0\<rparr>\<rparr>) s3)"
    using assms(3) by (auto simp: syscall_fork_handler_def Let_def res_simps)
  obtain dir where c: "created s t dir s1" using task_create_effect [OF k(1)] by blast
  let ?F = "{current_task s, idle_task s}"
  note w1 = created_wf [OF c assms(1) [unfolded sched_inv_def] assms(2)]
  obtain f where f: "keeps_identity f" "s2 = upd_task t f s1" "\<And>k. c_eip (ctx (f k)) = r_eip regs"
    using save_task_state_upd [OF k(2)] by metis
  have v: "vouter s3 = vouter s2" using k(3) by (rule vframe)
  note p = outer_sched_part [OF kouter_outer [OF vouter_kouter [OF v]]]
  have g: "keeps_identity (\<lambda>k. k\<lparr>ctx := (ctx k)\<lparr>c_cr3 := pa, c_eax := 0\<rparr>\<rparr>)" by (simp add: keeps_identity_def)
  have "sched_wf s2 R S E (insert t ?F)" using w1(1) sched_wf_upd_task [OF f(1)] f(2) by blast
  then have "sched_wf s3 R S E (insert t ?F)" by (rule same_sched_wf [OF vouter_same_sched [OF v]])
  then have "sched_wf (upd_task t (\<lambda>k. k\<lparr>ctx := (ctx k)\<lparr>c_cr3 := pa, c_eax := 0\<rparr>\<rparr>) s3) R S E (insert t ?F)"
    using sched_wf_upd_task [OF g] by blast
  from sched_wf_append(1) [OF this, of t] have w: "sched_wf s' (R @ [t]) S E (insert t ?F - {t})" by (simp add: s')
  have F: "insert t ?F - {t} = ?F" using w1(2) by (auto simp: all_tasks_def)
  have e: "current_task s' = current_task s" "idle_task s' = idle_task s" "tasks s3 = tasks s2" "kstacks s' = kstacks s1"
      "next_pid_value s' = next_pid_value s + 1" "eflags s' = eflags s"
    using sched_partD [OF p(1)] p(2) c f(2) by (simp_all add: s' created_def append_ready_def prod.case_eq_if upd_task_def)
  have "sched_state.more s' = sched_state.more s"
    using outer_fields [OF kouter_outer [OF vouter_kouter [OF v]]] c f(2)
    by (simp add: s' created_def append_ready_def prod.case_eq_if upd_task_def)
  moreover have "\<forall>P. owns s P \<longrightarrow> t \<notin> P \<and> dir \<notin> P \<and> owns s' (insert t (insert dir P))"
  proof -
    have "owns s' P = owns s1 P" for P using owns_vouter [OF v] f(2) by (simp add: s' append_ready_def prod.case_eq_if)
    then show ?thesis using c by (simp add: created_def)
  qed
  moreover have "pid_of s' t = next_pid_value s" "r = of_int (next_pid_value s)" "\<forall>x. x \<noteq> t \<longrightarrow> tasks s' x = tasks s x"
      "c_eax (ctx (tasks s' t)) = 0" "c_eip (ctx (tasks s' t)) = r_eip regs" "kstacks s' = (kstacks s)(t := K_None)" "dir_of s' t = dir"
    using c f e(3,4) by (simp_all add: r s' created_def pid_of_def dir_of_def append_ready_def prod.case_eq_if upd_task_def keeps_identity_def)
  ultimately show ?thesis
    using w w1(2) e unfolding F by (intro exI [of _ t] exI [of _ dir]) (simp add: sched_inv_def)
qed

end
