(* ===== verification/KernelFrame.thy ===== *)
theory KernelFrame
  imports Ipc SchedInv
begin

text \<open>
  What the operations of the scheduler leave alone: the part of the state that belongs to the
  components above it, and the heap blocks these components own. Together with the invariant
  of the scheduler this lets the invariant of the ports be carried through every switch.
\<close>

section \<open>Keeping what belongs to others\<close>

definition keeps :: "'a sched_state_scheme \<Rightarrow> 'a sched_state_scheme \<Rightarrow> bool" where
  "keeps s t \<longleftrightarrow> sched_state.more t = sched_state.more s \<and> owns_on s t"

named_theorems keep_rules \<open>operations that leave the components above the scheduler alone\<close>

lemma keeps_refl [simp, intro]: "keeps s s"
  by (simp add: keeps_def)

lemma keeps_trans: "keeps s t \<Longrightarrow> keeps t u \<Longrightarrow> keeps s u"
  by (auto simp: keeps_def intro: owns_on_trans)

lemma keeps_queue [simp]:
  "keeps u (append_ready t s) = keeps u s" "keeps u (append_sleeping t s) = keeps u s" "keeps u (append_exited t s) = keeps u s"
  "keeps u (remove_ready t s) = keeps u s" "keeps u (remove_sleeping t s) = keeps u s" "keeps u (remove_exited t s) = keeps u s"
  "keeps (append_ready t s) u = keeps s u" "keeps (append_sleeping t s) u = keeps s u" "keeps (append_exited t s) u = keeps s u"
  "keeps (remove_ready t s) u = keeps s u" "keeps (remove_sleeping t s) u = keeps s u" "keeps (remove_exited t s) u = keeps s u"
  by (simp_all add: keeps_def owns_on_def append_ready_def append_sleeping_def append_exited_def remove_ready_def
      remove_sleeping_def remove_exited_def prod.case_eq_if)

lemma keeps_upd [simp]:
  "keeps u (upd_task t f s) = keeps u s" "keeps u (s\<lparr>kstacks := k\<rparr>) = keeps u s" "keeps u (s\<lparr>current_task := t\<rparr>) = keeps u s"
  "keeps (upd_task t f s) u = keeps s u" "keeps (s\<lparr>kstacks := k\<rparr>) u = keeps s u" "keeps (s\<lparr>current_task := t\<rparr>) u = keeps s u"
  "keeps u (s\<lparr>eflags := e\<rparr>) = keeps u s" "keeps (s\<lparr>eflags := e\<rparr>) u = keeps s u"
  "keeps u (s\<lparr>tss := x\<rparr>) = keeps u s" "keeps (s\<lparr>tss := x\<rparr>) u = keeps s u"
  "keeps u (cli s) = keeps u s" "keeps (cli s) u = keeps s u"
  by (simp_all add: keeps_def owns_on_def upd_task_def cli_def)

lemma vouter_keeps:
  fixes s t :: "'a sched_state_scheme"
  assumes "vouter t = vouter s"
  shows "keeps s t"
  using assms owns_onI [OF assms] unfolding keeps_def by (cases s, cases t) (simp add: vouter_def)

lemma keeps_tss [keep_rules]:
  "tss_set_kernel_stack e s = Inr (u, t) \<Longrightarrow> keeps s t"
  "gdt_iomap_set b s = Inr t \<Longrightarrow> keeps s t"
  by (auto simp: tss_set_kernel_stack_def critical_Inr gdt_iomap_set_def res_simps keeps_def owns_on_def restore_if_def
      cli_def sti_def)

lemma keeps_vmm [keep_rules]:
  "vmm_copy_kernel_mappings d s = Inr (u, t) \<Longrightarrow> keeps s t"
  "vmm_get_physical va s = Inr (p, t) \<Longrightarrow> keeps s t"
  "vmm_get_flags va s = Inr (fl, t) \<Longrightarrow> keeps s t"
  "vmm_map va pa fl s = Inr (u, t) \<Longrightarrow> keeps s t"
  "vmm_unmap va s = Inr (u, t) \<Longrightarrow> keeps s t"
  "pmm_alloc s = Inr (p, t) \<Longrightarrow> keeps s t"
  by (auto intro!: vouter_keeps dest!: vframe)

lemma keeps_task_switch [keep_rules]:
  assumes "task_switch t s = Inr s'"
  shows "keeps s s'"
proof -
  let ?s = "s\<lparr>current_task := t\<rparr>"
  obtain u1 s1 u2 s2 s3 where k: "vmm_copy_kernel_mappings (pagedir (tasks s t)) ?s = Inr (u1, s1)"
      "tss_set_kernel_stack (KERNEL_STACK + PAGE_SIZE) s1 = Inr (u2, s2)" "gdt_iomap_set (iomap (tasks s2 t)) s2 = Inr s3"
    and s': "s' = switch_context (ctx (tasks s3 t)) s3"
    using assms by (auto simp: task_switch_def res_simps Let_def)
  have "keeps ?s s3" using keep_rules(3) [OF k(1)] keep_rules(1) [OF k(2)] keep_rules(2) [OF k(3)] keeps_trans by blast
  moreover have "keeps s3 s'" by (simp add: s' keeps_def owns_on_def switch_context_def)
  ultimately show ?thesis using keeps_trans by fastforce
qed

lemma keeps_task_switch_next [keep_rules]: "task_switch_next s = Inr s' \<Longrightarrow> keeps s s'"
  by (fastforce simp: task_switch_next_def Let_def res_simps dest: keeps_task_switch split: if_splits)

lemma keeps_handlers [keep_rules]:
  "syscall_yield_handler s = Inr s' \<Longrightarrow> keeps s s'"
  "syscall_exit_handler s = Inr s' \<Longrightarrow> keeps s s'"
  "syscall_block_handler s = Inr s' \<Longrightarrow> keeps s s'"
  by (auto simp: syscall_yield_handler_def syscall_exit_handler_def syscall_block_handler_def dest!: keeps_task_switch_next)

lemma keeps_enter_syscall [keep_rules]: "enter_syscall regs s = Inr s' \<Longrightarrow> keeps s s'"
  by (elim enter_syscall_upd) simp

lemma keeps_task_block [keep_rules]:
  assumes "task_block kregs k cr cs timeout s = Inr s'"
  shows "keeps s s'"
proof -
  obtain f k' s2 where k: "enter_syscall kregs ((upd_task (current_task s) f s)\<lparr>kstacks := k'\<rparr>) = Inr s2"
      "syscall_block_handler s2 = Inr s'"
    using assms by (auto simp: task_block_def res_simps Let_def)
  show ?thesis using keeps_enter_syscall [OF k(1)] keeps_handlers(3) [OF k(2)] by (auto intro: keeps_trans)
qed

definition kept where
  "kept s = (sched_state.more s, owns s)"

lemma kept_keeps: "kept t = kept s \<Longrightarrow> keeps s t"
  by (simp add: kept_def keeps_def owns_on_def)

lemma kept_task_wake: "task_wake p s = Inr s' \<Longrightarrow> kept s' = kept s"
  by (auto simp: task_wake_def res_simps kept_def append_ready_def remove_sleeping_def prod.case_eq_if fun_eq_iff split: if_splits)

lemma kept_wake_waiting: "wake_waiting n t s = Inr (b, s') \<Longrightarrow> kept s' = kept s"
  by (auto simp: wake_waiting_def res_simps dest!: kept_task_wake split: if_splits)

lemma keeps_wake [keep_rules]:
  "task_wake p s = Inr s' \<Longrightarrow> keeps s s'"
  "wake_tasks_waiting_for_port n s = Inr s' \<Longrightarrow> keeps s s'"
  by (auto simp: wake_tasks_waiting_for_port_def res_simps intro!: kept_keeps
      dest!: kept_task_wake list_foreach_keeps [where F = kept, OF _ kept_wake_waiting])

lemma owns_subset: "owns s P \<Longrightarrow> P' \<subseteq> P \<Longrightarrow> owns s P'"
  unfolding owns_def by blast

section \<open>The tick\<close>

text \<open>The tick frees the blocks of the exited tasks and nothing else.\<close>

lemma collect_frees:
  assumes "sched_wf s R S (t # E) F" "collect_task t s = Inr (b, s')" "owns s (P \<union> {t, dir_of s t})" "t \<notin> P" "dir_of s t \<notin> P"
  shows "owns s' P \<and> sched_state.more s' = sched_state.more s"
proof -
  obtain u1 s1 u2 where k: "vmm_destroy_pagedir (dir_of s t) (remove_exited t s) = Inr (u1, s1)" "kfree t s1 = Inr (u2, s')"
    using assms(2) by (auto simp: collect_task_def Let_def res_simps dir_of_def)
  have "owns (remove_exited t s) (P \<union> {t, dir_of s t})"
    using assms(3) by (simp add: remove_exited_def prod.case_eq_if)
  then have "owns s1 (P \<union> {t, dir_of s t} - {dir_of s t})" using owns_destroy_pagedir [OF _ _ k(1)] by blast
  moreover have "t \<noteq> dir_of s t"
    using assms(1) by (auto simp: sched_wf_def tasks_ok_def all_tasks_def)
  moreover from this have "P \<union> {t, dir_of s t} - {dir_of s t} - {t} = P" using assms(4,5) by auto
  ultimately have "owns s' P" using owns_kfree [of s1 "P \<union> {t, dir_of s t} - {dir_of s t}" t u2 s'] k(2) by auto
  moreover have "outer s' = outer (remove_exited t s)"
    using outer_destroy_pagedir [OF k(1)] kouter_outer [OF kouter_kmalloc(3) [OF k(2)]] by simp
  then have "sched_state.more s' = sched_state.more (remove_exited t s)" by (rule outer_fields)
  ultimately show ?thesis by (simp add: remove_exited_def prod.case_eq_if)
qed

lemma collect_all_frees:
  "sched_wf s R S E F \<Longrightarrow> foreach_fold collect_task E s = Inr s' \<Longrightarrow> owns s (P \<union> set E \<union> dir_of s ` set E) \<Longrightarrow>
     P \<inter> (set E \<union> dir_of s ` set E) = {} \<Longrightarrow> owns s' P \<and> sched_state.more s' = sched_state.more s"
proof (induction E arbitrary: s)
  case (Cons t E)
  obtain b u where c: "collect_task t s = Inr (b, u)" using Cons.prems(2) by (auto split: sum.splits)
  note k = collect_step [OF Cons.prems(1) c]
  have ok: "tasks_ok s (all_tasks R S (t # E) F)" "distinct (t # E)" using Cons.prems(1) by (auto simp: sched_wf_def queues_def)
  let ?P = "P \<union> set E \<union> dir_of s ` set E"
  have u: "dir_of u = dir_of s" using sched_partD(1) [OF k(3)] by (simp add: dir_of_def [abs_def])
  have "t \<notin> ?P"
    using ok Cons.prems(4) by (auto simp: tasks_ok_def all_tasks_def)
  moreover have "dir_of s t \<notin> ?P"
  proof -
    have "dir_of s t \<notin> dir_of s ` set E"
    proof
      assume "dir_of s t \<in> dir_of s ` set E"
      then obtain x where x: "x \<in> set E" "dir_of s t = dir_of s x" by blast
      have "inj_on (dir_of s) (all_tasks R S (t # E) F)" using ok(1) by (simp add: tasks_ok_def)
      then have "t = x" by (rule inj_onD [where f = "dir_of s", OF _ x(2)]) (use x(1) in \<open>auto simp: all_tasks_def\<close>)
      then show False using x(1) ok(2) by simp
    qed
    moreover have "dir_of s t \<notin> set E" using ok(1) by (auto simp: tasks_ok_def all_tasks_def)
    ultimately show ?thesis using Cons.prems(4) by auto
  qed
  moreover have "owns s (?P \<union> {t, dir_of s t})" using Cons.prems(3) by (simp add: insert_commute Un_commute Un_left_commute)
  ultimately have o: "owns u ?P" "sched_state.more u = sched_state.more s"
    using collect_frees [OF Cons.prems(1) c, of ?P] by blast+
  have "foreach_fold collect_task E u = Inr s'" using Cons.prems(2) c k(1) by simp
  then show ?case using Cons.IH [OF k(2)] o u Cons.prems(4) by auto
qed simp

lemma scheduler_timer_frees:
  assumes "sched_inv s R S E" "scheduler_timer regs s = Inr s'" "owns s (P \<union> set E \<union> dir_of s ` set E)"
    "P \<inter> (set E \<union> dir_of s ` set E) = {}"
  shows "owns s' P \<and> sched_state.more s' = sched_state.more s"
proof -
  obtain s1 s2 where k: "save_task_state (current_task s) regs s = Inr s1"
      "list_foreach task_links (exited_queue (if current_task s1 \<noteq> idle_task s1 then append_ready (current_task s1) s1 else s1))
         collect_task (if current_task s1 \<noteq> idle_task s1 then append_ready (current_task s1) s1 else s1) = Inr s2" (is "list_foreach _ _ _ ?u = _")
      "task_switch_next s2 = Inr s'"
    by (rule scheduler_timer_parts [OF assms(2)]) (erule that, assumption, auto simp: res_simps split: if_splits)
  obtain f where f: "keeps_identity f" "s1 = upd_task (current_task s) f s" using save_task_state_upd [OF k(1)] by metis
  have "sched_inv s1 R S E" using assms(1) sched_inv_upd_task [OF f(1)] f(2) by blast
  from tick_requeue [OF this] have w: "sched_wf ?u (requeued s1 R) S E {idle_task s1}" .
  have u: "dir_of ?u = dir_of s" "owns ?u Q = owns s Q" "sched_state.more ?u = sched_state.more s" for Q
    using upd_task_of(2) [OF f(1), of "current_task s" s]
    by (auto simp: dir_of_def [abs_def] f(2) append_ready_def prod.case_eq_if) (simp_all add: upd_task_def)
  have "dll (task_links ?u) (exited_queue ?u) E" using w by (simp add: sched_wf_def queues_def)
  then have "foreach_fold collect_task E ?u = Inr s2"
    using list_foreach_fold [of task_links ?u "exited_queue ?u" E collect_task] collect_all [OF w] k(2) by simp
  from collect_all_frees [OF w this, of P] have "owns s2 P \<and> sched_state.more s2 = sched_state.more s"
    using assms(3,4) u by simp
  moreover have "keeps s2 s'" using k(3) by (rule keep_rules)
  ultimately show ?thesis by (auto simp: keeps_def intro: owns_onD)
qed

end
