(* ===== verification/IpcInv.thy ===== *)
theory IpcInv
  imports KernelFrame
begin

text \<open>
  The invariant of the ports and of the whole kernel state, and its preservation by every
  operation of \<open>kernel/ipc.c\<close>: the list of ports and the message queues are well formed, port
  numbers are unique, every queued message carries its checksum, and ports, messages, task
  structures and page directories are separate blocks of the kernel heap.
\<close>

section \<open>The invariant\<close>

text \<open>\<open>PL\<close> are the open ports and \<open>Q p\<close> the messages in the queue of port \<open>p\<close>.\<close>

definition msg_ok :: "message \<Rightarrow> bool" where
  "msg_ok msg \<longleftrightarrow> checksum msg = message_checksum msg \<and> unat SIZEOF_MESSAGE + unat (len msg) + 64 < 2 ^ 32"

definition msgs_of :: "ptr list \<Rightarrow> (ptr \<Rightarrow> ptr list) \<Rightarrow> ptr list" where
  "msgs_of PL Q = concat (map Q PL)"

definition port_numbers_ok :: "'a ipc_state_scheme \<Rightarrow> ptr list \<Rightarrow> bool" where
  "port_numbers_ok s PL \<longleftrightarrow>
     inj_on (\<lambda>p. number (ports s p)) (set PL) \<and> 32 \<le> next_port_value s \<and>
     (\<forall>p\<in>set PL. 0 \<le> number (ports s p) \<and> number (ports s p) < next_port_value s \<and>
        (number (ports s p) < 32 \<longrightarrow> bit (reserved_ports s) (nat (number (ports s p)))))"

definition ipc_wf :: "'a ipc_state_scheme \<Rightarrow> ptr list \<Rightarrow> (ptr \<Rightarrow> ptr list) \<Rightarrow> bool" where
  "ipc_wf s PL Q \<longleftrightarrow>
     dll (port_links s) (port_list s) PL \<and> port_list_lock s = 0 \<and>
     (\<forall>p\<in>set PL. lock (ports s p) = 0 \<and> dll (msg_links s) (queue (ports s p)) (Q p)) \<and>
     distinct (msgs_of PL Q) \<and> (\<forall>m\<in>set (msgs_of PL Q). msg_ok (messages s m)) \<and> port_numbers_ok s PL"

definition ipc_blocks :: "ptr list \<Rightarrow> (ptr \<Rightarrow> ptr list) \<Rightarrow> ptr set" where
  "ipc_blocks PL Q = set PL \<union> set (msgs_of PL Q)"

definition sched_blocks :: "'a sched_state_scheme \<Rightarrow> ptr list \<Rightarrow> ptr list \<Rightarrow> ptr list \<Rightarrow> ptr set" where
  "sched_blocks s R S E =
     all_tasks R S E {current_task s, idle_task s} \<union> dir_of s ` all_tasks R S E {current_task s, idle_task s}"

definition kernel_inv ::
    "'a ipc_state_scheme \<Rightarrow> ptr list \<Rightarrow> ptr list \<Rightarrow> ptr list \<Rightarrow> ptr list \<Rightarrow> (ptr \<Rightarrow> ptr list) \<Rightarrow> bool" where
  "kernel_inv s R S E PL Q \<longleftrightarrow>
     sched_inv s R S E \<and> ipc_wf s PL Q \<and> owns s (sched_blocks s R S E \<union> ipc_blocks PL Q) \<and>
     sched_blocks s R S E \<inter> ipc_blocks PL Q = {} \<and> set PL \<inter> set (msgs_of PL Q) = {} \<and> 0 \<le> next_pid_value s"

section \<open>What the invariant of the ports depends on\<close>

lemma ipc_fields:
  fixes s t :: "'a ipc_state_scheme"
  assumes "sched_state.more t = sched_state.more s"
  shows "ports t = ports s" "port_links t = port_links s" "messages t = messages s" "msg_links t = msg_links s"
    "port_list t = port_list s" "port_list_lock t = port_list_lock s" "reserved_ports t = reserved_ports s"
    "next_port_value t = next_port_value s"
  using assms by (cases s, cases t, simp)+

lemma ipc_wf_cong:
  fixes s t :: "'a ipc_state_scheme"
  assumes "sched_state.more t = sched_state.more s"
  shows "ipc_wf t PL Q = ipc_wf s PL Q"
  by (simp add: ipc_wf_def port_numbers_ok_def ipc_fields [OF assms])

lemma keeps_owns: "keeps s t \<Longrightarrow> owns s P \<Longrightarrow> owns t P"
  by (auto simp: keeps_def intro: owns_onD)

lemma kernel_inv_sched:
  assumes "kernel_inv s R S E PL Q" "keeps s t" "sched_inv t R' S' E'" "0 \<le> next_pid_value t"
    "sched_blocks t R' S' E' = sched_blocks s R S E"
  shows "kernel_inv t R' S' E' PL Q"
proof -
  have "ipc_wf t PL Q" using assms(1,2) ipc_wf_cong [of t s] by (auto simp: kernel_inv_def keeps_def)
  then show ?thesis using assms keeps_owns [OF assms(2)] by (simp add: kernel_inv_def)
qed

lemma sched_blocks_eq:
  assumes "all_tasks R' S' E' {current_task t, idle_task t} = all_tasks R S E {current_task s, idle_task s}" "dir_of t = dir_of s"
  shows "sched_blocks t R' S' E' = sched_blocks s R S E"
  using assms by (simp add: sched_blocks_def)

section \<open>Waking\<close>

text \<open>The part of the state of the scheduler that decides about the invariant, after a wake.\<close>

definition woken :: "'a sched_state_scheme \<Rightarrow> ptr list \<Rightarrow> ptr list \<Rightarrow> 'a sched_state_scheme \<Rightarrow> ptr list \<Rightarrow> ptr list \<Rightarrow> ptr list \<Rightarrow> bool" where
  "woken s R S s' R' S' E \<longleftrightarrow>
     sched_inv s' R' S' E \<and> wake_part s' = wake_part s \<and> set R' \<union> set S' = set R \<union> set S \<and>
     sched_blocks s' R' S' E = sched_blocks s R S E \<and> keeps s s'"

lemma wokenI:
  assumes "sched_inv s' R' S' E" "wake_part s' = wake_part s" "set R' \<union> set S' = set R \<union> set S" "keeps s s'"
  shows "woken s R S s' R' S' E"
proof -
  have f: "current_task s' = current_task s" "idle_task s' = idle_task s" "tasks s' = tasks s" using assms(2) by (simp_all add: wake_part_def)
  have "all_tasks R' S' E {current_task s', idle_task s'} = all_tasks R S E {current_task s, idle_task s}"
    using assms(3) by (simp add: all_tasks_def f)
  then have "sched_blocks s' R' S' E = sched_blocks s R S E" by (rule sched_blocks_eq) (simp add: dir_of_def [abs_def] f)
  then show ?thesis using assms by (simp add: woken_def)
qed

lemma woken_wake:
  assumes "sched_inv s R S E" "task_wake p s = Inr s'"
  shows "\<exists>R' S'. woken s R S s' R' S' E"
  using task_wake_step [OF assms]
proof (elim disjE bexE conjE)
  fix t assume t: "t \<in> set S" "s' = append_ready t (remove_sleeping t s)" "sched_inv s' (R @ [t]) (remove1 t S) E"
  have "distinct S" using assms(1) by (simp add: sched_inv_def sched_wf_def queues_def)
  then have st: "set (R @ [t]) \<union> set (remove1 t S) = set R \<union> set S" using t(1) by auto
  show ?thesis
    using wokenI [OF t(3) _ st] wake_part_move [of t s] t(2) keeps_wake(1) [OF assms(2)] by blast
qed (use assms in \<open>auto simp: woken_def\<close>)

lemma woken_wake_tasks:
  assumes "sched_inv s R S E" "wake_tasks_waiting_for_port n s = Inr s'"
  shows "\<exists>R' S'. woken s R S s' R' S' E"
proof -
  have i: "\<not> interrupts_enabled s" using assms by (auto simp: wake_tasks_waiting_for_port_def res_simps)
  let ?P = "\<lambda>t. wait_cansend_port (tasks s t) = n"
  have "sched_inv s' (R @ filter ?P S) (filter (\<lambda>t. \<not> ?P t) S) E" "wake_part s' = wake_part s"
    using wake_tasks_step [OF assms(1) i, of n] assms(2) by auto
  moreover have "set (R @ filter ?P S) \<union> set (filter (\<lambda>t. \<not> ?P t) S) = set R \<union> set S" by auto
  ultimately show ?thesis using wokenI keeps_wake(2) [OF assms(2)] by blast
qed

lemma kernel_inv_woken:
  assumes "kernel_inv s R S E PL Q" "woken s R S s' R' S' E"
  shows "kernel_inv s' R' S' E PL Q"
proof -
  have "0 \<le> next_pid_value s'" using assms by (simp add: woken_def wake_part_def kernel_inv_def)
  then show ?thesis using kernel_inv_sched [OF assms(1), of s' R' S' E] assms(2) by (simp add: woken_def)
qed

section \<open>Blocking\<close>

lemma task_switch_pid: "task_switch t s = Inr s' \<Longrightarrow> next_pid_value s' = next_pid_value s"
  using sched_partD(6) [of s' "s\<lparr>current_task := t\<rparr>"] task_switch_effect(1) [of t s s'] by (simp add: same_sched_def)

lemma queue_next_pid [simp]:
  "next_pid_value (remove_ready x s) = next_pid_value s" "next_pid_value (remove_sleeping x s) = next_pid_value s"
  "next_pid_value (append_ready x s) = next_pid_value s" "next_pid_value (append_sleeping x s) = next_pid_value s"
  "next_pid_value (append_exited x s) = next_pid_value s"
  by (simp_all add: remove_ready_def remove_sleeping_def append_ready_def append_sleeping_def append_exited_def prod.case_eq_if)

lemma task_switch_next_pid: "task_switch_next s = Inr s' \<Longrightarrow> next_pid_value s' = next_pid_value s"
  by (auto simp: task_switch_next_def Let_def res_simps dest!: task_switch_pid split: if_splits)

lemma handlers_next_pid:
  "syscall_yield_handler s = Inr s' \<Longrightarrow> next_pid_value s' = next_pid_value s"
  "syscall_exit_handler s = Inr s' \<Longrightarrow> next_pid_value s' = next_pid_value s"
  "syscall_block_handler s = Inr s' \<Longrightarrow> next_pid_value s' = next_pid_value s"
  by (auto simp: syscall_yield_handler_def syscall_exit_handler_def syscall_block_handler_def dest!: task_switch_next_pid)

lemma task_block_next_pid: "task_block kregs k cr cs timeout s = Inr s' \<Longrightarrow> next_pid_value s' = next_pid_value s"
  by (auto simp: task_block_def res_simps Let_def dest!: handlers_next_pid elim!: enter_syscall_upd)

lemma all_tasks_pair: "all_tasks R S E {a, b} = insert a (insert b (set R \<union> set S)) \<union> set E"
  by (auto simp: all_tasks_def)

lemma kernel_inv_block:
  assumes "kernel_inv s R S E PL Q" "current_task s \<noteq> idle_task s" "task_block kregs k cr cs timeout s = Inr s'"
  shows "\<exists>R' S'. kernel_inv s' R' S' E PL Q \<and> kstacks s' = (kstacks s)(current_task s := k) \<and> pid_of s' = pid_of s
    \<and> idle_task s' = idle_task s"
proof -
  have i: "sched_inv s R S E" using assms(1) by (simp add: kernel_inv_def)
  obtain R' S' where b: "sched_inv s' R' S' E"
      "insert (current_task s') (insert (idle_task s) (set R' \<union> set S')) = insert (current_task s) (insert (idle_task s) (set R \<union> set S))"
      "idle_task s' = idle_task s" "pid_of s' = pid_of s" "dir_of s' = dir_of s" "kstacks s' = (kstacks s)(current_task s := k)"
    using task_block_step [OF i assms(2,3)] by blast
  have "all_tasks R' S' E {current_task s', idle_task s'} = all_tasks R S E {current_task s, idle_task s}"
    unfolding all_tasks_pair b(3) b(2) by (rule refl)
  then have "sched_blocks s' R' S' E = sched_blocks s R S E" by (rule sched_blocks_eq) (rule b(5))
  moreover have "0 \<le> next_pid_value s'" using task_block_next_pid [OF assms(3)] assms(1) by (simp add: kernel_inv_def)
  ultimately show ?thesis
    using kernel_inv_sched [OF assms(1) keeps_task_block [OF assms(3)] b(1)] b by blast
qed

section \<open>Looking up ports\<close>

lemma lock_ports_run: "port_list_lock s = 0 \<Longrightarrow> lock_ports s = Inr (s\<lparr>port_list_lock := 1\<rparr>)"
  by (simp add: lock_ports_def)

lemma unlock_ports_run: "port_list_lock s = 1 \<Longrightarrow> unlock_ports s = Inr (s\<lparr>port_list_lock := 0\<rparr>)"
  by (simp add: unlock_ports_def)

lemma lock_port_run: "lock (ports s p) = 0 \<Longrightarrow> lock_port p s = Inr (upd_port p (\<lambda>q. q\<lparr>lock := 1\<rparr>) s)"
  by (simp add: lock_port_def)

lemma unlock_port_run: "lock (ports s p) = 1 \<Longrightarrow> unlock_port p s = Inr (upd_port p (\<lambda>q. q\<lparr>lock := 0\<rparr>) s)"
  by (simp add: unlock_port_def)

definition port_at :: "'a ipc_state_scheme \<Rightarrow> ptr list \<Rightarrow> int \<Rightarrow> ptr" where
  "port_at s PL n = (case find (\<lambda>p. number (ports s p) = n) PL of None \<Rightarrow> NULL | Some p \<Rightarrow> p)"

lemma port_at_in: "port_at s PL n \<noteq> NULL \<Longrightarrow> port_at s PL n \<in> set PL \<and> number (ports s (port_at s PL n)) = n"
proof (cases "find (\<lambda>p. number (ports s p) = n) PL")
  case (Some p)
  then have "p \<in> set PL \<and> number (ports s p) = n" by (auto simp: find_Some_iff)
  then show ?thesis by (simp add: port_at_def Some)
qed (simp add: port_at_def)

lemma port_get_eq:
  assumes "ipc_wf s PL Q"
  shows "port_get n s = Inr (port_at s PL n, s)"
proof (cases "n \<ge> 0")
  case True
  let ?u = "(cli s)\<lparr>port_list_lock := 1\<rparr>"
  have w: "dll (port_links s) (port_list s) PL" "port_list_lock s = 0" using assms by (auto simp: ipc_wf_def)
  have l: "lock_ports (cli s) = Inr ?u" using w(2) by (simp add: lock_ports_run cli_def)
  have f: "list_find (port_links (cli s)) (port_list (cli s)) (\<lambda>p. number (ports (cli s) p) = n) = Inr (port_at s PL n)"
    using list_find_eq [OF w(1)] by (simp add: port_at_def cli_def)
  have "port_get n s = Inr (port_at s PL n, (?u\<lparr>port_list_lock := 0\<rparr>)\<lparr>eflags := eflags s\<rparr>)"
    using True unfolding port_get_def by (simp only: if_True) (rule critical_run, simp_all add: l f unlock_ports_run)
  also have "(?u\<lparr>port_list_lock := 0\<rparr>)\<lparr>eflags := eflags s\<rparr> = s" using w(2) by (simp add: cli_def)
  finally show ?thesis .
next
  case False
  have "find (\<lambda>p. number (ports s p) = n) PL = None"
    by (rule find_none) (use assms False in \<open>auto simp: ipc_wf_def port_numbers_ok_def\<close>)
  then show ?thesis using False by (simp add: port_get_def port_at_def)
qed

lemma upd_port_twice [simp]: "upd_port p f (upd_port p g s) = upd_port p (\<lambda>q. f (g q)) s"
  by (simp add: upd_port_def)

lemma upd_port_same: "f (ports s p) = ports s p \<Longrightarrow> upd_port p f s = s"
  by (simp add: upd_port_def)

lemma port_unlocked: "lock q = l \<Longrightarrow> q\<lparr>lock := l\<rparr> = q"
  by (cases q) simp

lemma queue_empty_eq:
  assumes "ipc_wf s PL Q" "p \<in> set PL"
  shows "queue_empty p s = Inr (Q p = [], s)"
proof -
  have w: "lock (ports s p) = 0" "dll (msg_links s) (queue (ports s p)) (Q p)" using assms by (auto simp: ipc_wf_def)
  have "lock (ports (upd_port p (\<lambda>q. q\<lparr>lock := 1\<rparr>) s) p) = 1" "queue (ports (upd_port p (\<lambda>q. q\<lparr>lock := 1\<rparr>) s) p) = queue (ports s p)"
    by (simp_all add: upd_port_def)
  then show ?thesis
    using w(1) dll_list_empty [OF w(2)]
    by (simp add: queue_empty_def lock_port_run unlock_port_run upd_port_same port_unlocked)
qed

section \<open>Opening ports\<close>

lemma port_bit_mask: "port_bit n = Inr b \<Longrightarrow> 0 \<le> n \<and> n < 32 \<and> (\<forall>i. bit b i \<longleftrightarrow> i = nat n)"
  by (auto simp: port_bit_def bit_simps split: if_splits)

lemma port_bit_test:
  assumes "port_bit n = Inr b"
  shows "w AND b \<noteq> 0 \<longleftrightarrow> bit w (nat n)"
proof -
  have b: "\<And>i. bit b i \<longleftrightarrow> i = nat n" "nat n < 32" using port_bit_mask [OF assms] by auto
  show ?thesis
  proof
    assume "w AND b \<noteq> 0"
    then obtain i where "bit (w AND b) i" unfolding bit_eq_iff by auto
    then show "bit w (nat n)" using b(1) by (auto simp: bit_simps)
  next
    assume "bit w (nat n)"
    then have "bit (w AND b) (nat n)" using b by (simp add: bit_simps)
    then show "w AND b \<noteq> 0" by auto
  qed
qed

lemma choose_port_result:
  assumes "ipc_wf s PL Q" "choose_port n s = Inr (k, s')"
  obtains v r where "s' = s\<lparr>next_port_value := v, reserved_ports := r\<rparr>" "ipc_wf s' PL Q"
    "k \<noteq> INVALID_PORT \<Longrightarrow> 0 \<le> k \<and> k < v \<and> (k < 32 \<longrightarrow> bit r (nat k)) \<and> (\<forall>p\<in>set PL. number (ports s p) \<noteq> k)"
proof -
  have w: "port_list_lock s = 0" "port_numbers_ok s PL" using assms(1) by (auto simp: ipc_wf_def)
  show thesis
  proof (cases "n = INVALID_PORT")
    case True
    then have "k = next_port_value s" "s' = s\<lparr>next_port_value := next_port_value s + 1, reserved_ports := reserved_ports s\<rparr>"
      using assms(2) w(1) by (auto simp: choose_port_def lock_ports_run unlock_ports_run Let_def)
    then show thesis using that [of "reserved_ports s" "next_port_value s + 1"] assms(1) w(2)
      by (fastforce simp: ipc_wf_def port_numbers_ok_def)
  next
    case False
    then obtain b where b: "port_bit n = Inr b" using assms(2) w(1) by (auto simp: choose_port_def lock_ports_run res_simps)
    note m = port_bit_mask [OF b] and t = port_bit_test [OF b, of "reserved_ports s"]
    show thesis
    proof (cases "bit (reserved_ports s) (nat n)")
      case True
      then have "k = INVALID_PORT" "s' = s\<lparr>next_port_value := next_port_value s, reserved_ports := reserved_ports s\<rparr>"
        using assms(2) w(1) b t False by (auto simp: choose_port_def lock_ports_run unlock_ports_run Let_def)
      then show thesis using that [of "reserved_ports s" "next_port_value s"] assms(1) by simp
    next
      case f: False
      then have k: "k = n" "s' = s\<lparr>next_port_value := next_port_value s, reserved_ports := reserved_ports s OR b\<rparr>"
        using assms(2) w(1) b t False by (auto simp: choose_port_def lock_ports_run unlock_ports_run Let_def)
      moreover have "number (ports s p) \<noteq> n" if "p \<in> set PL" for p using f m that w(2) by (auto simp: port_numbers_ok_def)
      moreover have "bit (reserved_ports s OR b) (nat n)" using m by (simp add: bit_simps)
      moreover have "ipc_wf s' PL Q" using assms(1) k by (auto simp: ipc_wf_def port_numbers_ok_def bit_simps)
      ultimately show thesis using that [of "reserved_ports s OR b" "next_port_value s"] m w(2) by (simp add: port_numbers_ok_def)
    qed
  qed
qed

lemma kernel_inv_kmalloc:
  assumes "kernel_inv s R S E PL Q" "kmalloc n s = Inr (p, t)" "6 \<le> unat n" "unat n + 56 < 2 ^ 32"
  shows "kernel_inv t R S E PL Q" "p \<notin> sched_blocks s R S E \<union> ipc_blocks PL Q"
    "owns t (insert p (sched_blocks t R S E \<union> ipc_blocks PL Q))" "p \<noteq> NULL"
    "sched_part t = sched_part s" "sched_state.more t = sched_state.more s" "eflags t = eflags s"
proof -
  have o: "outer t = outer s" using assms(2) by (rule kouter_outer [OF kouter_kmalloc(2)])
  note f = outer_sched_part [OF o] and m = outer_fields [OF o]
  show p: "sched_part t = sched_part s" "eflags t = eflags s" by (rule f)+
  show more: "sched_state.more t = sched_state.more s" by (rule m)
  have ow: "p \<notin> P \<and> owns t (insert p P)" if "owns s P" for P using owns_kmalloc [OF that assms(2,3,4)] .
  have sub: "owns t P" if "owns s P" for P
    using ow [OF that] by (meson owns_subset subset_insertI)
  have sb: "sched_blocks t R S E = sched_blocks s R S E"
    using sched_partD [OF p(1)] by (simp add: sched_blocks_def dir_of_def [abs_def])
  have "sched_inv t R S E"
    using assms(1) sched_wf_cong [OF p(1) sub] sched_partD [OF p(1)] by (simp add: kernel_inv_def sched_inv_def)
  then show "kernel_inv t R S E PL Q"
    using assms(1) sub sb ipc_wf_cong [OF more] sched_partD [OF p(1)] by (simp add: kernel_inv_def)
  show "p \<notin> sched_blocks s R S E \<union> ipc_blocks PL Q" "owns t (insert p (sched_blocks t R S E \<union> ipc_blocks PL Q))"
    using ow assms(1) sb by (auto simp: kernel_inv_def)
  show "p \<noteq> NULL" using assms(2) by (auto simp: kmalloc_def kmalloc_a_Inr res_simps)
qed

text \<open>The state after a new port \<open>p\<close> with number \<open>n\<close> has been put into the list.\<close>

lemma add_port_effect:
  assumes "add_port p n s = Inr (u, s')" "port_list_lock s = 0"
  obtains me lk l where "list_append ((port_links s)(p := detached)) (port_list s) p = (lk, l)"
    "s' = s\<lparr>ports := (ports s)(p := \<lparr>number = n, receiver = me, queue = list_init, lock = 0\<rparr>), port_links := lk, port_list := l\<rparr>"
    "me = pid (tasks s (current_task s)) \<or> current_task s = NULL"
proof -
  obtain lk l where l: "list_append ((port_links s)(p := detached)) (port_list s) p = (lk, l)" by fastforce
  define me where "me = (if current_task s \<noteq> NULL then pid (tasks s (current_task s)) else INVALID_PID)"
  let ?u = "(cli s)\<lparr>ports := (ports s)(p := \<lparr>number = n, receiver = me, queue = list_init, lock = 0\<rparr>), port_links := lk, port_list := l\<rparr>"
  have "current_task_pid (cli s) = Inr me" by (simp add: current_task_pid_def me_def interrupts_enabled_def [symmetric]) (simp add: cli_def)
  then have "add_port p n s = Inr ((), ?u\<lparr>eflags := eflags s\<rparr>)"
    unfolding add_port_def
    by (intro critical_run) (use assms(2) l in \<open>simp_all add: cli_def upd_port_def lock_ports_def unlock_ports_def Let_def\<close>)
  also have "?u\<lparr>eflags := eflags s\<rparr> = s\<lparr>ports := (ports s)(p := \<lparr>number = n, receiver = me, queue = list_init, lock = 0\<rparr>),
      port_links := lk, port_list := l\<rparr>" by (simp add: cli_def)
  finally show thesis using that [OF l, of me] assms(1) by (auto simp: me_def)
qed

lemma msgs_of_new: "p \<notin> set PL \<Longrightarrow> msgs_of (PL @ [p]) (Q(p := [])) = msgs_of PL Q"
  unfolding msgs_of_def by (induction PL) auto

lemma ipc_wf_add:
  assumes w: "ipc_wf s PL Q" and p: "p \<notin> ipc_blocks PL Q" "p \<noteq> NULL"
    and l: "list_append ((port_links s)(p := detached)) (port_list s) p = (lk, l)"
    and n: "0 \<le> n" "n < next_port_value s" "n < 32 \<longrightarrow> bit (reserved_ports s) (nat n)" "\<forall>q\<in>set PL. number (ports s q) \<noteq> n"
  shows "ipc_wf (s\<lparr>ports := (ports s)(p := \<lparr>number = n, receiver = me, queue = list_init, lock = 0\<rparr>), port_links := lk, port_list := l\<rparr>)
    (PL @ [p]) (Q(p := []))"
proof -
  have pl: "dll (port_links s) (port_list s) PL" "p \<notin> set PL" using w p(1) by (auto simp: ipc_wf_def ipc_blocks_def)
  have "dll ((port_links s)(p := detached)) (port_list s) PL" by (rule dll_outside [OF pl])
  moreover have "linkable ((port_links s)(p := detached)) p" using p(2) by (simp add: linkable_def)
  ultimately have d: "dll lk l (PL @ [p])" using pl(2) l by (rule ll.app_rep)
  note m = msgs_of_new [OF pl(2)]
  have "inj_on (\<lambda>x. number (((ports s)(p := \<lparr>number = n, receiver = me, queue = list_init, lock = 0\<rparr>)) x)) (set PL)
      = inj_on (\<lambda>x. number (ports s x)) (set PL)"
    by (rule inj_on_cong) (use pl(2) in auto)
  then show ?thesis
    using w d n pl(2) by (auto simp: ipc_wf_def m port_numbers_ok_def dll_init split: if_splits)
qed

lemma sched_ipc_simps [simp]:
  "sched_inv (s\<lparr>ports := a\<rparr>) R S E = sched_inv s R S E" "sched_inv (s\<lparr>port_links := b\<rparr>) R S E = sched_inv s R S E"
  "sched_inv (s\<lparr>port_list := c\<rparr>) R S E = sched_inv s R S E" "sched_inv (s\<lparr>messages := d\<rparr>) R S E = sched_inv s R S E"
  "sched_inv (s\<lparr>msg_links := b\<rparr>) R S E = sched_inv s R S E" "sched_inv (s\<lparr>next_port_value := v\<rparr>) R S E = sched_inv s R S E"
  "sched_inv (s\<lparr>reserved_ports := r\<rparr>) R S E = sched_inv s R S E"
  "sched_blocks (s\<lparr>ports := a\<rparr>) R S E = sched_blocks s R S E" "sched_blocks (s\<lparr>port_links := b\<rparr>) R S E = sched_blocks s R S E"
  "sched_blocks (s\<lparr>port_list := c\<rparr>) R S E = sched_blocks s R S E" "sched_blocks (s\<lparr>messages := d\<rparr>) R S E = sched_blocks s R S E"
  "sched_blocks (s\<lparr>msg_links := b\<rparr>) R S E = sched_blocks s R S E" "sched_blocks (s\<lparr>next_port_value := v\<rparr>) R S E = sched_blocks s R S E"
  "sched_blocks (s\<lparr>reserved_ports := r\<rparr>) R S E = sched_blocks s R S E"
  "owns (s\<lparr>ports := a\<rparr>) P = owns s P" "owns (s\<lparr>port_links := b\<rparr>) P = owns s P"
  "owns (s\<lparr>port_list := c\<rparr>) P = owns s P" "owns (s\<lparr>messages := d\<rparr>) P = owns s P"
  "owns (s\<lparr>msg_links := b\<rparr>) P = owns s P" "owns (s\<lparr>next_port_value := v\<rparr>) P = owns s P" "owns (s\<lparr>reserved_ports := r\<rparr>) P = owns s P"
  by (simp_all add: sched_inv_def sched_wf_def queues_def tasks_ok_def sched_blocks_def dir_of_def [abs_def] pid_of_def [abs_def] owns_def kheap_inv_def heap_inv_def
      heap_wf_def live_def canary_addr_def)

lemma kernel_inv_portopen:
  assumes "kernel_inv s R S E PL Q" "syscall_portopen_handler regs s = Inr (out, s')"
  shows "\<exists>PL' Q'. kernel_inv s' R S E PL' Q' \<and> sched_part s' = sched_part s \<and> set PL \<subseteq> set PL'"
proof -
  have w: "ipc_wf s PL Q" using assms(1) by (simp add: kernel_inv_def)
  obtain k s1 where c: "choose_port (sint (r_ebx regs)) s = Inr (k, s1)"
    using assms(2) by (auto simp: syscall_portopen_handler_def res_simps)
  obtain v r where s1: "s1 = s\<lparr>next_port_value := v, reserved_ports := r\<rparr>" "ipc_wf s1 PL Q"
    and k: "k \<noteq> INVALID_PORT \<Longrightarrow> 0 \<le> k \<and> k < v \<and> (k < 32 \<longrightarrow> bit r (nat k)) \<and> (\<forall>p\<in>set PL. number (ports s p) \<noteq> k)"
    using choose_port_result [OF w c] by metis
  have i1: "kernel_inv s1 R S E PL Q" "sched_part s1 = sched_part s"
    using assms(1) s1 by (simp_all add: kernel_inv_def sched_part_def)
  show ?thesis
  proof (cases "k = INVALID_PORT")
    case True
    then show ?thesis using assms(2) c i1 by (auto simp: syscall_portopen_handler_def)
  next
    case False
    then obtain p s2 u where r: "kmalloc SIZEOF_PORT s1 = Inr (p, s2)" "add_port p k s2 = Inr (u, s')"
      using assms(2) c by (auto simp: syscall_portopen_handler_def res_simps)
    note m = kernel_inv_kmalloc [OF i1(1) r(1)]
    have sz: "6 \<le> unat SIZEOF_PORT" "unat SIZEOF_PORT + 56 < 2 ^ 32" by (simp_all add: SIZEOF_PORT_def)
    have f: "ports s2 = ports s" "next_port_value s2 = v" "reserved_ports s2 = r" using ipc_fields [OF m(6) [OF sz]] s1(1) by simp_all
    have w2: "ipc_wf s2 PL Q" "port_list_lock s2 = 0" using m(1) [OF sz] by (auto simp: kernel_inv_def ipc_wf_def)
    obtain me lk l where a: "list_append ((port_links s2)(p := detached)) (port_list s2) p = (lk, l)"
      "s' = s2\<lparr>ports := (ports s2)(p := \<lparr>number = k, receiver = me, queue = list_init, lock = 0\<rparr>), port_links := lk, port_list := l\<rparr>"
      using add_port_effect [OF r(2) w2(2)] by metis
    have p: "p \<notin> ipc_blocks PL Q" "p \<notin> sched_blocks s2 R S E" "p \<noteq> NULL"
      using m(2,4) [OF sz] sched_partD [OF m(5) [OF sz]] s1(1) by (auto simp: sched_blocks_def dir_of_def [abs_def])
    have w3: "ipc_wf s' (PL @ [p]) (Q(p := []))"
      unfolding a(2) by (rule ipc_wf_add [OF w2(1) p(1,3) a(1)]) (use k [OF False] f in auto)
    have "msgs_of (PL @ [p]) (Q(p := [])) = msgs_of PL Q" using p(1) by (simp add: ipc_blocks_def msgs_of_new)
    then have b: "ipc_blocks (PL @ [p]) (Q(p := [])) = insert p (ipc_blocks PL Q)" "msgs_of (PL @ [p]) (Q(p := [])) = msgs_of PL Q"
      by (auto simp: ipc_blocks_def)
    have "owns s' (sched_blocks s' R S E \<union> ipc_blocks (PL @ [p]) (Q(p := [])))"
      using m(3) [OF sz] by (simp add: a(2) b)
    moreover have "sched_inv s' R S E" "sched_blocks s' R S E = sched_blocks s2 R S E" "0 \<le> next_pid_value s'"
      using m(1) [OF sz] by (simp_all add: a(2) kernel_inv_def)
    moreover have "sched_blocks s2 R S E \<inter> ipc_blocks PL Q = {}" "set PL \<inter> set (msgs_of PL Q) = {}"
      using m(1) [OF sz] by (auto simp: kernel_inv_def)
    ultimately have "kernel_inv s' R S E (PL @ [p]) (Q(p := []))"
      using w3 p unfolding kernel_inv_def b by (auto simp: ipc_blocks_def)
    moreover have "sched_part s' = sched_part s" using m(5) [OF sz] i1(2) by (simp add: a(2) sched_part_def)
    moreover have "set PL \<subseteq> set (PL @ [p])" by auto
    ultimately show ?thesis by blast
  qed
qed

section \<open>Queueing messages\<close>

lemma msgs_of_at:
  assumes "p \<in> set PL" "distinct PL"
  obtains A B where "msgs_of PL Q = A @ Q p @ B" "\<forall>x. msgs_of PL (Q(p := x)) = A @ x @ B"
proof -
  obtain as bs where P: "PL = as @ p # bs" using assms(1) by (auto simp: in_set_conv_decomp)
  then have "p \<notin> set as" "p \<notin> set bs" using assms(2) by auto
  then have "msgs_of PL (Q(p := x)) = concat (map Q as) @ x @ concat (map Q bs)" for x by (simp add: P msgs_of_def)
  moreover have "msgs_of PL Q = concat (map Q as) @ Q p @ concat (map Q bs)" by (simp add: P msgs_of_def)
  ultimately show thesis using that by blast
qed

lemma msgs_of_disjoint:
  assumes "distinct (msgs_of PL Q)" "p \<in> set PL" "q \<in> set PL" "p \<noteq> q" "distinct PL"
  shows "set (Q p) \<inter> set (Q q) = {}"
proof -
  obtain A B where a: "msgs_of PL Q = A @ Q p @ B" "\<forall>x. msgs_of PL (Q(p := x)) = A @ x @ B"
    by (rule msgs_of_at [OF assms(2,5), of Q])
  have "set (Q q) \<subseteq> set (msgs_of PL (Q(p := [])))" using assms(3,4) by (auto simp: msgs_of_def)
  then show ?thesis using assms(1) a by auto
qed

lemma ipc_wf_ports_distinct: "ipc_wf s PL Q \<Longrightarrow> distinct PL"
  by (auto simp: ipc_wf_def dll_def)

text \<open>A message that is in no queue goes to the end of the queue of \<open>p\<close>.\<close>

lemma ipc_wf_append_message:
  assumes w: "ipc_wf s PL Q" and p: "p \<in> set PL" and m: "m \<notin> set (msgs_of PL Q)" "linkable (msg_links s) m" "msg_ok (messages s m)"
  shows "ipc_wf (append_message p m s) PL (Q(p := Q p @ [m]))"
proof -
  obtain lk l where l: "list_append (msg_links s) (queue (ports s p)) m = (lk, l)" by fastforce
  have d: "distinct PL" using w by (rule ipc_wf_ports_distinct)
  obtain A B where a: "msgs_of PL Q = A @ Q p @ B" "\<forall>x. msgs_of PL (Q(p := x)) = A @ x @ B" by (rule msgs_of_at [OF p d, of Q])
  have q: "\<And>x. x \<in> set PL \<Longrightarrow> dll (msg_links s) (queue (ports s x)) (Q x)" "distinct (msgs_of PL Q)"
    using w by (auto simp: ipc_wf_def)
  have mq: "m \<notin> set (Q x)" if "x \<in> set PL" for x using m(1) that by (auto simp: msgs_of_def)
  have "dll lk l (Q p @ [m])" by (rule ll.app_rep [OF q(1) [OF p] m(2) mq [OF p] l])
  moreover have "dll lk (queue (ports s x)) (Q x)" if "x \<in> set PL" "x \<noteq> p" for x
    using q(1) [OF p] q(1) [OF that(1)] _ mq [OF that(1)] l
    by (rule ll.app_other) (use msgs_of_disjoint [OF q(2) p that(1) _ d] that(2) in blast)
  moreover have "distinct (msgs_of PL (Q(p := Q p @ [m])))" "set (msgs_of PL (Q(p := Q p @ [m]))) = insert m (set (msgs_of PL Q))"
    using q(2) m(1) by (auto simp: a)
  moreover have "inj_on (\<lambda>x. number (((ports s)(p := (ports s p)\<lparr>queue := l\<rparr>)) x)) (set PL) = inj_on (\<lambda>x. number (ports s x)) (set PL)"
    by (rule inj_on_cong) auto
  ultimately show ?thesis
    using w m(3) by (auto simp: ipc_wf_def append_message_def l upd_port_def port_numbers_ok_def)
qed

lemma linkable_not_null: "linkable lk m \<Longrightarrow> m \<noteq> NULL"
  by (simp add: linkable_def)

text \<open>The first message leaves the queue of \<open>p\<close>.\<close>

lemma ipc_wf_take_message:
  assumes w: "ipc_wf s PL Q" and p: "p \<in> set PL" and m: "m \<in> set (Q p)"
  shows "ipc_wf (take_message p m s) PL (Q(p := remove1 m (Q p)))"
proof -
  obtain lk l where l: "list_remove (msg_links s) (queue (ports s p)) m = (lk, l)" by fastforce
  have d: "distinct PL" using w by (rule ipc_wf_ports_distinct)
  obtain A B where a: "msgs_of PL Q = A @ Q p @ B" "\<forall>x. msgs_of PL (Q(p := x)) = A @ x @ B" by (rule msgs_of_at [OF p d, of Q])
  have q: "\<And>x. x \<in> set PL \<Longrightarrow> dll (msg_links s) (queue (ports s x)) (Q x)" "distinct (msgs_of PL Q)"
    using w by (auto simp: ipc_wf_def)
  have "dll lk l (remove1 m (Q p))" by (rule ll.rem_rep [OF q(1) [OF p] m l])
  moreover have "dll lk (queue (ports s x)) (Q x)" if "x \<in> set PL" "x \<noteq> p" for x
    using q(1) [OF p] q(1) [OF that(1)] _ m l
    by (rule ll.rem_other) (use msgs_of_disjoint [OF q(2) p that(1) _ d] that(2) in blast)
  moreover have "distinct (msgs_of PL (Q(p := remove1 m (Q p))))" "set (msgs_of PL (Q(p := remove1 m (Q p)))) \<subseteq> set (msgs_of PL Q)"
    using q(2) set_remove1_subset [of m "Q p"] by (auto simp: a)
  moreover have "inj_on (\<lambda>x. number (((ports s)(p := (ports s p)\<lparr>queue := l\<rparr>)) x)) (set PL) = inj_on (\<lambda>x. number (ports s x)) (set PL)"
    by (rule inj_on_cong) auto
  ultimately show ?thesis
    using w by (auto simp: ipc_wf_def take_message_def l upd_port_def port_numbers_ok_def)
qed

section \<open>Sending\<close>

lemma more_upd_port:
  fixes s t :: "'a ipc_state_scheme"
  shows "sched_state.more s = sched_state.more t \<Longrightarrow> sched_state.more (upd_port p f s) = sched_state.more (upd_port p f t)"
  by (cases s, cases t, simp add: upd_port_def)

lemma upd_port_sched [simp]:
  "sched_inv (upd_port p f s) R S E = sched_inv s R S E" "sched_blocks (upd_port p f s) R S E = sched_blocks s R S E"
  "owns (upd_port p f s) P = owns s P" "next_pid_value (upd_port p f s) = next_pid_value s"
  "current_task (upd_port p f s) = current_task s" "idle_task (upd_port p f s) = idle_task s" "pid_of (upd_port p f s) = pid_of s"
  "kstacks (upd_port p f s) = kstacks s" "interrupts_enabled (upd_port p f s) = interrupts_enabled s" "tasks (upd_port p f s) = tasks s"
  "messages (upd_port p f s) = messages s" "msg_links (upd_port p f s) = msg_links s"
  by (simp_all add: upd_port_def pid_of_def [abs_def] interrupts_enabled_def)

lemma append_message_sched [simp]:
  "sched_inv (append_message p m s) R S E = sched_inv s R S E" "sched_blocks (append_message p m s) R S E = sched_blocks s R S E"
  "owns (append_message p m s) P = owns s P" "next_pid_value (append_message p m s) = next_pid_value s"
  "current_task (append_message p m s) = current_task s" "idle_task (append_message p m s) = idle_task s"
  "pid_of (append_message p m s) = pid_of s" "kstacks (append_message p m s) = kstacks s"
  "receiver (ports (append_message p m s) q) = receiver (ports s q)"
  by (simp_all add: append_message_def prod.case_eq_if) (simp_all add: upd_port_def pid_of_def [abs_def])

lemma port_fields_commute: "q\<lparr>lock := l, queue := x\<rparr> = q\<lparr>queue := x, lock := l\<rparr>"
  by (cases q) simp

lemma append_message_locked:
  "append_message p m (upd_port p (\<lambda>q. q\<lparr>lock := l\<rparr>) s) = upd_port p (\<lambda>q. q\<lparr>lock := l\<rparr>) (append_message p m s)"
  by (simp add: append_message_def upd_port_def prod.case_eq_if port_fields_commute)

text \<open>What \<open>msgsend\<close> does up to the wake-up of the receiver: a copy of the message is queued.\<close>

lemma queue_message:
  assumes "lock (ports s p) = 0"
  shows "res_bind (lock_port p s) (\<lambda>s. res_bind (unlock_port p (append_message p m s)) f) = f (append_message p m s)"
proof -
  have "lock (ports (append_message p m s) p) = 0" using assms by (simp add: append_message_def upd_port_def prod.case_eq_if)
  then show ?thesis
    using assms unlock_port_run [of "upd_port p (\<lambda>q. q\<lparr>lock := 1\<rparr>) (append_message p m s)" p]
    by (simp add: lock_port_run append_message_locked upd_port_same port_unlocked) (simp add: upd_port_def)
qed

definition stamped :: "int \<Rightarrow> message \<Rightarrow> message" where
  "stamped me msg = (let copy = msg\<lparr>sender := me\<rparr> in copy\<lparr>checksum := message_checksum copy\<rparr>)"

lemma message_checksum_own [simp]: "message_checksum (msg\<lparr>checksum := c\<rparr>) = message_checksum msg"
  by (simp add: message_checksum_def)

lemma stamped_simps [simp]:
  "checksum (stamped me msg) = message_checksum (stamped me msg)" "sender (stamped me msg) = me" "len (stamped me msg) = len msg"
  "msg_data (stamped me msg) = msg_data msg" "code (stamped me msg) = code msg" "reply_port (stamped me msg) = reply_port msg"
  by (simp_all add: stamped_def Let_def)

lemma msg_ok_stamped: "unat SIZEOF_MESSAGE + unat (len msg) + 64 < 2 ^ 32 \<Longrightarrow> msg_ok (stamped me msg)"
  by (simp add: msg_ok_def)

text \<open>The state after a copy of the message has been made in the block \<open>m\<close> and queued at port \<open>p\<close>.\<close>

definition queued :: "ptr \<Rightarrow> ptr \<Rightarrow> message \<Rightarrow> 'a ipc_state_scheme \<Rightarrow> 'a ipc_state_scheme" where
  "queued p m msg s = append_message p m (s\<lparr>msg_links := (msg_links s)(m := detached), messages := (messages s)(m := msg)\<rparr>)"

lemma kernel_inv_queued:
  assumes i: "kernel_inv s R S E PL Q" and p: "p \<in> set PL" and m: "m \<notin> sched_blocks s R S E \<union> ipc_blocks PL Q" "m \<noteq> NULL"
    and o: "owns s (insert m (sched_blocks s R S E \<union> ipc_blocks PL Q))" and ok: "msg_ok msg"
  shows "kernel_inv (queued p m msg s) R S E PL (Q(p := Q p @ [m]))"
proof -
  let ?u = "s\<lparr>msg_links := (msg_links s)(m := detached), messages := (messages s)(m := msg)\<rparr>"
  have w: "ipc_wf s PL Q" using i by (simp add: kernel_inv_def)
  have mq: "m \<notin> set (Q x)" if "x \<in> set PL" for x using m(1) that by (auto simp: ipc_blocks_def msgs_of_def)
  have "ipc_wf ?u PL Q"
    using w m(1) mq by (auto simp: ipc_wf_def port_numbers_ok_def ipc_blocks_def intro: dll_outside)
  then have wf: "ipc_wf (queued p m msg s) PL (Q(p := Q p @ [m]))"
    unfolding queued_def using p by (rule ipc_wf_append_message) (use m ok in \<open>auto simp: ipc_blocks_def linkable_def\<close>)
  obtain A B where a: "msgs_of PL Q = A @ Q p @ B" "\<forall>x. msgs_of PL (Q(p := x)) = A @ x @ B"
    by (rule msgs_of_at [OF p ipc_wf_ports_distinct [OF w], of Q])
  then have b: "ipc_blocks PL (Q(p := Q p @ [m])) = insert m (ipc_blocks PL Q)" "set (msgs_of PL (Q(p := Q p @ [m]))) = insert m (set (msgs_of PL Q))"
    by (auto simp: ipc_blocks_def)
  show ?thesis
    using i wf o m(1) unfolding kernel_inv_def b by (auto simp: queued_def ipc_blocks_def)
qed

lemma owns_of_kernel_inv: "kernel_inv s R S E PL Q \<Longrightarrow> owns s (sched_blocks s R S E \<union> ipc_blocks PL Q)"
  by (simp add: kernel_inv_def)

lemma msgsend_deliver_parts:
  assumes "msgsend_deliver kregs p msg s = Inr (out, s')" "lock (ports s p) = 0" "current_task s \<noteq> NULL"
  obtains m s1 s2 where "kmalloc (SIZEOF_MESSAGE + len msg + 64) s = Inr (m, s1)" "unat SIZEOF_MESSAGE + unat (len msg) + 64 < 2 ^ 32"
    "task_wake (receiver (ports s1 p)) (queued p m (stamped (pid (tasks s1 (current_task s1))) msg) s1) = Inr s2"
    "task_block kregs K_Send_Done INVALID_PORT INVALID_PORT SLEEP_INFINITE s2 = Inr s'" "out = Away"
    "checksum msg = message_checksum msg"
proof -
  obtain m s1 where k: "kmalloc (SIZEOF_MESSAGE + len msg + 64) s = Inr (m, s1)" "unat SIZEOF_MESSAGE + unat (len msg) + 64 < 2 ^ 32"
    using assms(1) by (auto simp: msgsend_deliver_def Let_def res_simps split: if_splits)
  have more: "sched_state.more s1 = sched_state.more s" by (rule outer_fields [OF kouter_outer [OF kouter_kmalloc(2) [OF k(1)]]])
  then have l: "lock (ports s1 p) = 0" using ipc_fields(1) assms(2) by metis
  have "current_task s1 = current_task s"
    by (rule sched_partD(7)) (rule outer_sched_part(1) [OF kouter_outer [OF kouter_kmalloc(2) [OF k(1)]]])
  then have c: "current_task s1 \<noteq> NULL" using assms(3) by simp
  show thesis
    using assms(1) k l c that [OF k]
    by (auto simp: msgsend_deliver_def Let_def res_simps queue_message queued_def stamped_def current_task_pid_def split: if_splits)
qed

lemma message_size: "unat SIZEOF_MESSAGE + unat n + 64 < 2 ^ 32 \<Longrightarrow> unat (SIZEOF_MESSAGE + n + 64) = 92 + unat n"
  by (simp add: SIZEOF_MESSAGE_def unat_word_ariths)

text \<open>
  The whole of \<open>msgsend\<close> once the port is open: the message, stamped with the identifier of the
  sender, is last in the queue, and the sender waits for it to be received.
\<close>

lemma kernel_inv_deliver:
  assumes "kernel_inv s R S E PL Q" "p \<in> set PL" "current_task s \<noteq> idle_task s" "msgsend_deliver kregs p msg s = Inr (out, s')"
    "unat (len msg) + 160 < 2 ^ 32"
  shows "\<exists>R' S' m. kernel_inv s' R' S' E PL (Q(p := Q p @ [m])) \<and> out = Away
    \<and> messages s' m = stamped (pid_of s (current_task s)) msg \<and> m \<notin> set (msgs_of PL Q)
    \<and> (\<forall>x. x \<noteq> m \<longrightarrow> messages s' x = messages s x)
    \<and> kstacks s' = (kstacks s)(current_task s := K_Send_Done) \<and> pid_of s' = pid_of s"
proof -
  have w: "lock (ports s p) = 0" using assms(1,2) by (auto simp: kernel_inv_def ipc_wf_def)
  have i: "sched_inv s R S E" using assms(1) by (simp add: kernel_inv_def)
  obtain m s1 s2 where k: "kmalloc (SIZEOF_MESSAGE + len msg + 64) s = Inr (m, s1)" "unat SIZEOF_MESSAGE + unat (len msg) + 64 < 2 ^ 32"
      "task_wake (receiver (ports s1 p)) (queued p m (stamped (pid (tasks s1 (current_task s1))) msg) s1) = Inr s2"
      "task_block kregs K_Send_Done INVALID_PORT INVALID_PORT SLEEP_INFINITE s2 = Inr s'" "out = Away"
    by (rule msgsend_deliver_parts [OF assms(4) w sched_inv_not_null(1) [OF i]])
  let ?q = "queued p m (stamped (pid (tasks s1 (current_task s1))) msg) s1"
  have sz: "6 \<le> unat (SIZEOF_MESSAGE + len msg + 64)" "unat (SIZEOF_MESSAGE + len msg + 64) + 56 < 2 ^ 32"
    using assms(5) message_size [OF k(2)] by simp_all
  note a = kernel_inv_kmalloc [OF assms(1) k(1) sz]
  have sb: "sched_blocks s1 R S E = sched_blocks s R S E" using sched_partD [OF a(5)] by (simp add: sched_blocks_def dir_of_def [abs_def])
  have q: "kernel_inv ?q R S E PL (Q(p := Q p @ [m]))"
    by (rule kernel_inv_queued [OF a(1) assms(2) _ a(4) a(3) msg_ok_stamped [OF k(2)]]) (use a(2) sb in simp)
  obtain R1 S1 where v: "woken ?q R S s2 R1 S1 E" using woken_wake [OF _ k(3), of R S E] q by (auto simp: kernel_inv_def)
  have f: "current_task s2 = current_task s" "idle_task s2 = idle_task s" "pid_of s2 = pid_of s" "kstacks s2 = kstacks s"
      "sched_state.more s2 = sched_state.more ?q"
    using v sched_partD [OF a(5)] by (simp_all add: woken_def wake_part_def queued_def pid_of_def [abs_def])
       (simp_all add: append_message_def prod.case_eq_if upd_port_def)
  obtain R' S' where b: "kernel_inv s' R' S' E PL (Q(p := Q p @ [m]))" "kstacks s' = (kstacks s2)(current_task s2 := K_Send_Done)"
      "pid_of s' = pid_of s2"
    using kernel_inv_block [OF kernel_inv_woken [OF q v] _ k(4)] assms(3) f by auto
  have "sched_state.more s' = sched_state.more ?q" using keeps_task_block [OF k(4)] f(5) by (simp add: keeps_def)
  then have "messages s' = (messages s)(m := stamped (pid_of s (current_task s)) msg)"
    using ipc_fields(3) [of s' ?q] ipc_fields(3) [OF a(6)] sched_partD [OF a(5)]
    by (simp add: queued_def append_message_def prod.case_eq_if upd_port_def pid_of_def)
  moreover have "m \<notin> set (msgs_of PL Q)" using a(2) by (simp add: ipc_blocks_def)
  ultimately show ?thesis using b f k(5) by (intro exI [of _ R'] exI [of _ S'] exI [of _ m]) simp
qed

section \<open>Receiving\<close>

lemma take_message_sched [simp]:
  "sched_inv (take_message p m s) R S E = sched_inv s R S E" "sched_blocks (take_message p m s) R S E = sched_blocks s R S E"
  "owns (take_message p m s) P = owns s P" "next_pid_value (take_message p m s) = next_pid_value s"
  "current_task (take_message p m s) = current_task s" "idle_task (take_message p m s) = idle_task s"
  "pid_of (take_message p m s) = pid_of s" "kstacks (take_message p m s) = kstacks s" "messages (take_message p m s) = messages s"
  "lock (ports (take_message p m s) q) = lock (ports s q)" "interrupts_enabled (take_message p m s) = interrupts_enabled s"
  by (simp_all add: take_message_def prod.case_eq_if) (simp_all add: upd_port_def pid_of_def [abs_def] interrupts_enabled_def)

lemma take_message_locked:
  "take_message p m (upd_port p (\<lambda>q. q\<lparr>lock := l\<rparr>) s) = upd_port p (\<lambda>q. q\<lparr>lock := l\<rparr>) (take_message p m s)"
  by (simp add: take_message_def upd_port_def prod.case_eq_if port_fields_commute)

lemma sched_inv_owned:
  assumes "sched_inv s R S E" "sched_part t = sched_part s" "owns t (sched_blocks s R S E)"
  shows "sched_inv t R S E" "sched_blocks t R S E = sched_blocks s R S E"
proof -
  note f = sched_partD [OF assms(2)]
  have d: "dir_of t = dir_of s" "pid_of t = pid_of s" using f(1) by (auto simp: dir_of_def pid_of_def)
  show "sched_inv t R S E"
    using assms(1,3) unfolding sched_inv_def sched_wf_def queues_def tasks_ok_def f d sched_blocks_def by blast
  show "sched_blocks t R S E = sched_blocks s R S E" by (simp add: sched_blocks_def d f)
qed

lemma kfree_effect:
  assumes "kfree m s = Inr (u, t)" "owns s P" "m \<in> P"
  shows "owns t (P - {m})" "sched_part t = sched_part s" "sched_state.more t = sched_state.more s" "eflags t = eflags s"
    "timer_timestamp t = timer_timestamp s"
proof -
  have o: "outer t = outer s" using assms(1) by (rule kouter_outer [OF kouter_kmalloc(3)])
  show "owns t (P - {m})" by (rule owns_kfree [OF assms(2,3,1)])
  show "sched_part t = sched_part s" "eflags t = eflags s" "timer_timestamp t = timer_timestamp s" by (rule outer_sched_part [OF o])+
  show "sched_state.more t = sched_state.more s" by (rule outer_fields [OF o])
qed

text \<open>The head of a non-empty queue is its first message.\<close>

lemma queue_head:
  assumes "ipc_wf s PL Q" "p \<in> set PL" "Q p = m # ms"
  shows "head (queue (ports s p)) = m" "msg_ok (messages s m)" "m \<noteq> NULL"
proof -
  have "m \<in> set (Q p)" using assms(3) by simp
  then have "m \<in> set (msgs_of PL Q)" using assms(2) by (auto simp: msgs_of_def)
  moreover have "dll (msg_links s) (queue (ports s p)) (m # ms)" using assms by (auto simp: ipc_wf_def)
  ultimately show "head (queue (ports s p)) = m" "msg_ok (messages s m)" "m \<noteq> NULL"
    using assms(1) by (auto simp: ipc_wf_def dll_def)
qed

lemma kernel_inv_taken:
  assumes i: "kernel_inv s R S E PL Q" and p: "p \<in> set PL" and q: "Q p = m # ms"
    and w: "woken (upd_port p (\<lambda>q. q\<lparr>lock := 1\<rparr>) (take_message p m s)) R S s2 R' S' E" and k: "kfree m s2 = Inr (u, s3)"
  shows "kernel_inv (upd_port p (\<lambda>q. q\<lparr>lock := 0\<rparr>) s3) R' S' E PL (Q(p := ms))"
    and "messages s3 = messages s" "kstacks s3 = kstacks s" "pid_of s3 = pid_of s" "current_task s3 = current_task s"
    "lock (ports s3 p) = 1" "interrupts_enabled s3 = interrupts_enabled s"
proof -
  let ?t = "take_message p m s" and ?l = "upd_port p (\<lambda>q. q\<lparr>lock := 1\<rparr>) (take_message p m s)"
  have wf: "ipc_wf s PL Q" and o: "owns s (sched_blocks s R S E \<union> ipc_blocks PL Q)" using i by (auto simp: kernel_inv_def)
  have t: "ipc_wf ?t PL (Q(p := ms))" using ipc_wf_take_message [OF wf p, of m] q by simp
  have l0: "lock (ports ?t p) = 0" using wf p by (auto simp: ipc_wf_def)
  obtain A B where a: "msgs_of PL Q = A @ Q p @ B" "\<forall>x. msgs_of PL (Q(p := x)) = A @ x @ B"
    by (rule msgs_of_at [OF p ipc_wf_ports_distinct [OF wf], of Q])
  have dm: "distinct (msgs_of PL Q)" using wf by (simp add: ipc_wf_def)
  have m: "m \<in> ipc_blocks PL Q" "m \<notin> sched_blocks s R S E" "m \<notin> set PL"
    using i q by (auto simp: kernel_inv_def ipc_blocks_def a)
  have b: "ipc_blocks PL (Q(p := ms)) = ipc_blocks PL Q - {m}" "set (msgs_of PL (Q(p := ms))) = set (msgs_of PL Q) - {m}"
    using dm m(3) q by (auto simp: ipc_blocks_def a)
  have o2: "owns s2 (sched_blocks s R S E \<union> ipc_blocks PL Q)" and s2: "sched_inv s2 R' S' E" "sched_blocks s2 R' S' E = sched_blocks s R S E"
    using w o by (auto simp: woken_def intro: keeps_owns)
  have mem: "m \<in> sched_blocks s R S E \<union> ipc_blocks PL Q" using m(1) by simp
  note f = kfree_effect [OF k o2 mem]
  have o3: "owns s3 (sched_blocks s R S E \<union> (ipc_blocks PL Q - {m}))"
    using f(1) m(2) by (simp add: Un_Diff insert_Diff_if)
  then have s3: "sched_inv s3 R' S' E" "sched_blocks s3 R' S' E = sched_blocks s R S E"
    using sched_inv_owned [OF s2(1) f(2)] s2(2) owns_subset [OF o3] by auto
  have ml: "sched_state.more s3 = sched_state.more ?l" using f(3) w by (simp add: woken_def wake_part_def)
  then have "sched_state.more (upd_port p (\<lambda>q. q\<lparr>lock := 0\<rparr>) s3) = sched_state.more (upd_port p (\<lambda>q. q\<lparr>lock := 0\<rparr>) ?l)"
    by (rule more_upd_port)
  also have "upd_port p (\<lambda>q. q\<lparr>lock := 0\<rparr>) ?l = ?t" using l0 by (simp add: upd_port_same port_unlocked)
  finally have "ipc_wf (upd_port p (\<lambda>q. q\<lparr>lock := 0\<rparr>) s3) PL (Q(p := ms))" using t ipc_wf_cong by blast
  moreover have "next_pid_value s3 = next_pid_value s"
    using sched_partD(6) [OF f(2)] w by (simp add: woken_def wake_part_def)
  ultimately show "kernel_inv (upd_port p (\<lambda>q. q\<lparr>lock := 0\<rparr>) s3) R' S' E PL (Q(p := ms))"
    using i s3 o3 unfolding kernel_inv_def b by auto
  show "messages s3 = messages s" "lock (ports s3 p) = 1"
    using ipc_fields [OF ml] by simp_all (simp add: upd_port_def)
  show "kstacks s3 = kstacks s" "pid_of s3 = pid_of s" "current_task s3 = current_task s"
    using sched_partD [OF f(2)] w by (simp_all add: woken_def wake_part_def pid_of_def [abs_def])
      (simp_all add: take_message_def prod.case_eq_if upd_port_def)
  show "interrupts_enabled s3 = interrupts_enabled s"
    using w f(4) interrupts_enabled_def [of s3] interrupts_enabled_def [of s2] by (simp add: woken_def wake_part_def)
qed

definition size_report :: "ptr \<Rightarrow> message \<Rightarrow> user_write list" where
  "size_report outsize msg = (if outsize \<noteq> NULL then [Write_Word outsize (SIZEOF_MESSAGE + len msg)] else [])"

text \<open>\<open>msgrecv\<close> on a non-empty queue, up to the wake-up of the sender.\<close>

lemma msgrecv_take_eq:
  assumes i: "kernel_inv s R S E PL Q" and p: "p \<in> set PL" and q: "Q p = m # ms"
  shows "msgrecv_take p buffer n outsize s =
    (if n \<ge> SIZEOF_MESSAGE + len (messages s m) then
       res_bind (task_wake (sender (messages s m)) (upd_port p (\<lambda>q. q\<lparr>lock := 1\<rparr>) (take_message p m s))) (\<lambda>s2.
       res_bind (kfree m s2) (\<lambda>(_, s3).
       res_bind (unlock_port p s3) (\<lambda>s3. Inr (Return 0 (size_report outsize (messages s m) @ [Write_Message buffer (messages s m)]), s3))))
     else Inr (Return 3 (size_report outsize (messages s m)), s))"
proof -
  have w: "ipc_wf s PL Q" using i by (simp add: kernel_inv_def)
  have l: "lock (ports s p) = 0" using w p by (auto simp: ipc_wf_def)
  note h = queue_head [OF w p q]
  have hl: "head (queue (ports (upd_port p (\<lambda>q. q\<lparr>lock := 1\<rparr>) s) p)) = m" using h(1) by (simp add: upd_port_def)
  have "unlock_port p (upd_port p (\<lambda>q. q\<lparr>lock := 1\<rparr>) s) = Inr s"
    using l by (simp add: unlock_port_def upd_port_same port_unlocked) (simp add: upd_port_def port_unlocked)
  then show ?thesis
    using h(2) unfolding msgrecv_take_def
    by (simp add: lock_port_run [OF l] hl take_message_locked msg_ok_def size_report_def Let_def)
qed

lemma kernel_inv_take:
  assumes i: "kernel_inv s R S E PL Q" and p: "p \<in> set PL" and q: "Q p = m # ms"
    and r: "msgrecv_take p buffer n outsize s = Inr (out, s')"
  shows "if n \<ge> SIZEOF_MESSAGE + len (messages s m)
    then \<exists>R' S'. kernel_inv s' R' S' E PL (Q(p := ms)) \<and> kstacks s' = kstacks s \<and> pid_of s' = pid_of s
      \<and> out = Return 0 (size_report outsize (messages s m) @ [Write_Message buffer (messages s m)]) \<and> messages s' = messages s
    else s' = s \<and> out = Return 3 (size_report outsize (messages s m))"
proof (cases "n \<ge> SIZEOF_MESSAGE + len (messages s m)")
  case True
  then obtain s2 s3 u where k: "task_wake (sender (messages s m)) (upd_port p (\<lambda>q. q\<lparr>lock := 1\<rparr>) (take_message p m s)) = Inr s2"
      "kfree m s2 = Inr (u, s3)" "unlock_port p s3 = Inr s'"
      "out = Return 0 (size_report outsize (messages s m) @ [Write_Message buffer (messages s m)])"
    using r by (auto simp: msgrecv_take_eq [OF i p q] res_simps)
  have "sched_inv (upd_port p (\<lambda>q. q\<lparr>lock := 1\<rparr>) (take_message p m s)) R S E" using i by (simp add: kernel_inv_def)
  from woken_wake [OF this k(1)] obtain R' S' where w: "woken (upd_port p (\<lambda>q. q\<lparr>lock := 1\<rparr>) (take_message p m s)) R S s2 R' S' E" by blast
  note t = kernel_inv_taken [OF i p q w k(2)]
  have "s' = upd_port p (\<lambda>q. q\<lparr>lock := 0\<rparr>) s3" using k(3) by (simp add: unlock_port_run [OF t(6)])
  then show ?thesis using t k(4) True by auto
next
  case False
  then show ?thesis using r by (auto simp: msgrecv_take_eq [OF i p q])
qed

lemma kfree_total:
  assumes "owns s P" "m \<in> P"
  shows "\<exists>t. kfree m s = Inr ((), t)"
proof -
  obtain L where "kheap_inv s L" "m \<in> L" using assms by (auto simp: owns_def)
  then show ?thesis using km.rel_any by blast
qed

text \<open>When the sender sleeps, the receiver gets the message and the sender becomes ready.\<close>

lemma msgrecv_take_total:
  assumes i: "kernel_inv s R S E PL Q" and p: "p \<in> set PL" and q: "Q p = m # ms"
    and n: "n \<ge> SIZEOF_MESSAGE + len (messages s m)" and f: "\<not> interrupts_enabled s"
    and t: "t \<in> set S" "pid_of s t = sender (messages s m)"
  shows "\<exists>s'. msgrecv_take p buffer n outsize s =
      Inr (Return 0 (size_report outsize (messages s m) @ [Write_Message buffer (messages s m)]), s')
    \<and> kernel_inv s' (R @ [t]) (remove1 t S) E PL (Q(p := ms))"
proof -
  let ?l = "upd_port p (\<lambda>q. q\<lparr>lock := 1\<rparr>) (take_message p m s)"
  have il: "sched_inv ?l R S E" "\<not> interrupts_enabled ?l" "pid_of ?l t = sender (messages s m)"
    using i f t(2) by (simp_all add: kernel_inv_def)
  let ?s2 = "append_ready t (remove_sleeping t ?l)"
  have k: "task_wake (sender (messages s m)) ?l = Inr ?s2" "sched_inv ?s2 (R @ [t]) (remove1 t S) E"
    using task_wake_sleeping [OF il(1) t(1) il(2)] il(3) by simp_all
  have "distinct S" using il(1) by (simp add: sched_inv_def sched_wf_def queues_def)
  then have "set (R @ [t]) \<union> set (remove1 t S) = set R \<union> set S" using t(1) by auto
  then have w: "woken ?l R S ?s2 (R @ [t]) (remove1 t S) E"
    using wokenI [OF k(2) wake_part_move] keeps_wake(1) [OF k(1)] by blast
  have "owns ?l (sched_blocks s R S E \<union> ipc_blocks PL Q)" using i by (simp add: kernel_inv_def)
  then have "owns ?s2 (sched_blocks s R S E \<union> ipc_blocks PL Q)" by (rule keeps_owns [OF keeps_wake(1) [OF k(1)]])
  moreover have "m \<in> ipc_blocks PL Q" using p q by (auto simp: ipc_blocks_def msgs_of_def intro!: bexI [of _ p])
  ultimately obtain s3 where s3: "kfree m ?s2 = Inr ((), s3)" using kfree_total by blast
  note t3 = kernel_inv_taken [OF i p q w s3]
  show ?thesis using n k(1) s3 t3(1) by (simp add: msgrecv_take_eq [OF i p q] unlock_port_run [OF t3(6)])
qed

section \<open>The handlers\<close>

text \<open>
  A task that waits in the kernel names a port that exists; ports are never closed. A message
  waiting to be sent is shorter than the user half of the address space.
\<close>

definition msg_fits :: "message \<Rightarrow> bool" where
  "msg_fits msg \<longleftrightarrow> unat (len msg) < 0xC0000000"

primrec cont_ok :: "ptr list \<Rightarrow> kcont \<Rightarrow> bool" where
  "cont_ok PL K_None \<longleftrightarrow> True"
| "cont_ok PL K_Sleep \<longleftrightarrow> True"
| "cont_ok PL (K_Send_Open n msg) \<longleftrightarrow> msg_fits msg"
| "cont_ok PL K_Send_Done \<longleftrightarrow> True"
| "cont_ok PL (K_Recv n p buffer sz outsize) \<longleftrightarrow> p \<in> set PL"
| "cont_ok PL (K_Wait n p) \<longleftrightarrow> p \<in> set PL"

definition conts_ok :: "'a ipc_state_scheme \<Rightarrow> ptr list \<Rightarrow> bool" where
  "conts_ok s PL \<longleftrightarrow> (\<forall>t. cont_ok PL (kstacks s t))"

definition kernel_ok :: "'a ipc_state_scheme \<Rightarrow> bool" where
  "kernel_ok s \<longleftrightarrow> (\<exists>R S E PL Q. kernel_inv s R S E PL Q \<and> conts_ok s PL)"

lemma kernel_okI: "kernel_inv s R S E PL Q \<Longrightarrow> conts_ok s PL \<Longrightarrow> kernel_ok s"
  unfolding kernel_ok_def by blast

lemma conts_ok_upd: "conts_ok s PL \<Longrightarrow> kstacks t = (kstacks s)(x := k) \<Longrightarrow> cont_ok PL k \<Longrightarrow> conts_ok t PL"
  by (simp add: conts_ok_def)

lemma conts_ok_same: "conts_ok s PL \<Longrightarrow> kstacks t = kstacks s \<Longrightarrow> conts_ok t PL"
  by (simp add: conts_ok_def)

lemma cont_ok_mono: "cont_ok PL k \<Longrightarrow> set PL \<subseteq> set PL' \<Longrightarrow> cont_ok PL' k"
  by (cases k) auto

text \<open>A state in which a task other than the idle task is in the kernel.\<close>

definition in_call :: "'a ipc_state_scheme \<Rightarrow> ptr list \<Rightarrow> ptr list \<Rightarrow> ptr list \<Rightarrow> ptr list \<Rightarrow> (ptr \<Rightarrow> ptr list) \<Rightarrow> bool" where
  "in_call s R S E PL Q \<longleftrightarrow> kernel_inv s R S E PL Q \<and> conts_ok s PL \<and> current_task s \<noteq> idle_task s"

lemma in_callD:
  assumes "in_call s R S E PL Q"
  shows "kernel_inv s R S E PL Q" "conts_ok s PL" "current_task s \<noteq> idle_task s" "ipc_wf s PL Q" "sched_inv s R S E"
  using assms by (auto simp: in_call_def kernel_inv_def)

lemma block_ok:
  assumes c: "in_call s R S E PL Q" and a: "task_block kregs k cr cs timeout s = Inr s'" "cont_ok PL k"
  shows "kernel_ok s'"
  using kernel_inv_block [OF in_callD(1,3) [OF c] a(1)] conts_ok_upd [OF in_callD(2) [OF c] _ a(2)] kernel_okI by metis

lemma deliver_ok:
  assumes c: "in_call s R S E PL Q" and a: "msgsend_deliver kregs p msg s = Inr (out, s')" "p \<in> set PL" "msg_fits msg"
  shows "kernel_ok s'"
proof -
  have "unat (len msg) + 160 < 2 ^ 32" using a(3) by (simp add: msg_fits_def)
  then obtain R' S' m where "kernel_inv s' R' S' E PL (Q(p := Q p @ [m]))" "kstacks s' = (kstacks s)(current_task s := K_Send_Done)"
    using kernel_inv_deliver [OF in_callD(1) [OF c] a(2) in_callD(3) [OF c] a(1)] by blast
  then show ?thesis using conts_ok_upd [OF in_callD(2) [OF c]] kernel_okI by fastforce
qed

lemma send_open_ok:
  assumes c: "in_call s R S E PL Q" and a: "msgsend_open kregs n msg s = Inr (out, s')" "msg_fits msg"
  shows "kernel_ok s'"
proof (cases "port_at s PL n = NULL")
  case True
  then obtain s1 where "task_block kregs (K_Send_Open n msg) INVALID_PORT n SLEEP_INFINITE s = Inr s1" "s' = s1"
    using a(1) by (auto simp: msgsend_open_def port_get_eq [OF in_callD(4) [OF c]] res_simps)
  then show ?thesis using block_ok [OF c] a(2) by simp
next
  case False
  then show ?thesis
    using a deliver_ok [OF c] port_at_in [OF False] by (simp add: msgsend_open_def port_get_eq [OF in_callD(4) [OF c]])
qed

lemma take_ok:
  assumes c: "in_call s R S E PL Q" and a: "msgrecv_take p buffer n outsize s = Inr (out, s')" "p \<in> set PL" "Q p \<noteq> []"
  shows "kernel_ok s'"
proof -
  obtain m ms where q: "Q p = m # ms" using a(3) by (cases "Q p") auto
  from kernel_inv_take [OF in_callD(1) [OF c] a(2) q a(1)] show ?thesis
    using in_callD(1,2) [OF c] conts_ok_same [OF in_callD(2) [OF c], of s'] kernel_okI by (metis (no_types, lifting))
qed

lemma recv_ok:
  assumes c: "in_call s R S E PL Q" and a: "msgrecv_wait kregs n p buffer sz outsize s = Inr (out, s')" "p \<in> set PL"
  shows "kernel_ok s'"
proof (cases "Q p = []")
  case True
  then obtain s1 where k: "wake_tasks_waiting_for_port n s = Inr s1"
      "task_block kregs (K_Recv n p buffer sz outsize) n INVALID_PORT SLEEP_INFINITE s1 = Inr s'"
    using a(1) by (auto simp: msgrecv_wait_def queue_empty_eq [OF in_callD(4) [OF c] a(2)] res_simps)
  obtain R' S' where w: "woken s R S s1 R' S' E" using woken_wake_tasks [OF in_callD(5) [OF c] k(1)] by blast
  then have "in_call s1 R' S' E PL Q"
    using kernel_inv_woken [OF in_callD(1) [OF c] w] c by (simp add: in_call_def woken_def wake_part_def conts_ok_def)
  then show ?thesis by (rule block_ok [OF _ k(2)]) (use a(2) in simp)
next
  case False
  then show ?thesis using a take_ok [OF c] by (simp add: msgrecv_wait_def queue_empty_eq [OF in_callD(4) [OF c] a(2)])
qed

lemma wait_ok:
  assumes c: "in_call s R S E PL Q" and a: "msgwait_loop kregs n p s = Inr (out, s')" "p \<in> set PL"
  shows "kernel_ok s'"
proof (cases "Q p = []")
  case True
  then obtain s1 where "task_block kregs (K_Wait n p) n INVALID_PORT SLEEP_INFINITE s = Inr s1" "s' = s1"
    using a(1) by (auto simp: msgwait_loop_def queue_empty_eq [OF in_callD(4) [OF c] a(2)] res_simps)
  then show ?thesis using block_ok [OF c] a(2) by simp
next
  case False
  then show ?thesis using a in_callD(1,2) [OF c] kernel_okI by (auto simp: msgwait_loop_def queue_empty_eq [OF in_callD(4) [OF c] a(2)])
qed

lemma portopen_ok:
  assumes c: "in_call s R S E PL Q" and a: "syscall_portopen_handler regs s = Inr (out, s')"
  shows "kernel_ok s'"
proof -
  obtain PL' Q' where k: "kernel_inv s' R S E PL' Q'" "sched_part s' = sched_part s" "set PL \<subseteq> set PL'"
    using kernel_inv_portopen [OF in_callD(1) [OF c] a] by blast
  have "kstacks s' = kstacks s" by (rule sched_partD(9) [OF k(2)])
  then have "conts_ok s' PL'" using in_callD(2) [OF c] cont_ok_mono [OF _ k(3)] by (auto simp: conts_ok_def)
  then show ?thesis using k(1) by (rule kernel_okI [rotated])
qed

lemma msgsend_ok:
  assumes c: "in_call s R S E PL Q" and a: "syscall_msgsend_handler kregs regs msg s = Inr (out, s')" "msg_fits msg"
  shows "kernel_ok s'"
  using a send_open_ok [OF c] by (auto simp: syscall_msgsend_handler_def res_simps)

lemma msgrecv_ok:
  assumes c: "in_call s R S E PL Q" and a: "syscall_msgrecv_handler kregs regs s = Inr (out, s')"
  shows "kernel_ok s'"
  using a recv_ok [OF c] port_at_in kernel_okI [OF in_callD(1,2) [OF c]]
  by (fastforce simp: syscall_msgrecv_handler_def res_simps Let_def port_get_eq [OF in_callD(4) [OF c]] split: if_splits)

lemma msgwait_ok:
  assumes c: "in_call s R S E PL Q" and a: "syscall_msgwait_handler kregs regs s = Inr (out, s')"
  shows "kernel_ok s'"
  using a wait_ok [OF c] port_at_in kernel_okI [OF in_callD(1,2) [OF c]]
  by (fastforce simp: syscall_msgwait_handler_def res_simps Let_def port_get_eq [OF in_callD(4) [OF c]] split: if_splits)

lemma msgpeek_same:
  assumes w: "ipc_wf s PL Q" and a: "syscall_msgpeek_handler regs s = Inr (out, s')"
  shows "s' = s"
proof (cases "port_at s PL (sint (r_ebx regs)) = NULL")
  case False
  then have "lock (ports s (port_at s PL (sint (r_ebx regs)))) = 0" using w port_at_in [OF False] by (auto simp: ipc_wf_def)
  then show ?thesis
    using a False by (auto simp: syscall_msgpeek_handler_def port_get_eq [OF w] lock_port_run unlock_port_def res_simps
        upd_port_same port_unlocked)
qed (use a in \<open>simp add: syscall_msgpeek_handler_def port_get_eq [OF w]\<close>)

lemma resume_ok:
  assumes c: "in_call s R S E PL Q" and a: "resume kregs s = Inr (out, s')"
  shows "kernel_ok s'"
proof -
  let ?s = "s\<lparr>kstacks := (kstacks s)(current_task s := K_None)\<rparr>"
  have more: "sched_state.more ?s = sched_state.more s" by simp
  have "kernel_inv ?s R S E PL Q"
    using in_callD(1) [OF c] ipc_wf_cong [OF more] by (simp add: kernel_inv_def sched_inv_def sched_blocks_def dir_of_def [abs_def])
  then have s: "in_call ?s R S E PL Q" using c by (simp add: in_call_def conts_ok_def)
  have "cont_ok PL (kstacks s (current_task s))" using in_callD(2) [OF c] by (simp add: conts_ok_def)
  then show ?thesis
    using a send_open_ok [OF s] recv_ok [OF s] wait_ok [OF s] kernel_okI [OF in_callD(1,2) [OF s]]
    by (cases "kstacks s (current_task s)") (auto simp: resume_def Let_def res_simps)
qed

end
