(* ===== verification/Elf.thy ===== *)
theory Elf
  imports IpcInv
begin

text \<open>
  Loading an executable (\<open>kernel/elf.c\<close>). The file is a list of bytes and the fields of the two
  ELF structures are read from it at their offsets; a read behind the end of the file is
  undefined. The segments are written to memory through the page tables, byte by byte.
\<close>

section \<open>Reading the file\<close>

definition rd16 :: "u8 list \<Rightarrow> nat \<Rightarrow> u16 res" where
  "rd16 b p = res_bind (rd b p) (\<lambda>b0. res_bind (rd b (p + 1)) (\<lambda>b1. Inr (ucast b0 OR push_bit 8 (ucast b1))))"

definition rd32 :: "u8 list \<Rightarrow> nat \<Rightarrow> u32 res" where
  "rd32 b p = res_bind (rd16 b p) (\<lambda>h0. res_bind (rd16 b (p + 2)) (\<lambda>h1. Inr (ucast h0 OR push_bit 16 (ucast h1))))"

text \<open>The fields of \<open>Elf32_Ehdr\<close>, at the start of the file.\<close>

definition e_ident :: "u8 list \<Rightarrow> nat \<Rightarrow> u8 res" where "e_ident b i = rd b i"
definition e_type :: "u8 list \<Rightarrow> u16 res" where "e_type b = rd16 b 16"
definition e_machine :: "u8 list \<Rightarrow> u16 res" where "e_machine b = rd16 b 18"
definition e_version :: "u8 list \<Rightarrow> u32 res" where "e_version b = rd32 b 20"
definition e_entry :: "u8 list \<Rightarrow> u32 res" where "e_entry b = rd32 b 24"
definition e_phoff :: "u8 list \<Rightarrow> u32 res" where "e_phoff b = rd32 b 28"
definition e_phentsize :: "u8 list \<Rightarrow> u16 res" where "e_phentsize b = rd16 b 42"
definition e_phnum :: "u8 list \<Rightarrow> u16 res" where "e_phnum b = rd16 b 44"

text \<open>The fields of the \<open>Elf32_Phdr\<close> at offset \<open>p\<close>.\<close>

definition SIZEOF_PHDR :: nat where "SIZEOF_PHDR = 32"
definition p_type :: "u8 list \<Rightarrow> nat \<Rightarrow> u32 res" where "p_type b p = rd32 b p"
definition p_offset :: "u8 list \<Rightarrow> nat \<Rightarrow> u32 res" where "p_offset b p = rd32 b (p + 4)"
definition p_vaddr :: "u8 list \<Rightarrow> nat \<Rightarrow> u32 res" where "p_vaddr b p = rd32 b (p + 8)"
definition p_filesz :: "u8 list \<Rightarrow> nat \<Rightarrow> u32 res" where "p_filesz b p = rd32 b (p + 16)"
definition p_memsz :: "u8 list \<Rightarrow> nat \<Rightarrow> u32 res" where "p_memsz b p = rd32 b (p + 20)"
definition p_flags :: "u8 list \<Rightarrow> nat \<Rightarrow> u32 res" where "p_flags b p = rd32 b (p + 24)"

definition EI_CLASS :: nat where "EI_CLASS = 4"
definition EI_DATA :: nat where "EI_DATA = 5"
definition ELFCLASS32 :: u8 where "ELFCLASS32 = 1"
definition ELFDATA2LSB :: u8 where "ELFDATA2LSB = 1"
definition ET_EXEC :: u16 where "ET_EXEC = 2"
definition EM_386 :: u16 where "EM_386 = 3"
definition EV_CURRENT :: u32 where "EV_CURRENT = 1"
definition PT_LOAD :: u32 where "PT_LOAD = 1"
definition PF_W :: u32 where "PF_W = 2"

section \<open>Writing to memory\<close>

text \<open>Physical memory is a store of words; a byte is a part of the word around it.\<close>

definition byte_shift :: "u32 \<Rightarrow> nat" where
  "byte_shift pa = 8 * unat (pa AND 3)"

definition put_byte :: "u32 \<Rightarrow> nat \<Rightarrow> u8 \<Rightarrow> u32" where
  "put_byte w k c = w AND NOT (push_bit k 0xFF) OR push_bit k (ucast c)"

definition get_byte :: "u32 \<Rightarrow> nat \<Rightarrow> u8" where
  "get_byte w k = ucast (drop_bit k w)"

definition store8 :: "'a vmm_state_scheme \<Rightarrow> u32 \<Rightarrow> u8 \<Rightarrow> 'a vmm_state_scheme res" where
  "store8 s va c =
     res_bind (translate s True va) (\<lambda>pa.
     let a = pa AND NOT 3 in Inr (s\<lparr>phys := (phys s)(a := put_byte (phys s a) (byte_shift pa) c)\<rparr>))"

definition load8 :: "'a vmm_state_scheme \<Rightarrow> u32 \<Rightarrow> u8 res" where
  "load8 s va = res_bind (translate s False va) (\<lambda>pa. Inr (get_byte (phys s (pa AND NOT 3)) (byte_shift pa)))"

primrec write_bytes :: "u32 \<Rightarrow> u8 list \<Rightarrow> 'a vmm_state_scheme \<Rightarrow> 'a vmm_state_scheme res" where
  "write_bytes va [] s = Inr s"
| "write_bytes va (c # cs) s = res_bind (store8 s va c) (write_bytes (va + 1) cs)"

definition file_slice :: "u8 list \<Rightarrow> u32 \<Rightarrow> u32 \<Rightarrow> u8 list res" where
  "file_slice b off n =
     (if unat off + unat n \<le> length b then Inr (take (unat n) (drop (unat off) b)) else Inl Undefined)"

section \<open>\<open>load_elf\<close>\<close>

definition check_header :: "u8 list \<Rightarrow> u32 res" where
  "check_header b =
     res_bind (e_ident b 0) (\<lambda>c. assert_then (c = 0x7F) (
     res_bind (e_ident b 1) (\<lambda>c. assert_then (c = 0x45) (
     res_bind (e_ident b 2) (\<lambda>c. assert_then (c = 0x4C) (
     res_bind (e_ident b 3) (\<lambda>c. assert_then (c = 0x46) (
     res_bind (e_ident b EI_CLASS) (\<lambda>c. assert_then (c = ELFCLASS32) (
     res_bind (e_ident b EI_DATA) (\<lambda>c. assert_then (c = ELFDATA2LSB) (
     res_bind (e_type b) (\<lambda>h. assert_then (h = ET_EXEC) (
     res_bind (e_machine b) (\<lambda>h. assert_then (h = EM_386) (
     res_bind (e_version b) (\<lambda>w. assert_then (w = EV_CURRENT) (
     res_bind (e_entry b) (\<lambda>w. assert_then (w \<noteq> NULL) (Inr w))))))))))))))))))))"

partial_function (option) map_segment :: "u32 \<Rightarrow> u32 \<Rightarrow> 'a vmm_state_scheme \<Rightarrow> 'a vmm_state_scheme res option" where
  "map_segment page segment_end s =
     (if page < segment_end then
        (case pmm_alloc s of
           Inl e \<Rightarrow> Some (Inl e)
         | Inr (frame, s) \<Rightarrow>
             if frame = INVALID_FRAME then Some (Inl Assert_Failed)
             else (case vmm_map page frame (VMM_PAGE_PRESENT OR VMM_PAGE_WRITABLE) s of
                     Inl e \<Rightarrow> Some (Inl e)
                   | Inr (_, s) \<Rightarrow> map_segment (page + PAGE_SIZE) segment_end s))
      else Some (Inr s))"

partial_function (option) remap_segment :: "u32 \<Rightarrow> u32 \<Rightarrow> u32 \<Rightarrow> 'a vmm_state_scheme \<Rightarrow> 'a vmm_state_scheme res option" where
  "remap_segment page segment_end page_flags s =
     (if page < segment_end then
        (case vmm_remap page page_flags s of
           Inl e \<Rightarrow> Some (Inl e)
         | Inr (_, s) \<Rightarrow> remap_segment (page + PAGE_SIZE) segment_end page_flags s)
      else Some (Inr s))"

declare map_segment.simps [code] remap_segment.simps [code]

definition load_segment :: "u8 list \<Rightarrow> nat \<Rightarrow> 'a vmm_state_scheme \<Rightarrow> 'a vmm_state_scheme res" where
  "load_segment b p s =
     res_bind (p_type b p) (\<lambda>ty.
     if ty = PT_LOAD then
       res_bind (p_memsz b p) (\<lambda>memsz. assert_then (memsz \<noteq> 0) (
       res_bind (p_flags b p) (\<lambda>fl.
       let page_flags = VMM_PAGE_PRESENT OR VMM_PAGE_USER;
           page_flags = (if fl AND PF_W \<noteq> 0 then page_flags OR VMM_PAGE_WRITABLE else page_flags)
       in
       res_bind (p_vaddr b p) (\<lambda>segment_start.
       let segment_end = segment_start + memsz in
       assert_then (segment_start \<ge> USER_START) (
       assert_then (segment_end \<le> USER_END) (
       res_bind (loop_result (map_segment segment_start segment_end s)) (\<lambda>s.
       res_bind (write_bytes segment_start (replicate (unat memsz) 0) s) (\<lambda>s.
       res_bind (p_filesz b p) (\<lambda>filesz.
       res_bind
         (if filesz \<noteq> 0 then
            res_bind (p_offset b p) (\<lambda>off.
            res_bind (file_slice b off filesz) (\<lambda>bytes. write_bytes segment_start bytes s))
          else Inr s) (\<lambda>s.
       loop_result (remap_segment segment_start segment_end page_flags s)))))))))))
     else Inr s)"

definition load_elf :: "u8 list \<Rightarrow> 'a vmm_state_scheme \<Rightarrow> (u32 \<times> 'a vmm_state_scheme) res" where
  "load_elf b s =
     res_bind (check_header b) (\<lambda>entry.
     res_bind (e_phoff b) (\<lambda>phoff.
     res_bind (e_phentsize b) (\<lambda>sz. assert_then (unat sz = SIZEOF_PHDR) (
     res_bind (e_phnum b) (\<lambda>n.
     res_bind (for_each (\<lambda>i. load_segment b (unat phoff + i * SIZEOF_PHDR)) [0..<unat n] s) (\<lambda>s.
       Inr (entry, s)))))))"

end
