(* ===== verification/VmmData.thy ===== *)
theory VmmData
  imports VmmDir
begin

text \<open>
  Memory behind the page tables: the frames that hold the directory and the tables, and that
  mapping and remapping a page changes words of these frames only. Whoever writes to frames
  of its own keeps the tables, and its data is not touched by later mappings.
\<close>

section \<open>The frames of the page tables\<close>

definition tables :: "'a vmm_state_scheme \<Rightarrow> u32 set" where
  "tables s = insert (cr3 s) {dirent s i AND 0xFFFFF000 |i. unat i < 1023 \<and> dirent s i AND 1 \<noteq> 0}"

lemma tables_dir [simp, intro]: "cr3 s \<in> tables s"
  by (simp add: tables_def)

lemma tables_table: "unat i < 1023 \<Longrightarrow> dirent s i AND 1 \<noteq> 0 \<Longrightarrow> dirent s i AND 0xFFFFF000 \<in> tables s"
  by (auto simp: tables_def)

lemma tables_not_free: "vmm_wf s \<Longrightarrow> f \<in> tables s \<Longrightarrow> unat f \<notin> free_frames s"
  by (auto simp: tables_def vmm_wf_def)

lemma tables_cong:
  "cr3 s' = cr3 s \<Longrightarrow> (\<And>k. unat k < 1023 \<Longrightarrow> dirent s' k = dirent s k) \<Longrightarrow> tables s' = tables s"
  by (auto simp: tables_def) metis+

text \<open>The frame of an address.\<close>

abbreviation frame_of :: "u32 \<Rightarrow> u32" where
  "frame_of x \<equiv> x AND 0xFFFFF000"

lemma frame_of_entry: "unat i < 1024 \<Longrightarrow> frame_of (entry_addr t i) = frame_of t"
  by (simp add: word_unat_eq_iff unat_frame_part unat_entry_addr)

section \<open>Words outside of the tables\<close>

text \<open>
  From \<open>s\<close> to \<open>t\<close> words of the page tables changed only, and new tables came from free frames.
\<close>

definition keeps_data :: "'a vmm_state_scheme \<Rightarrow> 'a vmm_state_scheme \<Rightarrow> bool" where
  "keeps_data s t \<longleftrightarrow>
     (\<forall>x. frame_of x \<notin> tables t \<longrightarrow> phys t x = phys s x)
     \<and> (\<forall>f\<in>tables t. f \<in> tables s \<or> unat f \<in> free_frames s) \<and> tables s \<subseteq> tables t \<and> free_frames t \<subseteq> free_frames s"

lemma keeps_data_refl [simp, intro]: "keeps_data s s"
  by (simp add: keeps_data_def)

lemma keeps_data_trans:
  assumes "keeps_data s t" "keeps_data t u"
  shows "keeps_data s u"
proof -
  have "phys u x = phys s x" if "frame_of x \<notin> tables u" for x
    using assms that unfolding keeps_data_def by (metis subsetD)
  moreover have "f \<in> tables s \<or> unat f \<in> free_frames s" if "f \<in> tables u" for f
    using assms that unfolding keeps_data_def by blast
  ultimately show ?thesis using assms unfolding keeps_data_def by blast
qed

lemma keeps_data_cong:
  "phys t = phys s \<Longrightarrow> cr3 t = cr3 s \<Longrightarrow> memregions t = memregions s \<Longrightarrow> keeps_data s t"
  using tables_cong [of t s] free_frames_cong [of t s] by (simp add: keeps_data_def dirent_def)

lemma keeps_data_table:
  assumes "vmm_wf s" "unat i < 1023" "dirent s i AND 1 \<noteq> 0" "unat j < 1024"
  shows "keeps_data s (put_table i j w s)" "tables (put_table i j w s) = tables s"
proof -
  show t: "tables (put_table i j w s) = tables s"
    by (rule tables_cong) (use assms dirent_put_table [OF assms(1-4)] in auto)
  have "frame_of (entry_addr (dirent s i) j) \<in> tables s"
    using frame_of_entry [OF assms(4)] tables_table [OF assms(2,3)] by simp
  then show "keeps_data s (put_table i j w s)"
    unfolding keeps_data_def t using free_frames_cong [of "put_table i j w s" s] by (auto simp: put_table_def)
qed

lemma zero_words_data:
  assumes "vmm_wf s" "unat i < 1023" "dirent s i AND 1 \<noteq> 0" "dir_index info = i" "set js \<subseteq> {..<1024}"
    "zero_words js (get_pagetable info) s = Inr t"
  shows "keeps_data s t"
  using assms
proof (induction js arbitrary: s)
  case (Cons j js)
  have j: "unat (of_nat j :: u32) = j" "j < 1024" using Cons.prems(5) by (simp_all add: unat_of_nat)
  let ?s = "put_table i (of_nat j) 0 s"
  have st: "store32 s (get_pagetable info + 4 * of_nat j) 0 = Inr ?s"
    using store_table [of s i "of_nat j" info 0] Cons.prems j by (simp add: pagedir_entry_def)
  have d: "dirent ?s i AND 1 \<noteq> 0" using dirent_put_table [of s i "of_nat j" i] Cons.prems(1-3) j by simp
  have wf: "vmm_wf ?s" using Cons.prems j by (intro vmm_wf_put_table) simp_all
  have "keeps_data s ?s" by (rule keeps_data_table) (use Cons.prems j in auto)
  moreover have "keeps_data ?s t" by (rule Cons.IH [OF wf Cons.prems(2) d Cons.prems(4)]) (use Cons.prems(5,6) st in auto)
  ultimately show ?case by (rule keeps_data_trans)
qed simp

lemma vmm_map_body_data:
  assumes wf: "vmm_wf s" and i: "unat (PAGE_DIRECTORY_INDEX va) < 1023" and r: "vmm_map_body va pa flags s = Inr ((), t)"
  shows "keeps_data s t"
proof -
  let ?i = "PAGE_DIRECTORY_INDEX va" and ?j = "PAGE_TABLE_INDEX va"
  have ij: "unat ?i < 1024" "unat ?j < 1024" using index_bounds by simp_all
  show ?thesis
  proof (cases "dirent s ?i AND 1 = 0")
    case False
    then show ?thesis
      using r vmm_map_body_present [OF wf i refl refl False] keeps_data_table(1) [OF wf i False ij(2)] by (auto split: if_splits)
  next
    case True
    obtain f s1 where a: "pmm_alloc s = Inr (f, s1)" "f \<noteq> INVALID_FRAME"
      using r True load_dir [OF wf ij(1)] by (auto simp: vmm_map_body_def Let_def res_simps PDE_PRESENT_def)
    note af = alloc_frame_facts [OF wf a]
    define e s2 where "e = f OR 1 OR 4 OR 2" and "s2 = put_dir ?i e s1"
    have c: "cr3 s1 = cr3 s" "dirent s1 = dirent s" "phys s1 = phys s" by (subst af(1), simp add: dirent_def fun_eq_iff)+
    have wf2: "vmm_wf s2" unfolding s2_def e_def by (rule vmm_wf_put_dir) (use af i c True in auto)
    have d2: "dirent s2 k = (if k = ?i then e else dirent s k)" if "unat k < 1024" for k
      using that ij by (simp add: s2_def dirent_put_dir c)
    have e: "dirent s2 ?i = e" "e AND 1 \<noteq> 0" using d2 [of ?i] ij and_bits_or(1) [of f] by (simp_all add: e_def)
    have fe: "frame_of e = f" unfolding e_def by (rule new_entry(2) [OF af(3)])
    have sub: "set [0..<1024] \<subseteq> {..<1024::nat}" by auto
    obtain s3 where s3: "zero_words [0..<1024] (get_pagetable (va_info va)) s2 = Inr s3" "vmm_wf s3"
        "s3 = s2\<lparr>phys := phys s3\<rparr>" "\<forall>k. unat k < 1024 \<longrightarrow> dirent s3 k = dirent s2 k"
      using zero_words_table [OF wf2 i _ _ sub, of "va_info va"] e by (auto simp del: upt_rec_numeral)
    have e3: "dirent s3 ?i AND 1 \<noteq> 0" using s3(4) e ij by simp
    have pres: "dirent s ?i AND PDE_PRESENT = 0" "e AND PDE_PRESENT \<noteq> 0" "f OR PDE_PRESENT OR PDE_USER OR PDE_WRITABLE = e"
      using True e(2) by (simp_all only: page_flag_defs e_def simp_thms)
    have t: "t = put_table ?i ?j (pa AND PTE_FRAME OR flags) s3"
      using r a pres s3(1) load_dir [OF wf ij(1)] load_dir [OF wf2 ij(1)] store_dir [OF af(7) ij(1), of e]
        store_table [OF s3(2) ij _ e3, of "va_info va"]
      by (simp add: vmm_map_body_def flush_tlb_eq Let_def bzero_table_def s2_def [symmetric] e(1) del: upt_rec_numeral)
    have d3: "dirent s2 k = (if k = ?i then e else dirent s k)" if "unat k < 1023" for k using d2 [of k] that by simp
    have tb: "tables s2 = insert f (tables s)"
    proof (rule set_eqI, rule iffI)
      fix g assume "g \<in> tables s2"
      then consider "g = cr3 s" | k where "unat k < 1023" "dirent s2 k AND 1 \<noteq> 0" "g = frame_of (dirent s2 k)"
        by (auto simp: tables_def s2_def c)
      then show "g \<in> insert f (tables s)" using fe tables_table [of _ s] by cases (auto simp: d3 split: if_splits)
    next
      fix g assume "g \<in> insert f (tables s)"
      then consider "g = f" | "g = cr3 s" | k where "unat k < 1023" "dirent s k AND 1 \<noteq> 0" "g = frame_of (dirent s k)"
        by (auto simp: tables_def)
      then show "g \<in> tables s2"
      proof cases
        case 1
        then show ?thesis using tables_table [OF i, of s2] e fe by simp
      next
        case 2
        then show ?thesis by (simp add: tables_def s2_def c)
      next
        case 3
        then have "dirent s2 k = dirent s k" using d3 [of k] True by (cases "k = ?i") simp_all
        then show ?thesis using tables_table [of k s2] 3 by simp
      qed
    qed
    have "keeps_data s s2"
      unfolding keeps_data_def tb using af(4,5) frame_of_entry [OF ij(1), of "cr3 s"] wf free_frames_cong [of s2 s1]
      by (auto simp: s2_def put_dir_def c vmm_wf_def)
    moreover have "keeps_data s2 s3"
      by (rule zero_words_data [OF wf2 i _ _ sub s3(1)]) (use e in auto)
    moreover have "keeps_data s3 t" unfolding t by (rule keeps_data_table(1) [OF s3(2) i e3 ij(2)])
    ultimately show ?thesis using keeps_data_trans by blast
  qed
qed

lemma keeps_data_critical:
  assumes "critical body s = Inr (r, t)" "\<And>u. body (cli s) = Inr (r, u) \<Longrightarrow> keeps_data (cli s) u"
  shows "keeps_data s t"
proof -
  obtain u where u: "body (cli s) = Inr (r, u)" "t = restore_if (fst (disable_if s)) u"
    using assms(1) by (auto simp: critical_Inr)
  have "keeps_data s (cli s)" by (rule keeps_data_cong) (simp_all add: cli_def)
  moreover have "keeps_data u t" by (rule keeps_data_cong) (simp_all add: u(2) restore_if_def cli_def sti_def)
  ultimately show ?thesis using assms(2) [OF u(1)] keeps_data_trans by blast
qed

lemma vmm_map_data:
  assumes "vmm_wf s" "mappable va" "vmm_map va pa flags s = Inr ((), t)"
  shows "keeps_data s t"
proof -
  have "critical (vmm_map_body va pa flags) s = Inr ((), t)" using assms(3) by (auto simp: vmm_map_def res_simps)
  then show ?thesis
    by (rule keeps_data_critical) (rule vmm_map_body_data [OF _ mappable_dir [OF assms(2)]], use assms(1) in simp_all)
qed

lemma vmm_remap_data:
  assumes "vmm_wf s" "mappable va" "vmm_remap va flags s = Inr ((), t)"
  shows "keeps_data s t"
proof -
  let ?i = "PAGE_DIRECTORY_INDEX va" and ?j = "PAGE_TABLE_INDEX va"
  have b: "unat ?i < 1023" "unat ?i < 1024" "unat ?j < 1024" using mappable_dir [OF assms(2)] index_bounds by simp_all
  have c: "vmm_wf (cli s)" using assms(1) by simp
  have "critical (\<lambda>s.
         let info = va_info va; table = get_pagetable info; pte_addr = pagedir_entry table (table_index info) in
         res_bind (load32 s (pagedir_entry current_pagedir (dir_index info))) (\<lambda>pde.
         assert_then (pde AND PDE_PRESENT \<noteq> 0)
         (res_bind (load32 s pte_addr) (\<lambda>pte.
          assert_then (pte AND PTE_PRESENT \<noteq> 0)
          (res_bind (store32 s pte_addr (pte AND PTE_FRAME OR flags)) (\<lambda>s. flush_tlb s)))))) s = Inr ((), t)"
    using assms(3) by (simp add: vmm_remap_def assert_then_eq_Inr)
  then show ?thesis
    by (rule keeps_data_critical)
      (use load_dir [OF c b(2)] store_table [OF c b(2,3), of "va_info va"] keeps_data_table(1) [OF c b(1) _ b(3)]
       in \<open>auto simp: Let_def res_simps flush_tlb_eq PDE_PRESENT_def\<close>)
qed

lemma pmm_alloc_data:
  assumes "vmm_wf s" "pmm_alloc s = Inr (f, t)" "f \<noteq> INVALID_FRAME"
  shows "keeps_data s t" "tables t = tables s" "phys t = phys s" "pagemap t = pagemap s" "f \<notin> tables t" "frame_of f = f"
    "unat f \<notin> free_frames t" "unat f \<in> free_frames s" "vmm_wf t"
proof -
  note af = alloc_frame_facts [OF assms]
  show c: "tables t = tables s" "phys t = phys s" "pagemap t = pagemap s"
    by (subst af(1), simp add: tables_def pagemap_def tabent_def dirent_def fun_eq_iff)+
  show "keeps_data s t" using c af(5) by (auto simp: keeps_data_def)
  show "f \<notin> tables t" using tables_not_free [OF assms(1)] af(4) c(1) by auto
qed (use alloc_frame_facts [OF assms] in auto)

end
