(* ===== verification/ElfLoad.thy ===== *)
theory ElfLoad
  imports Elf VmmData
begin

text \<open>
  What \<open>load_elf\<close> does to memory: every page of a segment gets a frame of its own, the bytes of
  the file are found at the addresses of the segment and zeros behind them, and segments
  loaded before keep their contents.
\<close>

section \<open>Bytes of words\<close>

lemma get_put_byte:
  assumes "k = 8 * i" "k' = 8 * j" "i < 4" "j < 4"
  shows "get_byte (put_byte w k c) k' = (if k' = k then c else get_byte w k')"
proof (rule bit_eqI)
  fix n assume "possible_bit TYPE(u8) n"
  then have n: "n < 8" by simp
  have p: "put_byte w k c = w AND NOT (push_bit k (mask 8)) OR push_bit k (ucast c)" by (simp add: put_byte_def mask_eq_decr_exp)
  have c: "bit c q \<Longrightarrow> q < 8" for q using bit_imp_le_length [of c q] by simp
  have "k' + n - k < 8 \<longleftrightarrow> i = j" if "k \<le> k' + n" using that n assms by auto
  then show "bit (get_byte (put_byte w k c) k') n \<longleftrightarrow> bit (if k' = k then c else get_byte w k') n"
    using n assms c unfolding p
    by (auto simp: get_byte_def bit_simps)
qed

lemma byte_shift_cases: "\<exists>i<4. byte_shift pa = 8 * i"
proof -
  have "unat (pa AND 3) < 4" using unat_and_mask [of pa 2] by (simp add: mask_eq_decr_exp)
  then show ?thesis by (auto simp: byte_shift_def)
qed

lemma unat_word_part: "unat ((x :: u32) AND NOT 3) = unat x div 4 * 4" "unat ((x :: u32) AND 3) = unat x mod 4"
  "unat ((x :: u32) AND - 4) = unat x div 4 * 4"
proof -
  have m: "(3 :: u32) = mask 2" by (simp add: mask_eq_decr_exp)
  show "unat (x AND NOT 3) = unat x div 4 * 4" "unat (x AND 3) = unat x mod 4"
    unfolding m using unat_and_not_mask [of x 2] unat_and_mask [of x 2] by simp_all
  then show "unat (x AND - 4) = unat x div 4 * 4" by simp
qed

text \<open>The byte of physical memory at an address.\<close>

definition cell :: "'a vmm_state_scheme \<Rightarrow> u32 \<Rightarrow> u8" where
  "cell s pa = get_byte (phys s (pa AND NOT 3)) (byte_shift pa)"

definition put_cell :: "u32 \<Rightarrow> u8 \<Rightarrow> 'a vmm_state_scheme \<Rightarrow> 'a vmm_state_scheme" where
  "put_cell pa c s = s\<lparr>phys := (phys s)(pa AND NOT 3 := put_byte (phys s (pa AND NOT 3)) (byte_shift pa) c)\<rparr>"

lemma same_cell:
  assumes "pa AND NOT 3 = pb AND NOT 3" "byte_shift pa = byte_shift pb"
  shows "pa = pb"
proof -
  have "unat pa div 4 * 4 = unat pb div 4 * 4" using assms(1) by (metis unat_word_part(1))
  moreover have "unat pa mod 4 = unat pb mod 4" using assms(2) by (simp add: byte_shift_def unat_word_part(2))
  ultimately have "unat pa = unat pb" by (metis div_mult_mod_eq)
  then show ?thesis by (simp add: word_unat_eq_iff)
qed

lemma cell_put: "cell (put_cell pa c s) pb = (if pb = pa then c else cell s pb)"
proof (cases "pb AND NOT 3 = pa AND NOT 3")
  case True
  obtain i j where "i < 4" "j < 4" "byte_shift pa = 8 * i" "byte_shift pb = 8 * j" using byte_shift_cases by metis
  then show ?thesis using True same_cell [of pb pa] get_put_byte by (auto simp: cell_def put_cell_def)
next
  case False
  then show ?thesis by (auto simp: cell_def put_cell_def)
qed

text \<open>An address in a frame.\<close>

lemma frame_offset:
  assumes "frame_of f = f"
  shows "unat (f + (va AND 0xFFF)) = unat f + unat va mod 4096" "frame_of (f + (va AND 0xFFF)) = f"
    "frame_of ((f + (va AND 0xFFF)) AND NOT 3) = f"
proof -
  have f: "unat f = unat f div 4096 * 4096" using assms by (metis unat_frame_part)
  have "unat f < 4294967296" using unsigned_less [of f] by simp
  then have q: "unat f div 4096 < 1048576" by (simp add: less_mult_imp_div_less)
  have o: "unat va mod 4096 < 4096" by simp
  show u: "unat (f + (va AND 0xFFF)) = unat f + unat va mod 4096"
    by (subst unat_add32) (use f q o in \<open>simp_all add: unat_offset_part\<close>)
  have "(unat f + unat va mod 4096) div 4096 = unat f div 4096"
    by (subst f) simp
  then show "frame_of (f + (va AND 0xFFF)) = f"
    using f by (simp add: word_unat_eq_iff unat_frame_part u)
  define q where "q = unat f div 4096"
  have q: "unat f = 4 * (q * 1024)" using f unfolding q_def by linarith
  have r: "(4 * (q * 1024) + m) div 4 * 4 = 4096 * q + m div 4 * 4" "m div 4 * 4 \<le> m" for m :: nat
    by (subst div_mult_self4) simp_all
  have "(unat f + unat va mod 4096) div 4 * 4 div 4096 = q"
    unfolding q r(1) using le_less_trans [OF r(2) o] by (intro div_nat_eqI) simp_all
  moreover have "unat f div 4096 = q" by (simp add: q_def)
  ultimately have "(unat f + unat va mod 4096) div 4 * 4 div 4096 = unat f div 4096" by simp
  then show "frame_of ((f + (va AND 0xFFF)) AND NOT 3) = f"
    using f by (simp add: word_unat_eq_iff unat_frame_part unat_word_part u)
qed

section \<open>Pages with frames of their own\<close>

text \<open>
  The pages \<open>A\<close> are mapped, each to a frame \<open>fr p\<close> that no other of them has, that is not free and
  that is not used for page tables.
\<close>

definition placed :: "'a vmm_state_scheme \<Rightarrow> u32 set \<Rightarrow> (u32 \<Rightarrow> u32) \<Rightarrow> bool" where
  "placed s A fr \<longleftrightarrow>
     vmm_wf s \<and> inj_on fr A \<and>
     (\<forall>p\<in>A. mappable p \<and> (\<exists>e. pagemap_at s p = Some e \<and> frame_of e = fr p) \<and> fr p \<notin> tables s \<and> unat (fr p) \<notin> free_frames s)"

lemma placedD:
  assumes "placed s A fr" "p \<in> A"
  obtains e where "mappable p" "pagemap_at s p = Some e" "frame_of e = fr p" "fr p \<notin> tables s" "unat (fr p) \<notin> free_frames s"
    "frame_of (fr p) = fr p"
proof -
  obtain e where e: "pagemap_at s p = Some e" "frame_of e = fr p" using assms unfolding placed_def by blast
  then have "frame_of (fr p) = fr p" by (metis frame_part_idem)
  then show thesis using that e assms unfolding placed_def by blast
qed

lemma page_indexes: "PAGE_DIRECTORY_INDEX (frame_of va) = PAGE_DIRECTORY_INDEX va" "PAGE_TABLE_INDEX (frame_of va) = PAGE_TABLE_INDEX va"
proof -
  have "unat va div 4096 * 4096 div 4194304 = unat va div 4194304"
    using div_mult2_eq [of "unat va" 4096 1024] div_mult2_eq [of "unat va div 4096 * 4096" 4096 1024] by simp
  then show "PAGE_DIRECTORY_INDEX (frame_of va) = PAGE_DIRECTORY_INDEX va"
    by (simp add: word_unat_eq_iff unat_dir_index unat_frame_part)
  show "PAGE_TABLE_INDEX (frame_of va) = PAGE_TABLE_INDEX va"
    by (simp add: word_unat_eq_iff unat_table_index unat_frame_part)
qed

lemma translate_placed:
  assumes "placed s A fr" "frame_of va \<in> A"
  shows "translate s False va = Inr (fr (frame_of va) + (va AND 0xFFF))"
proof -
  obtain e where e: "mappable (frame_of va)" "pagemap_at s (frame_of va) = Some e" "frame_of e = fr (frame_of va)"
    using placedD [OF assms] by metis
  have "vmm_wf s" using assms(1) by (simp add: placed_def)
  from translate_pagemap [OF this] show ?thesis using e mappable_dir [OF e(1)] by (simp add: page_indexes)
qed

lemma load8_placed: "placed s A fr \<Longrightarrow> frame_of va \<in> A \<Longrightarrow> load8 s va = Inr (cell s (fr (frame_of va) + (va AND 0xFFF)))"
  by (simp add: load8_def translate_placed cell_def)

lemma same_place:
  assumes "placed s A fr" "frame_of va \<in> A" "frame_of vb \<in> A"
    "fr (frame_of va) + (va AND 0xFFF) = fr (frame_of vb) + (vb AND 0xFFF)"
  shows "va = vb"
proof -
  have a: "frame_of (fr (frame_of va)) = fr (frame_of va)" "frame_of (fr (frame_of vb)) = fr (frame_of vb)"
    using placedD [OF assms(1)] assms(2,3) by metis+
  then have f: "fr (frame_of va) = fr (frame_of vb)" using frame_offset(2) assms(4) by metis
  then have "frame_of va = frame_of vb" using assms(1-3) by (auto simp: placed_def inj_on_def)
  moreover have "va AND 0xFFF = vb AND 0xFFF" using assms(4) f by simp
  ultimately have "unat va div 4096 * 4096 = unat vb div 4096 * 4096" "unat va mod 4096 = unat vb mod 4096"
    by (metis unat_frame_part, metis unat_offset_part)
  then have "unat va = unat vb" by (metis div_mult_mod_eq)
  then show ?thesis by (simp add: word_unat_eq_iff)
qed

text \<open>Changes of the page tables that leave the frames of \<open>A\<close> alone.\<close>

lemma placed_step:
  assumes "placed s A fr" "keeps_data s t" "vmm_wf t"
    "\<And>p. p \<in> A \<Longrightarrow> \<exists>e. pagemap_at t p = Some e \<and> frame_of e = fr p"
  shows "placed t A fr" "frame_of va \<in> A \<Longrightarrow> load8 t va = load8 s va"
proof -
  have a: "fr p \<notin> tables t \<and> unat (fr p) \<notin> free_frames t" if "p \<in> A" for p
    using assms(1,2) that unfolding placed_def keeps_data_def by blast
  show p: "placed t A fr" using assms a by (auto simp: placed_def)
  assume va: "frame_of va \<in> A"
  have "frame_of (fr (frame_of va)) = fr (frame_of va)" using placedD [OF assms(1) va] by metis
  from frame_offset(3) [OF this, of va] have "phys t ((fr (frame_of va) + (va AND 0xFFF)) AND NOT 3) = phys s ((fr (frame_of va) + (va AND 0xFFF)) AND NOT 3)"
    using assms(2) a [OF va] unfolding keeps_data_def by metis
  then show "load8 t va = load8 s va" using load8_placed [OF p va] load8_placed [OF assms(1) va] by (simp add: cell_def)
qed

section \<open>Writing to placed pages\<close>

definition writable_page :: "'a vmm_state_scheme \<Rightarrow> u32 \<Rightarrow> bool" where
  "writable_page s p \<longleftrightarrow> (\<exists>e. pagemap_at s p = Some e \<and> e AND 2 \<noteq> 0)"

lemma translate_write:
  assumes "vmm_wf s" "unat (PAGE_DIRECTORY_INDEX va) < 1023" "pagemap_at s va = Some e" "e AND 2 \<noteq> 0"
  shows "translate s True va = translate s False va"
proof -
  let ?i = "PAGE_DIRECTORY_INDEX va"
  have d: "dirent s ?i AND 1 \<noteq> 0" "tabent s ?i (PAGE_TABLE_INDEX va) = e" using assms(3) by (auto simp: pagemap_def split: if_splits)
  then have "dirent s ?i AND 2 \<noteq> 0" using wf_small [OF assms(1)] assms(2) small_entryD by fastforce
  then show ?thesis
    using d assms(4) by (simp add: translate_def dirent_def [symmetric] tabent_def [symmetric] Let_def writable_ok_def)
qed

lemma store8_placed:
  assumes "placed s A fr" "frame_of va \<in> A" "writable_page s (frame_of va)"
  shows "store8 s va c = Inr (put_cell (fr (frame_of va) + (va AND 0xFFF)) c s)"
proof -
  obtain e where e: "pagemap_at s va = Some e" "e AND 2 \<noteq> 0" using assms(3) by (auto simp: writable_page_def page_indexes)
  have m: "mappable (frame_of va)" "vmm_wf s" using assms(1,2) by (auto simp: placed_def)
  have "unat (PAGE_DIRECTORY_INDEX va) < 1023" using mappable_dir [OF m(1)] by (simp add: page_indexes)
  from translate_write [OF m(2) this e] translate_placed [OF assms(1,2)] show ?thesis
    by (simp add: store8_def put_cell_def Let_def)
qed

lemma put_cell_tables:
  assumes "placed s A fr" "p \<in> A" "frame_of (pa AND NOT 3) = fr p"
  shows "\<And>i j. unat i < 1023 \<Longrightarrow> unat j < 1024 \<Longrightarrow> pagemap (put_cell pa c s) i j = pagemap s i j"
    "tables (put_cell pa c s) = tables s" "vmm_wf (put_cell pa c s)"
proof -
  let ?t = "put_cell pa c s"
  have wf: "vmm_wf s" and f: "fr p \<notin> tables s" using assms(1,2) by (auto simp: placed_def)
  have off: "pa AND NOT 3 \<noteq> entry_addr f k" if "unat k < 1024" "frame_of f \<in> tables s" for f k
    using assms(3) f that frame_of_entry [of k f] by metis
  have cr: "frame_of (cr3 s) = cr3 s" using wf by (simp add: vmm_wf_def)
  have d: "dirent ?t k = dirent s k" if "unat k < 1024" for k
    using off [OF that, of "cr3 s"] cr by (simp add: dirent_def put_cell_def)
  show "tables ?t = tables s" by (rule tables_cong) (use d in \<open>simp_all add: put_cell_def\<close>)
  show "vmm_wf ?t" by (rule vmm_wf_cong [OF wf]) (use d in \<open>simp_all add: put_cell_def\<close>)
  show "pagemap ?t i j = pagemap s i j" if i: "unat i < 1023" and j: "unat j < 1024" for i j
  proof -
    have di: "dirent ?t i = dirent s i" using d [of i] i by simp
    moreover have "tabent ?t i j = tabent s i j" if "dirent s i AND 1 \<noteq> 0"
      using off [OF j tables_table [OF i that]] di entry_addr_frame [of "dirent s i" j]
      by (simp add: tabent_def put_cell_def frame_part_idem)
    ultimately show ?thesis by (auto simp: pagemap_def)
  qed
qed

lemma placed_put_cell:
  assumes "placed s A fr" "frame_of va \<in> A"
  shows "placed (put_cell (fr (frame_of va) + (va AND 0xFFF)) c s) A fr"
    "\<And>q. mappable q \<Longrightarrow> writable_page (put_cell (fr (frame_of va) + (va AND 0xFFF)) c s) q = writable_page s q"
    "\<And>q. mappable q \<Longrightarrow> pagemap_at (put_cell (fr (frame_of va) + (va AND 0xFFF)) c s) q = pagemap_at s q"
proof -
  let ?t = "put_cell (fr (frame_of va) + (va AND 0xFFF)) c s"
  have a: "frame_of (fr (frame_of va)) = fr (frame_of va)" using placedD [OF assms] by metis
  note p = put_cell_tables [OF assms frame_offset(3) [OF a]]
  show "pagemap_at ?t q = pagemap_at s q" if "mappable q" for q using p(1) mappable_dir [OF that] index_bounds by blast
  then show "writable_page ?t q = writable_page s q" if "mappable q" for q using that by (simp add: writable_page_def)
  show "placed ?t A fr"
    using assms(1) p(2,3) \<open>\<And>q. mappable q \<Longrightarrow> pagemap_at ?t q = pagemap_at s q\<close> free_frames_cong [of ?t s]
    by (auto simp: placed_def put_cell_def)
qed

text \<open>The effect of writing bytes to pages of \<open>A\<close>: the bytes are there and nothing else of \<open>A\<close> changes.\<close>

lemma write_bytes_placed:
  assumes "placed s A fr" "unat va + length bs \<le> 2 ^ 32"
    "\<And>i. i < length bs \<Longrightarrow> frame_of (va + of_nat i) \<in> A \<and> writable_page s (frame_of (va + of_nat i))"
  shows "\<exists>t. write_bytes va bs s = Inr t \<and> placed t A fr \<and> t = s\<lparr>phys := phys t\<rparr>
    \<and> (\<forall>q. mappable q \<longrightarrow> pagemap_at t q = pagemap_at s q)
    \<and> (\<forall>vb. frame_of vb \<in> A \<longrightarrow> load8 t vb =
         (if va \<le> vb \<and> unat vb < unat va + length bs then Inr (bs ! (unat vb - unat va)) else load8 s vb))"
  using assms
proof (induction bs arbitrary: va s)
  case (Cons c cs)
  have a: "frame_of va \<in> A" "writable_page s (frame_of va)" using Cons.prems(3) [of 0] by simp_all
  let ?t = "put_cell (fr (frame_of va) + (va AND 0xFFF)) c s"
  note st = store8_placed [OF Cons.prems(1) a] and pt = placed_put_cell [OF Cons.prems(1) a(1), where c = c]
  have ld: "load8 ?t vb = (if vb = va then Inr c else load8 s vb)" if "frame_of vb \<in> A" for vb
    using load8_placed [OF pt(1) that] load8_placed [OF Cons.prems(1) that] same_place [OF Cons.prems(1) that a(1)]
    by (auto simp: cell_put)
  show ?case
  proof (cases "cs = []")
    case True
    have "va \<le> vb \<and> unat vb < unat va + 1 \<longleftrightarrow> vb = va" for vb by (auto simp: word_le_nat_alt word_unat_eq_iff)
    moreover have "?t = s\<lparr>phys := phys ?t\<rparr>" by (simp add: put_cell_def)
    ultimately show ?thesis using True st pt ld by (intro exI [of _ ?t]) auto
  next
    case False
    then have n: "unat (va + 1) = unat va + 1" using Cons.prems(2) by (cases cs) (auto simp: unat_add32)
    have "frame_of (va + 1 + of_nat i) \<in> A \<and> writable_page ?t (frame_of (va + 1 + of_nat i))" if "i < length cs" for i
    proof -
      have "frame_of (va + of_nat (Suc i)) \<in> A \<and> writable_page s (frame_of (va + of_nat (Suc i)))"
        using Cons.prems(3) [of "Suc i"] that by simp
      moreover from this have "mappable (frame_of (va + of_nat (Suc i)))" using Cons.prems(1) by (auto simp: placed_def)
      ultimately show ?thesis using pt(2) by (simp add: add.assoc)
    qed
    from Cons.IH [OF pt(1) _ this] obtain t where t: "write_bytes (va + 1) cs ?t = Inr t" "placed t A fr" "t = ?t\<lparr>phys := phys t\<rparr>"
        "\<forall>q. mappable q \<longrightarrow> pagemap_at t q = pagemap_at ?t q"
        "\<forall>vb. frame_of vb \<in> A \<longrightarrow> load8 t vb =
          (if va + 1 \<le> vb \<and> unat vb < unat (va + 1) + length cs then Inr (cs ! (unat vb - unat (va + 1))) else load8 ?t vb)"
      using n Cons.prems(2) by auto
    have "load8 t vb = (if va \<le> vb \<and> unat vb < unat va + length (c # cs) then Inr ((c # cs) ! (unat vb - unat va)) else load8 s vb)"
      if "frame_of vb \<in> A" for vb
    proof (cases "vb = va")
      case True
      then show ?thesis using t(5) ld that n by (auto simp: word_le_nat_alt)
    next
      case False
      then have ne: "unat vb \<noteq> unat va" by (simp add: word_unat_eq_iff)
      then show ?thesis using t(5) ld [OF that] that n False
        by (auto simp: word_le_nat_alt nth_Cons' intro!: arg_cong [where f = "\<lambda>k. cs ! k"])
    qed
    moreover have "t = s\<lparr>phys := phys t\<rparr>" using t(3) by (simp add: put_cell_def)
    moreover have "\<forall>q. mappable q \<longrightarrow> pagemap_at t q = pagemap_at s q" using t(4) pt(3) by simp
    moreover have "write_bytes va (c # cs) s = Inr t" using st t(1) by simp
    ultimately show ?thesis using t(2) by (intro exI [of _ t]) blast
  qed
qed (auto simp: word_le_nat_alt)

section \<open>The loops over the pages of a segment\<close>

definition seg_pages :: "u32 \<Rightarrow> u32 \<Rightarrow> u32 set" where
  "seg_pages a b = {p. 4096 dvd unat p \<and> a \<le> p \<and> p < b}"

lemma next_page: "b \<le> USER_END \<Longrightarrow> a < b \<Longrightarrow> unat (a + PAGE_SIZE) = unat a + 4096"
  by (subst unat_add32) (auto simp: PAGE_SIZE_def USER_END_def word_le_nat_alt word_less_nat_alt)

lemma seg_pages_step:
  assumes "b \<le> USER_END" "a < b" "4096 dvd unat a"
  shows "seg_pages a b = insert a (seg_pages (a + PAGE_SIZE) b)" "4096 dvd unat (a + PAGE_SIZE)"
proof -
  have n: "unat (a + PAGE_SIZE) = unat a + 4096" using assms next_page by blast
  then show "4096 dvd unat (a + PAGE_SIZE)" using assms(3) by simp
  show "seg_pages a b = insert a (seg_pages (a + PAGE_SIZE) b)"
  proof (rule set_eqI)
    fix p :: u32
    have "unat a < unat p \<longleftrightarrow> unat a + 4096 \<le> unat p" if d: "4096 dvd unat p"
    proof -
      obtain x where "unat a = 4096 * x" using assms(3) by (rule dvdE)
      moreover obtain y where "unat p = 4096 * y" using d by (rule dvdE)
      ultimately show ?thesis by auto
    qed
    then show "p \<in> seg_pages a b \<longleftrightarrow> p \<in> insert a (seg_pages (a + PAGE_SIZE) b)"
      using assms n by (auto simp: seg_pages_def word_le_nat_alt word_less_nat_alt word_unat_eq_iff)
  qed
qed

lemma seg_pages_empty: "\<not> a < b \<Longrightarrow> seg_pages a b = {}"
  by (auto simp: seg_pages_def)

lemma mappable_user: "4096 dvd unat p \<Longrightarrow> p < b \<Longrightarrow> b \<le> USER_END \<Longrightarrow> mappable p"
  by (auto simp: mappable_def USER_END_def word_le_nat_alt word_less_nat_alt)

lemma or_flags: "frame_of g = g \<Longrightarrow> flags AND 0xFFFFF000 = 0 \<Longrightarrow> frame_of (g OR flags) = (g :: u32)"
  by (simp add: bit.conj_disj_distrib2)

text \<open>One page: a fresh frame is taken and mapped.\<close>

lemma map_page_placed:
  assumes p: "placed s A fr" and m: "mappable q" and a: "pmm_alloc s = Inr (g, s1)" "g \<noteq> INVALID_FRAME" and v: "vmm_map q g 3 s1 = Inr ((), t)"
  shows "placed t (insert q A) (fr(q := g))" "q \<notin> A" "writable_page t q"
    "\<And>x. mappable x \<Longrightarrow> x \<noteq> q \<Longrightarrow> pagemap_at t x = pagemap_at s x" "\<And>va. frame_of va \<in> A \<Longrightarrow> load8 t va = load8 s va"
proof -
  have wf: "vmm_wf s" using p by (simp add: placed_def)
  note al = pmm_alloc_data [OF wf a]
  note vd = vmm_map_data [OF al(9) m v]
  have r: "vmm_wf t" "pagemap_at s1 q = None" "\<forall>x. mappable x \<longrightarrow> pagemap_at t x = (if x = q then Some (g OR 3) else pagemap_at s1 x)"
    using vmm_map_result [OF al(9) m v] by blast+
  show x: "pagemap_at t x = pagemap_at s x" if "mappable x" "x \<noteq> q" for x using r(3) that al(4) by simp
  have "pagemap_at s q = None" using r(2) al(4) by simp
  then show q: "q \<notin> A" using p by (auto simp: placed_def)
  have gq: "pagemap_at t q = Some (g OR 3)" "frame_of (g OR 3) = g" using r(3) m or_flags [OF al(6)] by simp_all
  have "bit (g OR 3) 1" using bit_or_iff [of g 3 1] by simp
  then have "(g OR 3) AND 2 \<noteq> 0" using and_two_power [of "g OR 3" 1] by simp
  then show "writable_page t q" using gq by (simp add: writable_page_def)
  have k: "keeps_data s t" using al(1) vd by (rule keeps_data_trans)
  have old: "\<exists>e. pagemap_at t y = Some e \<and> frame_of e = fr y" if "y \<in> A" for y
  proof -
    have "y \<noteq> q" "mappable y" using p that q by (auto simp: placed_def)
    then have "pagemap_at t y = pagemap_at s y" using x by simp
    then show ?thesis using placedD [OF p that] by metis
  qed
  note st = placed_step [OF p k r(1) old]
  show "load8 t va = load8 s va" if "frame_of va \<in> A" for va using st(2) that by blast
  have "g \<notin> tables t" "unat g \<notin> free_frames t" using vd al(5,7) unfolding keeps_data_def by auto
  moreover have "g \<noteq> fr y" if "y \<in> A" for y using p that al(8) by (auto simp: placed_def)
  then have "inj_on (fr(q := g)) (insert q A)" using p q by (auto simp: placed_def inj_on_def)
  ultimately show "placed t (insert q A) (fr(q := g))"
    using st(1) gq m q by (auto simp: placed_def)
qed

lemma map_segment_ends: "b \<le> USER_END \<Longrightarrow> \<exists>r. map_segment a b s = Some r"
proof (induction "unat b - unat a" arbitrary: a s rule: less_induct)
  case less
  show ?case
  proof (cases "a < b")
    case True
    have "\<exists>r. map_segment (a + PAGE_SIZE) b t = Some r" for t :: "'a vmm_state_scheme"
      by (rule less(1)) (use less(2) True next_page [of b a] in \<open>auto simp: word_less_nat_alt\<close>)
    then show ?thesis by (subst map_segment.simps) (auto split: sum.splits)
  qed (subst map_segment.simps, simp)
qed

lemma remap_segment_ends: "b \<le> USER_END \<Longrightarrow> \<exists>r. remap_segment a b fl s = Some r"
proof (induction "unat b - unat a" arbitrary: a s rule: less_induct)
  case less
  show ?case
  proof (cases "a < b")
    case True
    have "\<exists>r. remap_segment (a + PAGE_SIZE) b fl t = Some r" for t :: "'a vmm_state_scheme"
      by (rule less(1)) (use less(2) True next_page [of b a] in \<open>auto simp: word_less_nat_alt\<close>)
    then show ?thesis by (subst remap_segment.simps) (auto split: sum.splits)
  qed (subst remap_segment.simps, simp)
qed

lemma map_segment_step:
  assumes "map_segment a b s = Some (Inr t)" "a < b"
  obtains g s1 s2 where "pmm_alloc s = Inr (g, s1)" "g \<noteq> INVALID_FRAME" "vmm_map a g 3 s1 = Inr ((), s2)"
    "map_segment (a + PAGE_SIZE) b s2 = Some (Inr t)" "4096 dvd unat a"
proof -
  obtain g s1 s2 where k: "pmm_alloc s = Inr (g, s1)" "g \<noteq> INVALID_FRAME" "vmm_map a g 3 s1 = Inr ((), s2)"
      "map_segment (a + PAGE_SIZE) b s2 = Some (Inr t)"
    using assms by (subst (asm) map_segment.simps) (auto simp: VMM_PAGE_PRESENT_def VMM_PAGE_WRITABLE_def split: sum.splits if_splits)
  moreover have "4096 dvd unat a" using k(3) by (auto simp: vmm_map_def res_simps IS_ALIGNED_iff PAGE_SIZE_def)
  ultimately show thesis by (rule that)
qed

lemma map_segment_placed:
  "map_segment a b s = Some (Inr t) \<Longrightarrow> b \<le> USER_END \<Longrightarrow> placed s A fr \<Longrightarrow> 4096 dvd unat a \<Longrightarrow>
   \<exists>fr'. placed t (A \<union> seg_pages a b) fr' \<and> A \<inter> seg_pages a b = {} \<and> (\<forall>p\<in>A. fr' p = fr p)
    \<and> (\<forall>p\<in>seg_pages a b. writable_page t p) \<and> (\<forall>va. frame_of va \<in> A \<longrightarrow> load8 t va = load8 s va)
    \<and> (\<forall>x. mappable x \<longrightarrow> x \<notin> seg_pages a b \<longrightarrow> pagemap_at t x = pagemap_at s x)"
proof (induction "unat b - unat a" arbitrary: a s A fr rule: less_induct)
  case less
  show ?case
  proof (cases "a < b")
    case False
    then show ?thesis using less.prems seg_pages_empty [OF False] by (subst (asm) map_segment.simps) (auto intro!: exI [of _ fr])
  next
    case True
    obtain g s1 s2 where k: "pmm_alloc s = Inr (g, s1)" "g \<noteq> INVALID_FRAME" "vmm_map a g 3 s1 = Inr ((), s2)"
        "map_segment (a + PAGE_SIZE) b s2 = Some (Inr t)"
      by (rule map_segment_step [OF less.prems(1) True]) blast
    have m: "mappable a" using mappable_user less.prems True by blast
    note mp = map_page_placed [OF less.prems(3) m k(1-3)]
    note sp = seg_pages_step [OF less.prems(2) True less.prems(4)]
    have "unat b - unat (a + PAGE_SIZE) < unat b - unat a"
      using next_page [OF less.prems(2) True] True by (auto simp: word_less_nat_alt)
    from less.hyps [OF this k(4) less.prems(2) mp(1) sp(2)]
    obtain fr' where f: "placed t (insert a A \<union> seg_pages (a + PAGE_SIZE) b) fr'" "insert a A \<inter> seg_pages (a + PAGE_SIZE) b = {}"
        "\<forall>p\<in>insert a A. fr' p = (fr(a := g)) p" "\<forall>p\<in>seg_pages (a + PAGE_SIZE) b. writable_page t p"
        "\<forall>va. frame_of va \<in> insert a A \<longrightarrow> load8 t va = load8 s2 va"
        "\<forall>x. mappable x \<longrightarrow> x \<notin> seg_pages (a + PAGE_SIZE) b \<longrightarrow> pagemap_at t x = pagemap_at s2 x" by blast
    have "writable_page t a" using mp(3) f(2,6) m by (simp add: writable_page_def)
    moreover have "insert a A \<union> seg_pages (a + PAGE_SIZE) b = A \<union> seg_pages a b" using sp(1) by auto
    ultimately show ?thesis using f mp sp(1) by (intro exI [of _ fr']) auto
  qed
qed

lemma vmm_remap_placed:
  assumes p: "placed s A fr" and q: "q \<in> A" and r: "vmm_remap q fl s = Inr (u, t)" and fl: "fl AND 0xFFFFF000 = 0"
  shows "placed t A fr" "pagemap_at t q = Some (fr q OR fl)"
    "\<And>x. mappable x \<Longrightarrow> x \<noteq> q \<Longrightarrow> pagemap_at t x = pagemap_at s x" "\<And>va. frame_of va \<in> A \<Longrightarrow> load8 t va = load8 s va"
proof -
  obtain e where e: "mappable q" "pagemap_at s q = Some e" "frame_of e = fr q" "frame_of (fr q) = fr q" by (rule placedD [OF p q])
  have wf: "vmm_wf s" using p by (simp add: placed_def)
  have c: "paging_enabled s" "fl AND 1 \<noteq> 0" using r by (auto simp: vmm_remap_def res_simps VMM_PAGE_PRESENT_def)
  obtain s' where "vmm_remap q fl s = Inr ((), s')" "vmm_wf s'"
      "\<forall>vb. mappable vb \<longrightarrow> pagemap_at s' vb = (if vb = q then Some (e AND PTE_FRAME OR fl) else pagemap_at s vb)"
    using vmm_remap_spec [OF wf c(1) e(1,2) c(2)] by blast
  then have v: "vmm_wf t" "\<forall>vb. mappable vb \<longrightarrow> pagemap_at t vb = (if vb = q then Some (fr q OR fl) else pagemap_at s vb)"
    using r e(3) by (simp_all add: PTE_FRAME_def)
  show "pagemap_at t q = Some (fr q OR fl)" using v(2) e(1) by simp
  show x: "pagemap_at t x = pagemap_at s x" if "mappable x" "x \<noteq> q" for x using v(2) that by simp
  have k: "keeps_data s t" using vmm_remap_data [OF wf e(1)] r by (cases u) simp
  have "\<exists>e'. pagemap_at t y = Some e' \<and> frame_of e' = fr y" if y: "y \<in> A" for y
  proof (cases "y = q")
    case True
    then show ?thesis using v(2) e(1) or_flags [OF e(4) fl] by simp
  next
    case False
    obtain e' where "mappable y" "pagemap_at s y = Some e'" "frame_of e' = fr y" by (rule placedD [OF p y])
    then show ?thesis using x False by simp
  qed
  note st = placed_step [OF p k v(1) this]
  show "placed t A fr" by (rule st(1))
  show "load8 t va = load8 s va" if "frame_of va \<in> A" for va using st(2) that by blast
qed

lemma remap_segment_placed:
  "remap_segment a b fl s = Some (Inr t) \<Longrightarrow> b \<le> USER_END \<Longrightarrow> placed s A fr \<Longrightarrow> 4096 dvd unat a \<Longrightarrow> seg_pages a b \<subseteq> A \<Longrightarrow>
   fl AND 0xFFFFF000 = 0 \<Longrightarrow>
   placed t A fr \<and> (\<forall>p\<in>seg_pages a b. pagemap_at t p = Some (fr p OR fl)) \<and> (\<forall>va. frame_of va \<in> A \<longrightarrow> load8 t va = load8 s va)
    \<and> (\<forall>x. mappable x \<longrightarrow> x \<notin> seg_pages a b \<longrightarrow> pagemap_at t x = pagemap_at s x)"
proof (induction "unat b - unat a" arbitrary: a s rule: less_induct)
  case less
  show ?case
  proof (cases "a < b")
    case False
    then show ?thesis using less.prems seg_pages_empty [OF False] by (subst (asm) remap_segment.simps) auto
  next
    case True
    note sp = seg_pages_step [OF less.prems(2) True less.prems(4)]
    obtain u s2 where k: "vmm_remap a fl s = Inr (u, s2)" "remap_segment (a + PAGE_SIZE) b fl s2 = Some (Inr t)"
      using less.prems(1) True by (subst (asm) remap_segment.simps) (auto split: sum.splits)
    have aA: "a \<in> A" using less.prems(5) sp(1) by auto
    note rp = vmm_remap_placed [OF less.prems(3) aA k(1) less.prems(6)]
    have "unat b - unat (a + PAGE_SIZE) < unat b - unat a"
      using next_page [OF less.prems(2) True] True by (auto simp: word_less_nat_alt)
    from less.hyps [OF this k(2) less.prems(2) rp(1) sp(2) _ less.prems(6)] less.prems(5) sp(1)
    have h: "placed t A fr" "\<forall>p\<in>seg_pages (a + PAGE_SIZE) b. pagemap_at t p = Some (fr p OR fl)"
        "\<forall>va. frame_of va \<in> A \<longrightarrow> load8 t va = load8 s2 va"
        "\<forall>x. mappable x \<longrightarrow> x \<notin> seg_pages (a + PAGE_SIZE) b \<longrightarrow> pagemap_at t x = pagemap_at s2 x" by blast+
    have "a \<notin> seg_pages (a + PAGE_SIZE) b"
      using next_page [OF less.prems(2) True] by (auto simp: seg_pages_def word_le_nat_alt)
    moreover have "mappable a" using mappable_user less.prems True by blast
    ultimately have "pagemap_at t a = Some (fr a OR fl)" using h(4) rp(2) by simp
    then show ?thesis using h rp(3,4) sp(1) by simp
  qed
qed

section \<open>Segments\<close>

lemma seg_page_of:
  assumes "4096 dvd unat a" "a \<le> x" "x < b"
  shows "frame_of x \<in> seg_pages a b"
proof -
  obtain k where k: "unat a = 4096 * k" using assms(1) by (rule dvdE)
  have "unat a div 4096 \<le> unat x div 4096" using assms(2) by (simp add: word_le_nat_alt div_le_mono)
  then have "unat a \<le> unat x div 4096 * 4096" using k by simp
  moreover have "unat x div 4096 * 4096 \<le> unat x" by (rule div_times_less_eq_dividend)
  ultimately show ?thesis
    using assms(3) by (simp add: seg_pages_def word_le_nat_alt word_less_nat_alt unat_frame_part)
qed

definition phdr_fields :: "u8 list \<Rightarrow> nat \<Rightarrow> u32 \<Rightarrow> u32 \<Rightarrow> u32 \<Rightarrow> u32 \<Rightarrow> u32 \<Rightarrow> bool" where
  "phdr_fields b p va n fs off fl \<longleftrightarrow>
     p_type b p = Inr PT_LOAD \<and> p_vaddr b p = Inr va \<and> p_memsz b p = Inr n \<and> p_filesz b p = Inr fs \<and> p_offset b p = Inr off \<and> p_flags b p = Inr fl"

definition segment_flags :: "u32 \<Rightarrow> u32" where
  "segment_flags fl = (if fl AND PF_W \<noteq> 0 then 7 else 5)"

text \<open>Memory as the program header asks for: the bytes of the file, zeros behind them, and the access rights.\<close>

definition segment_loaded :: "u8 list \<Rightarrow> u32 \<Rightarrow> u32 \<Rightarrow> u32 \<Rightarrow> u32 \<Rightarrow> u32 \<Rightarrow> 'a vmm_state_scheme \<Rightarrow> bool" where
  "segment_loaded b va n fs off fl s \<longleftrightarrow>
     (\<forall>i < unat n. load8 s (va + of_nat i) = Inr (if i < unat fs then b ! (unat off + i) else 0)
        \<and> (\<exists>f. frame_of f = f \<and> pagemap_at s (va + of_nat i) = Some (f OR segment_flags fl)))"

lemma load_segment_parts:
  assumes "load_segment b p s = Inr t" "phdr_fields b p va n fs off fl"
  obtains s1 s2 s3 where "n \<noteq> 0" "USER_START \<le> va" "va + n \<le> USER_END"
    "map_segment va (va + n) s = Some (Inr s1)" "write_bytes va (replicate (unat n) 0) s1 = Inr s2"
    "if fs \<noteq> 0 then unat off + unat fs \<le> length b \<and> write_bytes va (take (unat fs) (drop (unat off) b)) s2 = Inr s3 else s3 = s2"
    "remap_segment va (va + n) (segment_flags fl) s3 = Some (Inr t)"
proof -
  have f: "(if fl AND PF_W \<noteq> 0 then (VMM_PAGE_PRESENT OR VMM_PAGE_USER) OR VMM_PAGE_WRITABLE else VMM_PAGE_PRESENT OR VMM_PAGE_USER)
      = segment_flags fl"
    by (simp add: VMM_PAGE_PRESENT_def VMM_PAGE_USER_def VMM_PAGE_WRITABLE_def segment_flags_def)
  have l: "loop_result r = Inr x \<longleftrightarrow> r = Some (Inr x)" for r :: "'b res option" and x by (cases r) (auto simp: loop_result_def)
  note h = assms(2) [unfolded phdr_fields_def]
  have k: "\<exists>s1 s2 s3. n \<noteq> 0 \<and> USER_START \<le> va \<and> va + n \<le> USER_END \<and> map_segment va (va + n) s = Some (Inr s1)
      \<and> write_bytes va (replicate (unat n) 0) s1 = Inr s2
      \<and> (if fs \<noteq> 0 then res_bind (file_slice b off fs) (\<lambda>bytes. write_bytes va bytes s2) else Inr s2) = Inr s3
      \<and> remap_segment va (va + n) (segment_flags fl) s3 = Some (Inr t)"
    using assms(1) h unfolding load_segment_def by (cases "fs = 0") (auto simp: res_simps l f Let_def)
  then obtain s1 s2 s3 where s: "n \<noteq> 0" "USER_START \<le> va" "va + n \<le> USER_END" "map_segment va (va + n) s = Some (Inr s1)"
      "write_bytes va (replicate (unat n) 0) s1 = Inr s2"
      "(if fs \<noteq> 0 then res_bind (file_slice b off fs) (\<lambda>bytes. write_bytes va bytes s2) else Inr s2) = Inr s3"
      "remap_segment va (va + n) (segment_flags fl) s3 = Some (Inr t)" by blast
  have "if fs \<noteq> 0 then unat off + unat fs \<le> length b \<and> write_bytes va (take (unat fs) (drop (unat off) b)) s2 = Inr s3 else s3 = s2"
    using s(6) by (auto simp: res_simps file_slice_def split: if_splits)
  then show thesis using that s by blast
qed

text \<open>The two writes: the segment is cleared, then the bytes of the file are copied over its beginning.\<close>

lemma fill_segment:
  assumes B: "placed s1 B fr" and sz: "length bs \<le> n" "unat va + n \<le> 2 ^ 32"
    and pg: "\<And>i. i < n \<Longrightarrow> frame_of (va + of_nat i) \<in> B \<and> writable_page s1 (frame_of (va + of_nat i))"
    and w: "write_bytes va (replicate n 0) s1 = Inr s2" "write_bytes va bs s2 = Inr s3"
  shows "placed s3 B fr" "\<And>q. mappable q \<Longrightarrow> pagemap_at s3 q = pagemap_at s1 q"
    "\<And>vb. frame_of vb \<in> B \<Longrightarrow> load8 s3 vb =
      (if va \<le> vb \<and> unat vb < unat va + n then Inr ((bs @ replicate (n - length bs) 0) ! (unat vb - unat va)) else load8 s1 vb)"
proof -
  obtain s2' where "write_bytes va (replicate n 0) s1 = Inr s2'" "placed s2' B fr" "\<forall>q. mappable q \<longrightarrow> pagemap_at s2' q = pagemap_at s1 q"
      "\<forall>vb. frame_of vb \<in> B \<longrightarrow> load8 s2' vb = (if va \<le> vb \<and> unat vb < unat va + n
          then Inr (replicate n 0 ! (unat vb - unat va)) else load8 s1 vb)"
    using write_bytes_placed [OF B, of va "replicate n 0"] sz(2) pg by auto
  then have s2: "placed s2 B fr" "\<forall>q. mappable q \<longrightarrow> pagemap_at s2 q = pagemap_at s1 q"
      "\<forall>vb. frame_of vb \<in> B \<longrightarrow> load8 s2 vb = (if va \<le> vb \<and> unat vb < unat va + n
          then Inr (replicate n 0 ! (unat vb - unat va)) else load8 s1 vb)"
    using w(1) by simp_all
  have "frame_of (va + of_nat i) \<in> B \<and> writable_page s2 (frame_of (va + of_nat i))" if "i < length bs" for i
    using pg [of i] that sz(1) s2(2) B by (auto simp: writable_page_def placed_def)
  then obtain s3' where "write_bytes va bs s2 = Inr s3'" "placed s3' B fr" "\<forall>q. mappable q \<longrightarrow> pagemap_at s3' q = pagemap_at s2 q"
      "\<forall>vb. frame_of vb \<in> B \<longrightarrow> load8 s3' vb = (if va \<le> vb \<and> unat vb < unat va + length bs
          then Inr (bs ! (unat vb - unat va)) else load8 s2 vb)"
    using write_bytes_placed [OF s2(1), of va bs] sz by auto
  then have s3: "placed s3 B fr" "\<forall>q. mappable q \<longrightarrow> pagemap_at s3 q = pagemap_at s2 q"
      "\<forall>vb. frame_of vb \<in> B \<longrightarrow> load8 s3 vb = (if va \<le> vb \<and> unat vb < unat va + length bs
          then Inr (bs ! (unat vb - unat va)) else load8 s2 vb)"
    using w(2) by simp_all
  show "placed s3 B fr" by (rule s3(1))
  show "pagemap_at s3 q = pagemap_at s1 q" if "mappable q" for q using s3(2) s2(2) that by simp
  show "load8 s3 vb = (if va \<le> vb \<and> unat vb < unat va + n then Inr ((bs @ replicate (n - length bs) 0) ! (unat vb - unat va)) else load8 s1 vb)"
    if "frame_of vb \<in> B" for vb
    using s3(3) s2(3) that sz(1) by (auto simp: nth_append word_le_nat_alt)
qed

lemma load_segment_placed:
  assumes r: "load_segment b p s = Inr t" and h: "phdr_fields b p va n fs off fl" and sz: "fs \<le> n" "unat va + unat n < 2 ^ 32"
    and A: "placed s A fr"
  shows "\<exists>fr'. placed t (A \<union> seg_pages va (va + n)) fr' \<and> segment_loaded b va n fs off fl t
    \<and> (\<forall>vb. frame_of vb \<in> A \<longrightarrow> load8 t vb = load8 s vb \<and> pagemap_at t vb = pagemap_at s vb)
    \<and> (\<forall>i < unat n. frame_of (va + of_nat i) \<in> seg_pages va (va + n))"
proof -
  obtain s1 s2 s3 where k: "n \<noteq> 0" "va + n \<le> USER_END" "map_segment va (va + n) s = Some (Inr s1)"
      "write_bytes va (replicate (unat n) 0) s1 = Inr s2"
      "if fs \<noteq> 0 then unat off + unat fs \<le> length b \<and> write_bytes va (take (unat fs) (drop (unat off) b)) s2 = Inr s3 else s3 = s2"
      "remap_segment va (va + n) (segment_flags fl) s3 = Some (Inr t)"
    by (rule load_segment_parts [OF r h])
  let ?P = "seg_pages va (va + n)"
  have un: "unat (va + n) = unat va + unat n" using sz(2) by (simp add: unat_add32)
  have "va < va + n" using k(1) un by (simp add: word_less_nat_alt unat_gt_0)
  then obtain al: "4096 dvd unat va" using map_segment_step [OF k(3)] by blast
  have adr: "unat (va + of_nat i) = unat va + i" if "i < unat n" for i
    using sz(2) that by (subst unat_add32) (simp_all add: unat_of_nat take_bit_nat_eq_self)
  have pg: "frame_of (va + of_nat i) \<in> ?P" if "i < unat n" for i
    by (rule seg_page_of [OF al]) (use adr [OF that] un that in \<open>simp_all add: word_le_nat_alt word_less_nat_alt\<close>)
  obtain fr' where m: "placed s1 (A \<union> ?P) fr'" "A \<inter> ?P = {}" "\<forall>p\<in>?P. writable_page s1 p"
      "\<forall>vb. frame_of vb \<in> A \<longrightarrow> load8 s1 vb = load8 s vb" "\<forall>x. mappable x \<longrightarrow> x \<notin> ?P \<longrightarrow> pagemap_at s1 x = pagemap_at s x"
    using map_segment_placed [OF k(3,2) A al] by blast
  define bs where "bs = (if fs \<noteq> 0 then take (unat fs) (drop (unat off) b) else [])"
  have bs: "length bs = unat fs" "write_bytes va bs s2 = Inr s3" "\<And>i. i < unat fs \<Longrightarrow> bs ! i = b ! (unat off + i)"
    using k(5) by (auto simp: bs_def split: if_splits)
  have le: "length bs \<le> unat n" using sz(1) bs(1) by (simp add: word_le_nat_alt)
  have s3: "placed s3 (A \<union> ?P) fr'" "\<And>q. mappable q \<Longrightarrow> pagemap_at s3 q = pagemap_at s1 q"
    "\<And>vb. frame_of vb \<in> A \<union> ?P \<Longrightarrow> load8 s3 vb =
      (if va \<le> vb \<and> unat vb < unat va + unat n then Inr ((bs @ replicate (unat n - length bs) 0) ! (unat vb - unat va)) else load8 s1 vb)"
    by (rule fill_segment [OF m(1) le _ _ k(4) bs(2)]; use sz(2) pg m(3) in auto)+
  have f0: "segment_flags fl AND 0xFFFFF000 = 0" by (simp add: segment_flags_def)
  note rm = remap_segment_placed [OF k(6,2) s3(1) al _ f0]
  have t: "placed t (A \<union> ?P) fr'" "\<forall>p\<in>?P. pagemap_at t p = Some (fr' p OR segment_flags fl)"
      "\<forall>vb. frame_of vb \<in> A \<union> ?P \<longrightarrow> load8 t vb = load8 s3 vb"
      "\<forall>x. mappable x \<longrightarrow> x \<notin> ?P \<longrightarrow> pagemap_at t x = pagemap_at s3 x"
    using rm by blast+
  have "segment_loaded b va n fs off fl t" unfolding segment_loaded_def
  proof (intro allI impI conjI)
    fix i assume i: "i < unat n"
    show "load8 t (va + of_nat i) = Inr (if i < unat fs then b ! (unat off + i) else 0)"
      using t(3) s3(3) [of "va + of_nat i"] pg [OF i] adr [OF i] i bs(1,3) by (simp add: word_le_nat_alt nth_append)
    have "frame_of (fr' (frame_of (va + of_nat i))) = fr' (frame_of (va + of_nat i))" using placedD [OF t(1)] pg [OF i] by blast
    then show "\<exists>f. frame_of f = f \<and> pagemap_at t (va + of_nat i) = Some (f OR segment_flags fl)"
      using t(2) pg [OF i] by (metis page_indexes)
  qed
  moreover have "load8 t vb = load8 s vb \<and> pagemap_at t vb = pagemap_at s vb" if vb: "frame_of vb \<in> A" for vb
  proof
    have out: "frame_of vb \<notin> ?P" "mappable (frame_of vb)" using vb m(2) A by (auto simp: placed_def)
    then have "\<not> (va \<le> vb \<and> unat vb < unat va + unat n)" using seg_page_of [OF al, of vb "va + n"] un by (auto simp: word_less_nat_alt)
    then show "load8 t vb = load8 s vb" using t(3) s3(3) m(4) vb by auto
    show "pagemap_at t vb = pagemap_at s vb" using t(4) s3(2) m(5) out by (metis page_indexes)
  qed
  ultimately show ?thesis using t(1) pg by (intro exI [of _ fr']) blast
qed

text \<open>All segments: each is loaded, and stays so while the following ones are loaded.\<close>

definition segment_ok :: "u8 list \<Rightarrow> nat \<Rightarrow> bool" where
  "segment_ok b p \<longleftrightarrow>
     (\<forall>va n fs off fl. phdr_fields b p va n fs off fl \<longrightarrow> fs \<le> n \<and> unat va + unat n < 2 ^ 32) \<and>
     (p_type b p = Inr PT_LOAD \<longrightarrow> p + SIZEOF_PHDR \<le> length b)"

definition loaded :: "u8 list \<Rightarrow> nat \<Rightarrow> 'a vmm_state_scheme \<Rightarrow> bool" where
  "loaded b p s \<longleftrightarrow> (\<forall>va n fs off fl. phdr_fields b p va n fs off fl \<longrightarrow> segment_loaded b va n fs off fl s)"

lemma rd32_in: "p + 4 \<le> length b \<Longrightarrow> \<exists>w. rd32 b p = Inr w"
  by (simp add: rd32_def rd16_def rd_def)

lemma phdr_fields_exist: "p_type b p = Inr PT_LOAD \<Longrightarrow> p + SIZEOF_PHDR \<le> length b \<Longrightarrow> \<exists>va n fs off fl. phdr_fields b p va n fs off fl"
  using rd32_in [of "p + 4" b] rd32_in [of "p + 8" b] rd32_in [of "p + 16" b] rd32_in [of "p + 20" b] rd32_in [of "p + 24" b]
  by (simp add: phdr_fields_def p_offset_def p_vaddr_def p_filesz_def p_memsz_def p_flags_def SIZEOF_PHDR_def)

lemma load_segments:
  assumes "for_each (\<lambda>i. load_segment b (q + i * SIZEOF_PHDR)) ks s = Inr t" "\<forall>i\<in>set ks. segment_ok b (q + i * SIZEOF_PHDR)" "placed s A fr"
  shows "\<exists>A' fr'. placed t A' fr' \<and> (\<forall>i\<in>set ks. loaded b (q + i * SIZEOF_PHDR) t)
    \<and> (\<forall>vb. frame_of vb \<in> A \<longrightarrow> load8 t vb = load8 s vb \<and> pagemap_at t vb = pagemap_at s vb)"
  using assms
proof (induction ks arbitrary: s A fr)
  case (Cons i ks)
  let ?p = "q + i * SIZEOF_PHDR"
  obtain s1 where k: "load_segment b ?p s = Inr s1" "for_each (\<lambda>i. load_segment b (q + i * SIZEOF_PHDR)) ks s1 = Inr t"
    using Cons.prems(1) by (auto simp: res_simps)
  have ok: "segment_ok b ?p" "\<forall>i\<in>set ks. segment_ok b (q + i * SIZEOF_PHDR)" using Cons.prems(2) by simp_all
  show ?case
  proof (cases "p_type b ?p = Inr PT_LOAD")
    case True
    then have "?p + SIZEOF_PHDR \<le> length b" using ok(1) by (simp add: segment_ok_def)
    then obtain va n fs off fl where h: "phdr_fields b ?p va n fs off fl" using phdr_fields_exist [OF True] by blast
    then have "fs \<le> n" "unat va + unat n < 2 ^ 32" using ok(1) unfolding segment_ok_def by blast+
    from load_segment_placed [OF k(1) h this Cons.prems(3)] obtain fr1 where f:
        "placed s1 (A \<union> seg_pages va (va + n)) fr1" "segment_loaded b va n fs off fl s1"
        "\<forall>vb. frame_of vb \<in> A \<longrightarrow> load8 s1 vb = load8 s vb \<and> pagemap_at s1 vb = pagemap_at s vb"
        "\<forall>i < unat n. frame_of (va + of_nat i) \<in> seg_pages va (va + n)" by blast
    obtain A' fr' where g: "placed t A' fr'" "\<forall>i\<in>set ks. loaded b (q + i * SIZEOF_PHDR) t"
        "\<forall>vb. frame_of vb \<in> A \<union> seg_pages va (va + n) \<longrightarrow> load8 t vb = load8 s1 vb \<and> pagemap_at t vb = pagemap_at s1 vb"
      using Cons.IH [OF k(2) ok(2) f(1)] by blast
    have "segment_loaded b va n fs off fl t" using f(2,4) g(3) by (auto simp: segment_loaded_def)
    then have "loaded b ?p t" using h by (auto simp: loaded_def phdr_fields_def)
    then show ?thesis using f(3) g by (intro exI [of _ A'] exI [of _ fr']) auto
  next
    case False
    then have "s1 = s" using k(1) by (auto simp: load_segment_def res_simps split: if_splits)
    moreover have "loaded b ?p t" using False by (auto simp: loaded_def phdr_fields_def)
    ultimately show ?thesis using Cons.IH [OF _ ok(2) Cons.prems(3)] k(2) by auto
  qed
qed auto

lemma placed_none: "vmm_wf s \<Longrightarrow> placed s {} fr"
  by (simp add: placed_def)

section \<open>Properties\<close>

text \<open>
  C8: when \<open>load_elf\<close> succeeds, the bytes of every loadable segment of the file are in memory at the
  addresses the program header names, followed by zeros up to the size in memory, and each of
  its pages is accessible from user mode, and writable exactly if the header says so. No
  segment damages another one.
\<close>

theorem load_elf_loads_segments:
  assumes "vmm_wf s" "load_elf b s = Inr (entry, t)" "e_phoff b = Inr phoff" "e_phnum b = Inr n"
    and "\<forall>i < unat n. segment_ok b (unat phoff + i * SIZEOF_PHDR)"
  shows "vmm_wf t \<and> e_entry b = Inr entry \<and> entry \<noteq> NULL \<and> (\<forall>i < unat n. loaded b (unat phoff + i * SIZEOF_PHDR) t)"
proof -
  have f: "for_each (\<lambda>i. load_segment b (unat phoff + i * SIZEOF_PHDR)) [0..<unat n] s = Inr t" "check_header b = Inr entry"
    using assms(2-4) by (auto simp: load_elf_def res_simps)
  have "e_entry b = Inr entry" "entry \<noteq> NULL" using f(2) by (auto simp: check_header_def res_simps)
  moreover obtain A fr where "placed t A fr" "\<forall>i\<in>set [0..<unat n]. loaded b (unat phoff + i * SIZEOF_PHDR) t"
    using load_segments [OF f(1) _ placed_none [OF assms(1)]] assms(5) by auto
  ultimately show ?thesis by (auto simp: placed_def)
qed

text \<open>A file with one segment of four bytes, two of them from the file.\<close>

definition sample_elf :: "u8 list" where
  "sample_elf =
     [0x7F, 0x45, 0x4C, 0x46, 1, 1, 1, 0, 0, 0, 0, 0, 0, 0, 0, 0, 2, 0, 3, 0, 1, 0, 0, 0, 0, 0x10, 0x40, 0, 52, 0, 0, 0,
      0, 0, 0, 0, 0, 0, 0, 0, 52, 0, 32, 0, 1, 0, 0, 0, 0, 0, 0, 0,
      1, 0, 0, 0, 84, 0, 0, 0, 0, 0x10, 0x40, 0, 0, 0, 0, 0, 2, 0, 0, 0, 4, 0, 0, 0, 6, 0, 0, 0, 0, 0x10, 0, 0, 0xAA, 0xBB]"

lemma sample_elf_fields: "e_phoff sample_elf = Inr 52" "e_phnum sample_elf = Inr 1" "phdr_fields sample_elf 52 0x401000 4 2 84 6"
  unfolding phdr_fields_def by code_simp+

theorem load_elf_loads_segments_witness:
  "\<exists>t. load_elf sample_elf sample_vmm = Inr (0x401000, t) \<and> load8 t 0x401001 = Inr 0xBB \<and> load8 t 0x401003 = Inr 0"
proof -
  have "case load_elf sample_elf sample_vmm of Inl _ \<Rightarrow> False | Inr (e, _) \<Rightarrow> e = 0x401000" by code_simp
  then obtain t where t: "load_elf sample_elf sample_vmm = Inr (0x401000, t)" by (auto dest!: case_res_True)
  have "segment_ok sample_elf (unat (52 :: u32) + i * SIZEOF_PHDR)" if "i < unat (1 :: u16)" for i
    using that sample_elf_fields(3) by (auto simp: segment_ok_def phdr_fields_def SIZEOF_PHDR_def sample_elf_def)
  then have "loaded sample_elf (unat (52 :: u32)) t"
    using load_elf_loads_segments [OF sample_vmm_wf t sample_elf_fields(1,2)] by auto
  then have l: "segment_loaded sample_elf 0x401000 4 2 84 6 t" using sample_elf_fields(3) by (auto simp: loaded_def)
  have "load8 t (0x401000 + of_nat 1) = Inr 0xBB" "load8 t (0x401000 + of_nat 3) = Inr 0"
    using l [unfolded segment_loaded_def, rule_format, of 1] l [unfolded segment_loaded_def, rule_format, of 3] by (simp_all add: sample_elf_def)
  then show ?thesis using t by simp
qed

text \<open>
  C36: the loops of \<open>load_elf\<close> over the pages of a segment end, for every segment that passes the
  check of its end against \<open>USER_END\<close>.
\<close>

theorem load_elf_page_loops_end:
  assumes "segment_end \<le> USER_END"
  shows "(\<exists>r. map_segment page segment_end s = Some r) \<and> (\<exists>r. remap_segment page segment_end flags s = Some r)"
  using map_segment_ends [OF assms] remap_segment_ends [OF assms] by blast

theorem load_elf_page_loops_end_witness: "\<exists>r. map_segment 0x401000 0x403000 sample_vmm = Some r"
  using load_elf_page_loops_end [of "0x403000" "0x401000" sample_vmm 7] by (simp add: USER_END_def)

text \<open>
  C33: a segment whose end wraps around the address space passes both range checks of
  \<open>load_elf\<close>, no page is mapped for it, and clearing it stops the kernel with a page fault.
\<close>

theorem load_elf_segment_wraps:
  assumes "vmm_wf s" "phdr_fields b p va n fs off fl" "USER_START \<le> va" "va \<le> USER_END" "va + n \<le> va" "n \<noteq> 0"
    and "pagemap_at s va = None"
  shows "load_segment b p s = Inl Abort"
proof -
  have e: "va + n \<le> USER_END" using assms(4,5) by simp
  have m: "map_segment va (va + n) s = Some (Inr s)" using leD [OF assms(5)] by (subst map_segment.simps) simp
  have "unat (PAGE_DIRECTORY_INDEX va) < 1023" using assms(4) by (auto simp: unat_dir_index USER_END_def word_le_nat_alt)
  from translate_pagemap [OF assms(1) this] have "translate s False va = Inl Abort" using assms(7) by simp
  then have "translate s True va = Inl Abort"
    by (auto simp: translate_def writable_ok_def Let_def split: if_splits)
  moreover obtain k where "unat n = Suc k" using assms(6) by (cases "unat n") (auto simp: unat_eq_0)
  ultimately have "write_bytes va (replicate (unat n) 0) s = Inl Abort" by (simp add: store8_def)
  then show ?thesis
    using assms(2,3,6) m e by (simp add: load_segment_def phdr_fields_def)
qed

text \<open>The sample file with a size in memory of \<open>0xFFC00000\<close>.\<close>

definition wrapping_elf :: "u8 list" where
  "wrapping_elf = sample_elf[72 := 0, 73 := 0, 74 := 0xC0, 75 := 0xFF]"

theorem load_elf_segment_wraps_witness: "load_segment wrapping_elf 52 sample_vmm = Inl Abort"
proof -
  have "phdr_fields wrapping_elf 52 0x401000 0xFFC00000 2 84 6" unfolding phdr_fields_def by code_simp
  moreover have "pagemap_at sample_vmm 0x401000 = None" by code_simp
  ultimately show ?thesis
    using load_elf_segment_wraps [OF sample_vmm_wf] by (simp add: USER_START_def USER_END_def)
qed

end
