(* ===== verification/Initrd.thy ===== *)
theory Initrd
  imports IpcInv
begin

text \<open>
  The initial ramdisk (\<open>kernel/initrd.c\<close>): a tar archive that the boot loader puts into memory is
  copied into the kernel heap, file by file. The bytes of the boot module are an argument; an
  access outside of it is undefined. The contents of the blocks that hold file data are in
  the store \<open>file_bytes\<close>.
\<close>

section \<open>State\<close>

record initrd_file =
  if_name :: "u8 list"
  if_data :: ptr
  if_size :: u32

record initrd_state = ipc_state +
  files :: "ptr \<Rightarrow> initrd_file"
  file_links :: links
  file_bytes :: "ptr \<Rightarrow> u8 list"
  initrd :: list_header
  initrd_size :: u32
  initrd_data :: ptr

text \<open>The header of an archive member: the name is at offset 0 and the size field at offset 124.\<close>

definition TAR_SIZE_OFFSET :: nat where "TAR_SIZE_OFFSET = 124"
definition TAR_BLOCK :: u32 where "TAR_BLOCK = 512"
definition NAME_SIZE :: nat where "NAME_SIZE = 100"
definition SIZEOF_INITRD_FILE :: u32 where "SIZEOF_INITRD_FILE = 116"

section \<open>Reading the archive\<close>

text \<open>The loop runs from the last digit to the first; \<open>char\<close> is signed.\<close>

fun getsize_loop :: "u8 list \<Rightarrow> nat \<Rightarrow> nat \<Rightarrow> u32 \<Rightarrow> u32 \<Rightarrow> u32 res" where
  "getsize_loop b p 0 count sz = Inr sz"
| "getsize_loop b p (Suc j) count sz =
     res_bind (rd b (p + j)) (\<lambda>c. getsize_loop b p j (count * 8) (sz + (scast c - 48) * count))"

definition getsize :: "u8 list \<Rightarrow> nat \<Rightarrow> u32 res" where
  "getsize b p = getsize_loop b p 11 1 0"

definition read_bytes :: "u8 list \<Rightarrow> nat \<Rightarrow> nat \<Rightarrow> u8 list res" where
  "read_bytes b p n = (if p + n \<le> length b then Inr (take n (drop p b)) else Inl Undefined)"

definition add_file :: "u8 list \<Rightarrow> nat \<Rightarrow> u32 \<Rightarrow> 'a initrd_state_scheme \<Rightarrow> 'a initrd_state_scheme res" where
  "add_file img hdr sz s =
     res_bind (kmalloc SIZEOF_INITRD_FILE s) (\<lambda>(file, s).
     let s = s\<lparr>file_links := (file_links s)(file := detached)\<rparr> in
     res_bind (strlcpy (replicate NAME_SIZE 0) 0 img hdr NAME_SIZE) (\<lambda>name.
     res_bind (kmalloc sz s) (\<lambda>(data, s).
     res_bind (read_bytes img (hdr + 512) (unat sz)) (\<lambda>bytes.
     let s = s\<lparr>files := (files s)(file := \<lparr>if_name = name, if_data = data, if_size = sz\<rparr>),
               file_bytes := (file_bytes s)(data := bytes)\<rparr>;
         (lk, l) = list_append (file_links s) (initrd s) file
     in Inr (s\<lparr>file_links := lk, initrd := l\<rparr>)))))"

partial_function (option) tar_loop :: "u8 list \<Rightarrow> nat \<Rightarrow> 'a initrd_state_scheme \<Rightarrow> 'a initrd_state_scheme res option" where
  "tar_loop img hdr s =
     (case rd img hdr of
        Inl e \<Rightarrow> Some (Inl e)
      | Inr c \<Rightarrow>
          if c = 0 then Some (Inr s)
          else
            (case getsize img (hdr + TAR_SIZE_OFFSET) of
               Inl e \<Rightarrow> Some (Inl e)
             | Inr sz \<Rightarrow>
                 (case add_file img hdr sz s of
                    Inl e \<Rightarrow> Some (Inl e)
                  | Inr s \<Rightarrow> tar_loop img (hdr + 512 + unat (ALIGN sz TAR_BLOCK)) s)))"

declare tar_loop.simps [code]

text \<open>\<open>img\<close> is the first boot module, if there is one.\<close>

definition initrd_init :: "u8 list option \<Rightarrow> 'a initrd_state_scheme \<Rightarrow> 'a initrd_state_scheme res" where
  "initrd_init module s =
     (case module of
        None \<Rightarrow> Inr s
      | Some img \<Rightarrow>
          let s = s\<lparr>initrd_size := of_nat (length img)\<rparr> in
          res_bind (kmalloc (initrd_size s) s) (\<lambda>(data, s).
          let s = s\<lparr>initrd_data := data, file_bytes := (file_bytes s)(data := img)\<rparr> in
          loop_result (tar_loop img 0 s)))"

section \<open>Access to the files\<close>

definition match_file :: "u8 list \<Rightarrow> 'a initrd_state_scheme \<Rightarrow> ptr \<Rightarrow> ptr \<Rightarrow> (bool \<times> ptr) res" where
  "match_file name s file result =
     res_bind (strcmp (if_name (files s file)) name) (\<lambda>r. Inr (if r = 0 then (True, file) else (False, result)))"

definition initrd_get_file :: "u8 list \<Rightarrow> 'a initrd_state_scheme \<Rightarrow> ptr res" where
  "initrd_get_file name s = list_foreach (\<lambda>_. file_links s) (initrd s) (match_file name s) NULL"

definition initrd_get_size :: "'a initrd_state_scheme \<Rightarrow> u32" where
  "initrd_get_size s = initrd_size s"

text \<open>The result is the number of bytes read and what is written to the buffer.\<close>

definition initrd_read :: "u32 \<Rightarrow> u32 \<Rightarrow> 'a initrd_state_scheme \<Rightarrow> (int \<times> u8 list) res" where
  "initrd_read sz offset s =
     (if offset > initrd_size s then Inr (-1, [])
      else
        let rem = initrd_size s - offset in
        if rem = 0 then Inr (0, [])
        else
          let sz = (if rem < sz then rem else sz) in
          res_bind (read_bytes (file_bytes s (initrd_data s)) (unat offset) (unat sz)) (\<lambda>bytes. Inr (sint sz, bytes)))"

definition syscall_initrd_get_size_handler :: "'a initrd_state_scheme \<Rightarrow> u32" where
  "syscall_initrd_get_size_handler s = initrd_size s"

definition syscall_initrd_copy_handler :: "u32 \<Rightarrow> 'a initrd_state_scheme \<Rightarrow> (u32 \<times> u8 list) res" where
  "syscall_initrd_copy_handler sz s =
     (if sz < initrd_size s then Inr (-1, [])
      else res_bind (read_bytes (file_bytes s (initrd_data s)) 0 (unat (initrd_size s))) (\<lambda>bytes. Inr (initrd_size s, bytes)))"

section \<open>The archive walk ends\<close>

lemma tar_loop_ends:
  fixes s :: "'a initrd_state_scheme"
  shows "\<exists>r. tar_loop img hdr s = Some r"
proof (induction "length img - hdr" arbitrary: hdr s rule: less_induct)
  case less
  show ?case
  proof (cases "rd img hdr")
    case (Inr c)
    then have "hdr < length img" by (simp add: rd_def split: if_splits)
    then have "\<exists>r. tar_loop img (hdr + 512 + k) t = Some r" for k and t :: "'a initrd_state_scheme" using less [of "hdr + 512 + k" t] by simp
    then show ?thesis using Inr by (subst tar_loop.simps) (auto split: sum.splits)
  qed (subst tar_loop.simps, simp)
qed

section \<open>The size field\<close>

text \<open>The \<open>k\<close> octal digits of a number, most significant first.\<close>

fun octal :: "nat \<Rightarrow> nat \<Rightarrow> u8 list" where
  "octal 0 n = []"
| "octal (Suc k) n = octal k (n div 8) @ [of_nat (48 + n mod 8)]"

lemma length_octal [simp]: "length (octal k n) = k"
  by (induction k arbitrary: n) auto

lemma digit_value: "d < 8 \<Longrightarrow> (scast (of_nat (48 + d) :: u8) :: u32) - 48 = of_nat d"
proof -
  assume "d < 8"
  then have "d \<in> {0, 1, 2, 3, 4, 5, 6, 7}" by auto
  then show ?thesis by (elim insertE) simp_all
qed

lemma getsize_loop_octal:
  assumes "take k (drop p b) = octal k n" "k + p \<le> length b"
  shows "getsize_loop b p k c v = Inr (v + of_nat (n mod 8 ^ k) * c)"
  using assms
proof (induction k arbitrary: n c v)
  case (Suc k)
  have "take (Suc k) (drop p b) = take k (drop p b) @ [b ! (p + k)]"
    using Suc.prems(2) by (simp add: take_Suc_conv_app_nth)
  then have t: "take k (drop p b) = octal k (n div 8)" "b ! (p + k) = of_nat (48 + n mod 8)" using Suc.prems(1) by auto
  have "rd b (p + k) = Inr (of_nat (48 + n mod 8))" using Suc.prems(2) t(2) by (simp add: rd_def)
  moreover have "(scast (of_nat (48 + n mod 8) :: u8) :: u32) - 48 = of_nat (n mod 8)" by (rule digit_value) simp
  ultimately have "getsize_loop b p (Suc k) c v = getsize_loop b p k (c * 8) (v + of_nat (n mod 8) * c)" by simp
  also have "\<dots> = Inr (v + of_nat (n mod 8) * c + of_nat (n div 8 mod 8 ^ k) * (c * 8))"
    using Suc.prems(2) by (intro Suc.IH t(1)) simp
  also have "n mod 8 ^ Suc k = n mod 8 + 8 * (n div 8 mod 8 ^ k)" by (simp add: mod_mult2_eq)
  then have "v + of_nat (n mod 8) * c + of_nat (n div 8 mod 8 ^ k) * (c * 8) = v + of_nat (n mod 8 ^ Suc k) * c"
    by (simp add: algebra_simps)
  finally show ?case .
qed simp

lemma getsize_octal:
  assumes "take 11 (drop p b) = octal 11 n" "11 + p \<le> length b" "n < 8 ^ 11"
  shows "getsize b p = Inr (of_nat n)"
  using getsize_loop_octal [OF assms(1,2), of 1 0] assms(3) by (simp add: getsize_def)

section \<open>Archives\<close>

definition tar_pad :: "nat \<Rightarrow> nat" where
  "tar_pad n = (n + 511) div 512 * 512 - n"

text \<open>
  A member of an archive: its name and contents, and the header fields the loader does not
  look at, with any values: mode and owner in front of the size, the byte behind its eleven
  octal digits, everything from the modification time to the end of the header block (with
  checksum and type), and the fill up to the next block.
\<close>

record tar_member =
  member_name :: "u8 list"
  member_bytes :: "u8 list"
  member_mode :: "u8 list"
  member_mark :: u8
  member_rest :: "u8 list"
  member_fill :: "u8 list"

definition tar_header :: "tar_member \<Rightarrow> u8 list" where
  "tar_header m = member_name m @ replicate (100 - length (member_name m)) 0 @ member_mode m @
     octal 11 (length (member_bytes m)) @ member_mark m # member_rest m"

definition tar_file :: "tar_member \<Rightarrow> u8 list" where
  "tar_file m = tar_header m @ member_bytes m @ member_fill m"

text \<open>An archive ends with blocks of zeros.\<close>

definition tar :: "tar_member list \<Rightarrow> nat \<Rightarrow> u8 list" where
  "tar ms n = concat (map tar_file ms) @ replicate n 0"

definition file_ok :: "u8 list \<times> u8 list \<Rightarrow> bool" where
  "file_ok f \<longleftrightarrow> fst f \<noteq> [] \<and> 0 \<notin> set (fst f) \<and> length (fst f) < 100 \<and> length (snd f) < 2 ^ 31"

abbreviation file_of :: "tar_member \<Rightarrow> u8 list \<times> u8 list" where
  "file_of m \<equiv> (member_name m, member_bytes m)"

definition member_ok :: "tar_member \<Rightarrow> bool" where
  "member_ok m \<longleftrightarrow> file_ok (file_of m) \<and> length (member_mode m) = 24 \<and> length (member_rest m) = 376
     \<and> length (member_fill m) = tar_pad (length (member_bytes m))"

lemma length_tar_header: "member_ok m \<Longrightarrow> length (tar_header m) = 512"
  by (simp add: tar_header_def member_ok_def file_ok_def)

lemma unat_small: "n < 2 ^ 31 \<Longrightarrow> unat (of_nat n :: u32) = n"
  by (simp add: unat_of_nat take_bit_nat_eq_self)

lemma align_block: "n < 2 ^ 31 \<Longrightarrow> unat (ALIGN (of_nat n) TAR_BLOCK) = n + tar_pad n"
proof -
  assume n: "n < 2 ^ 31"
  have "unat (ALIGN (of_nat n) (2 ^ 9)) = (n + 511) div 512 * 512"
    using unat_ALIGN [of 9 "of_nat n :: u32"] n by (simp add: unat_small)
  moreover have "n \<le> (n + 511) div 512 * 512"
    using div_mult_mod_eq [of "n + 511" 512] mod_less_divisor [of 512 "n + 511"] by linarith
  ultimately show ?thesis by (simp add: TAR_BLOCK_def tar_pad_def)
qed

lemma member_fields:
  assumes "member_ok m" "img = pre @ tar_file m @ rest" "p = length pre"
  shows "rd img p = Inr (hd (member_name m))" "hd (member_name m) \<noteq> 0"
    "getsize img (p + TAR_SIZE_OFFSET) = Inr (of_nat (length (member_bytes m)))"
    "strlcpy (replicate NAME_SIZE 0) 0 img p NAME_SIZE = Inr (member_name m @ replicate (100 - length (member_name m)) 0)"
    "read_bytes img (p + 512) (length (member_bytes m)) = Inr (member_bytes m)"
proof -
  let ?name = "member_name m" and ?bytes = "member_bytes m"
  have n: "?name \<noteq> []" "0 \<notin> set ?name" "length ?name < 100" "length ?bytes < 2 ^ 31" "length (member_mode m) = 24"
    using assms(1) by (auto simp: member_ok_def file_ok_def)
  have img: "drop p img = tar_header m @ ?bytes @ member_fill m @ rest" by (simp add: assms(2,3) tar_file_def)
  have len: "length (tar_header m) = 512" using assms(1) by (rule length_tar_header)
  have l: "p + 512 + length ?bytes \<le> length img" using len by (simp add: assms(2,3) tar_file_def)
  have "img ! p = (drop p img) ! 0" using l by simp
  also have "\<dots> = hd ?name" using n(1) by (cases ?name) (simp_all add: img tar_header_def)
  finally show "rd img p = Inr (hd ?name)" using l by (simp add: rd_def)
  show "hd ?name \<noteq> 0" using n(1,2) by (cases ?name) auto
  have "drop (p + 124) img = drop 124 (drop p img)" by (simp add: add.commute)
  also have "\<dots> = octal 11 (length ?bytes) @ member_mark m # member_rest m @ ?bytes @ member_fill m @ rest"
    using n(3,5) by (simp add: img tar_header_def)
  finally have "take 11 (drop (p + 124) img) = octal 11 (length ?bytes)" by simp
  then show "getsize img (p + TAR_SIZE_OFFSET) = Inr (of_nat (length ?bytes))"
    using l n(4) by (simp add: TAR_SIZE_OFFSET_def getsize_octal)
  obtain k where "100 - length ?name = Suc k" using n(3) by (cases "100 - length ?name") auto
  then have "cstr img p ?name"
    using n(2,3) l unfolding cstr_def by (auto simp: img tar_header_def)
  then show "strlcpy (replicate NAME_SIZE 0) 0 img p NAME_SIZE = Inr (?name @ replicate (100 - length ?name) 0)"
    using strlcpy_loop_spec [of img p ?name 100 0 "replicate 100 0"] n(3) Suc_diff_Suc [of "length ?name" 99]
    by (simp add: strlcpy_def NAME_SIZE_def overwrite_def Suc_diff_le flip: replicate_Suc)
  have "drop (p + 512) img = drop 512 (drop p img)" by (simp add: add.commute)
  then show "read_bytes img (p + 512) (length ?bytes) = Inr ?bytes" using l len by (simp add: read_bytes_def img)
qed

section \<open>Loading an archive\<close>

lemma initrd_fields:
  fixes s t :: "'a initrd_state_scheme"
  assumes "sched_state.more t = sched_state.more s"
  shows "files t = files s" "file_links t = file_links s" "file_bytes t = file_bytes s" "initrd t = initrd s"
    "initrd_size t = initrd_size s" "initrd_data t = initrd_data s"
  using assms by (cases s, cases t, simp)+

lemma kmalloc_more:
  assumes "kmalloc n s = Inr (p, t)"
  shows "sched_state.more t = sched_state.more s" "p \<noteq> NULL" "6 \<le> unat n \<Longrightarrow> unat n + 56 < 2 ^ 32 \<Longrightarrow> owns s P \<Longrightarrow> p \<notin> P \<and> owns t (insert p P)"
proof -
  show "sched_state.more t = sched_state.more s" by (rule outer_fields [OF kouter_outer [OF kouter_kmalloc(2) [OF assms]]])
  show "p \<noteq> NULL" using assms by (auto simp: kmalloc_def kmalloc_a_Inr res_simps)
  show "6 \<le> unat n \<Longrightarrow> unat n + 56 < 2 ^ 32 \<Longrightarrow> owns s P \<Longrightarrow> p \<notin> P \<and> owns t (insert p P)" using owns_kmalloc assms by blast
qed

lemma owns_initrd [simp]:
  "owns (s\<lparr>files := a\<rparr>) P = owns s P" "owns (s\<lparr>file_links := b\<rparr>) P = owns s P" "owns (s\<lparr>file_bytes := c\<rparr>) P = owns s P"
  "owns (s\<lparr>initrd := d\<rparr>) P = owns s P" "owns (s\<lparr>initrd_size := e\<rparr>) P = owns s P" "owns (s\<lparr>initrd_data := f\<rparr>) P = owns s P"
  by (simp_all add: owns_def kheap_inv_def heap_inv_def heap_wf_def live_def canary_addr_def)

definition holds_file :: "'a initrd_state_scheme \<Rightarrow> ptr \<Rightarrow> u8 list \<times> u8 list \<Rightarrow> bool" where
  "holds_file s p f \<longleftrightarrow>
     if_name (files s p) = fst f @ replicate (100 - length (fst f)) 0 \<and> if_size (files s p) = of_nat (length (snd f)) \<and>
     file_bytes s (if_data (files s p)) = snd f"

text \<open>\<open>FL\<close> are the file structures, in list order, and \<open>fs\<close> the files they hold.\<close>

definition initrd_ok :: "'a initrd_state_scheme \<Rightarrow> ptr list \<Rightarrow> (u8 list \<times> u8 list) list \<Rightarrow> bool" where
  "initrd_ok s FL fs \<longleftrightarrow>
     dll (file_links s) (initrd s) FL \<and> list_all2 (holds_file s) FL fs \<and>
     (\<exists>P. owns s P \<and> set FL \<subseteq> P \<and> (\<forall>p\<in>set FL. if_data (files s p) \<in> P))"

lemma list_all2_holds_cong:
  assumes "list_all2 (holds_file s) FL fs" "\<And>p. p \<in> set FL \<Longrightarrow> files t p = files s p \<and> file_bytes t (if_data (files s p)) = file_bytes s (if_data (files s p))"
  shows "list_all2 (holds_file t) FL fs"
  using assms(1) by (rule list.rel_mono_strong) (use assms(2) in \<open>simp add: holds_file_def\<close>)

lemma add_file_ok:
  assumes i: "initrd_ok s FL fs" and f: "member_ok m" "6 \<le> length (member_bytes m)" and img: "img = pre @ tar_file m @ rest" "hdr = length pre"
    and run: "add_file img hdr (of_nat (length (member_bytes m))) s = Inr s'"
  shows "\<exists>p. initrd_ok s' (FL @ [p]) (fs @ [file_of m])"
proof -
  define name bytes where nb: "name = member_name m" "bytes = member_bytes m"
  note run = run [folded nb] and f2 = f(2) [folded nb]
  note m = member_fields [OF f(1) img, folded nb]
  have sz: "length bytes < 2 ^ 31" using f(1) by (simp add: member_ok_def file_ok_def nb)
  then have u: "unat (of_nat (length bytes) :: u32) = length bytes" by (rule unat_small)
  obtain p s1 where k1: "kmalloc SIZEOF_INITRD_FILE s = Inr (p, s1)" using run by (auto simp: add_file_def res_simps)
  let ?s1 = "s1\<lparr>file_links := (file_links s1)(p := detached)\<rparr>"
  obtain d s2 where k2: "kmalloc (of_nat (length bytes)) ?s1 = Inr (d, s2)"
    using run k1 m(4) by (auto simp: add_file_def res_simps)
  note e1 = initrd_fields [OF kmalloc_more(1) [OF k1]] and e2 = initrd_fields [OF kmalloc_more(1) [OF k2]]
  obtain lk l where l: "list_append ((file_links s)(p := detached)) (initrd s) p = (lk, l)" by fastforce
  have s': "s' = s2\<lparr>files := (files s)(p := \<lparr>if_name = name @ replicate (100 - length name) 0, if_data = d, if_size = of_nat (length bytes)\<rparr>),
      file_bytes := (file_bytes s)(d := bytes), file_links := lk, initrd := l\<rparr>"
    using run k1 k2 m(4,5) u e1 e2 l by (simp add: add_file_def Let_def)
  obtain P where P: "owns s P" "set FL \<subseteq> P" "\<forall>q\<in>set FL. if_data (files s q) \<in> P" using i by (auto simp: initrd_ok_def)
  have p: "p \<notin> P" "owns s1 (insert p P)" using kmalloc_more(3) [OF k1 _ _ P(1)] by (auto simp: SIZEOF_INITRD_FILE_def)
  have "owns ?s1 (insert p P)" using p(2) by simp
  from kmalloc_more(3) [OF k2 _ _ this] have d: "d \<notin> insert p P" "owns s2 (insert d (insert p P))" using sz u f2 by auto
  have dll: "dll (file_links s) (initrd s) FL" using i by (simp add: initrd_ok_def)
  have pF: "p \<notin> set FL" using p(1) P(2) by blast
  have "dll lk l (FL @ [p])"
    by (rule ll.app_rep [OF dll_outside [OF dll pF] _ pF l]) (simp add: linkable_def kmalloc_more(2) [OF k1])
  then have "dll (file_links s') (initrd s') (FL @ [p])" by (simp add: s')
  moreover have "list_all2 (holds_file s') (FL @ [p]) (fs @ [(name, bytes)])"
  proof (rule list_all2_appendI)
    show "list_all2 (holds_file s') FL fs"
      by (rule list_all2_holds_cong [of s]) (use i pF d(1) P(3) in \<open>auto simp: initrd_ok_def s'\<close>)
    show "list_all2 (holds_file s') [p] [(name, bytes)]" by (simp add: holds_file_def s')
  qed
  moreover have "owns s' (insert d (insert p P))" using d(2) by (simp add: s')
  moreover have "\<forall>q\<in>set (FL @ [p]). if_data (files s' q) \<in> insert d (insert p P)" using P(3) by (simp add: s')
  moreover have "set (FL @ [p]) \<subseteq> insert d (insert p P)" using P(2) by auto
  ultimately show ?thesis unfolding initrd_ok_def nb by blast
qed

lemma tar_loop_ok:
  assumes "initrd_ok s FL fs" "\<forall>m\<in>set ms. member_ok m \<and> 6 \<le> length (member_bytes m)"
    "img = pre @ concat (map tar_file ms) @ 0 # rest" "hdr = length pre" "tar_loop img hdr s = Some (Inr s')"
  shows "\<exists>FL'. initrd_ok s' FL' (fs @ map file_of ms)"
  using assms
proof (induction ms arbitrary: s FL fs pre hdr)
  case Nil
  then have "rd img hdr = Inr 0" by (simp add: rd_def)
  then show ?case using Nil.prems(1,5) by (subst (asm) tar_loop.simps) auto
next
  case (Cons m ms)
  have ok: "member_ok m" "6 \<le> length (member_bytes m)" using Cons.prems(2) by simp_all
  have img: "img = pre @ tar_file m @ concat (map tar_file ms) @ 0 # rest" using Cons.prems(3) by simp
  note f = member_fields [OF ok(1) img Cons.prems(4)]
  have len: "length (member_bytes m) < 2 ^ 31" "length (member_fill m) = tar_pad (length (member_bytes m))"
    using ok(1) by (auto simp: member_ok_def file_ok_def)
  let ?n = "of_nat (length (member_bytes m)) :: u32"
  obtain s1 where a: "add_file img hdr ?n s = Inr s1" "tar_loop img (hdr + 512 + unat (ALIGN ?n TAR_BLOCK)) s1 = Some (Inr s')"
    using Cons.prems(5) f(1,2,3) by (subst (asm) tar_loop.simps) (auto split: sum.splits)
  obtain p where p: "initrd_ok s1 (FL @ [p]) (fs @ [file_of m])"
    using add_file_ok [OF Cons.prems(1) ok img Cons.prems(4) a(1)] by blast
  have "hdr + 512 + unat (ALIGN ?n TAR_BLOCK) = length (pre @ tar_file m)"
    using align_block [OF len(1)] len(2) length_tar_header [OF ok(1)] Cons.prems(4) by (simp add: tar_file_def)
  from Cons.IH [OF p _ _ this a(2)] Cons.prems(2) img show ?case by simp
qed

section \<open>Finding files\<close>

lemma holds_file_named:
  assumes "holds_file s p f" "file_ok f" "0 \<notin> set name"
  shows "\<exists>r. strcmp (if_name (files s p)) (name @ [0]) = Inr r \<and> (r = 0 \<longleftrightarrow> fst f = name)"
proof -
  have f: "0 \<notin> set (fst f)" "length (fst f) < 100" "if_name (files s p) = fst f @ replicate (100 - length (fst f)) 0"
    using assms(1,2) by (auto simp: file_ok_def holds_file_def)
  obtain k where "100 - length (fst f) = Suc k" using f(2) by (cases "100 - length (fst f)") auto
  then have "if_name (files s p) = fst f @ 0 # replicate k 0" using f(3) by simp
  then show ?thesis using strcmp_cstr [OF f(1) assms(3), of "replicate k 0" "[]"] by simp
qed

lemma match_fold:
  assumes "list_all2 (holds_file s) FL fs" "\<forall>f\<in>set fs. file_ok f" "0 \<notin> set name"
  shows "foreach_fold (match_file (name @ [0]) s) FL r =
    Inr (case find (\<lambda>pf. fst (snd pf) = name) (zip FL fs) of None \<Rightarrow> r | Some pf \<Rightarrow> fst pf)"
  using assms
proof (induction arbitrary: r rule: list_all2_induct)
  case (Cons p FL f fs)
  obtain c where "strcmp (if_name (files s p)) (name @ [0]) = Inr c" "c = 0 \<longleftrightarrow> fst f = name"
    using holds_file_named [OF Cons.hyps(1)] Cons.prems by auto
  then show ?case using Cons.IH Cons.prems by (simp add: match_file_def)
qed simp

lemma initrd_get_file_ok:
  assumes "initrd_ok s FL fs" "\<forall>f\<in>set fs. file_ok f" "distinct (map fst fs)" "(name, bytes) \<in> set fs"
  shows "\<exists>p. initrd_get_file (name @ [0]) s = Inr p \<and> p \<noteq> NULL \<and> if_size (files s p) = of_nat (length bytes)
    \<and> file_bytes s (if_data (files s p)) = bytes"
proof -
  have d: "dll (file_links s) (initrd s) FL" and h: "list_all2 (holds_file s) FL fs" using assms(1) by (auto simp: initrd_ok_def)
  have z: "0 \<notin> set name" using assms(2,4) by (auto simp: file_ok_def)
  obtain i where i: "i < length fs" "fs ! i = (name, bytes)" using assms(4) by (auto simp: in_set_conv_nth)
  have len: "length FL = length fs" using h by (rule list_all2_lengthD)
  have "(FL ! i, name, bytes) \<in> set (zip FL fs)" using i len by (auto simp: set_zip)
  then obtain pf where pf: "find (\<lambda>pf. fst (snd pf) = name) (zip FL fs) = Some pf"
    by (cases "find (\<lambda>pf. fst (snd pf) = name) (zip FL fs)") (auto simp: find_None_iff)
  have "fst (snd pf) = name" using pf by (auto simp: find_Some_iff)
  then obtain p c where e1: "pf = (p, name, c)" by (metis prod.collapse)
  have e: "(p, name, c) \<in> set (zip FL fs)" using find_in_set [OF pf] e1 by simp
  have m: "p \<in> set FL" "(name, c) \<in> set fs" by (rule set_zip_leftD [OF e], rule set_zip_rightD [OF e])
  have hp: "holds_file s p (name, c)" using h e by (auto simp: list_all2_iff)
  have "c = bytes" by (rule eq_key_imp_eq_value [OF assms(3) m(2) assms(4)])
  moreover have "p \<noteq> NULL" using m(1) d by (auto simp: dll_def)
  moreover have "initrd_get_file (name @ [0]) s = Inr p"
    using pf match_fold [OF h assms(2) z] by (simp add: initrd_get_file_def foreach_const [OF d] e1)
  ultimately show ?thesis using hp by (auto simp: holds_file_def)
qed

lemma length_tar_member:
  assumes "member_ok m" "m \<in> set ms"
  shows "512 \<le> length (tar ms n)"
proof -
  obtain as bs where "ms = as @ m # bs" using split_list [OF assms(2)] by blast
  then show ?thesis using length_tar_header [OF assms(1)] by (simp add: tar_def tar_file_def)
qed

lemma initrd_init_ok:
  assumes "initrd_ok s [] []" "\<forall>m\<in>set ms. member_ok m \<and> 6 \<le> length (member_bytes m)" "6 \<le> length (tar ms n)" "length (tar ms n) < 2 ^ 31"
    "0 < n" "initrd_init (Some (tar ms n)) s = Inr s'"
  shows "\<exists>FL. initrd_ok s' FL (map file_of ms)"
proof -
  let ?t = "tar ms n"
  let ?n = "of_nat (length ?t) :: u32"
  obtain d s1 where k: "kmalloc ?n (s\<lparr>initrd_size := ?n\<rparr>) = Inr (d, s1)"
      "loop_result (tar_loop ?t 0 (s1\<lparr>initrd_data := d, file_bytes := (file_bytes s1)(d := ?t)\<rparr>)) = Inr s'"
    using assms(6) by (auto simp: initrd_init_def Let_def res_simps)
  let ?s2 = "s1\<lparr>initrd_data := d, file_bytes := (file_bytes s1)(d := ?t)\<rparr>"
  obtain P where P: "owns s P" and dl: "dll (file_links s) (initrd s) []" using assms(1) by (auto simp: initrd_ok_def)
  have "owns (s\<lparr>initrd_size := ?n\<rparr>) P" using P by simp
  from kmalloc_more(3) [OF k(1) _ _ this] have "owns s1 (insert d P)" using assms(3,4) unat_small [OF assms(4)] by auto
  then have i: "initrd_ok ?s2 [] []"
    using dl initrd_fields [OF kmalloc_more(1) [OF k(1)]] by (auto simp: initrd_ok_def)
  have t: "tar_loop ?t 0 ?s2 = Some (Inr s')"
    using k(2) tar_loop_ends [of ?t 0 ?s2] by (auto simp: loop_result_def split: option.splits)
  have "?t = [] @ concat (map tar_file ms) @ 0 # replicate (n - 1) 0" using assms(5) by (cases n) (simp_all add: tar_def)
  from tar_loop_ok [OF i assms(2) this _ t] show ?thesis by simp
qed

section \<open>Properties\<close>

text \<open>A machine whose kernel heap is one page with three free blocks and two others, and an archive with one file.\<close>

definition free_block :: "u32 \<Rightarrow> u32 \<Rightarrow> heap_block_header" where
  "free_block sz n = \<lparr>hb_magic = MAGIC_FREE, hb_flags = 0, hb_size = sz, hb_next = n\<rparr>"

definition used_block :: "u32 \<Rightarrow> u32 \<Rightarrow> heap_block_header" where
  "used_block sz n = \<lparr>hb_magic = MAGIC_ALLOCATED, hb_flags = BLOCK_ALLOCATED, hb_size = sz, hb_next = n\<rparr>"

definition sample_initrd :: initrd_state where
  "sample_initrd =
     \<lparr>eflags = eflags sample_heap, initialized = initialized sample_heap, memregions = memregions sample_heap, phys = phys sample_heap,
        cr3 = cr3 sample_heap, cr0 = cr0 sample_heap, paging_enabled = paging_enabled sample_heap, current_pagedir_va = current_pagedir_va sample_heap,
        blocks = (\<lambda>_. free_block 0 0)
          (0xC0200010 := free_block 0x820 0xC0200830, 0xC0200830 := used_block 0x20 0xC0200850,
           0xC0200850 := free_block 0x90 0xC02008E0, 0xC02008E0 := used_block 0x20 0xC0200900, 0xC0200900 := free_block 0x700 0),
        canaries = (\<lambda>_. CANARY), kheap = kheap sample_heap, kheap_addr = kheap_addr sample_heap,
        trace_enabled = False, tmaps = (\<lambda>_. \<lparr>tm_frame = 0, tm_flags = 0, tm_address = 0\<rparr>), tlinks = (\<lambda>_. detached), transient_maps = list_init,
        gdt_entries = [], tss = \<lparr>tss_esp0 = 0, tss_ss0 = 0, tss_esp = 0, tss_cs = 0, tss_ss = 0, tss_es = 0, tss_ds = 0, tss_fs = 0, tss_gs = 0, tss_iomap_base = 0, tss_iomap = []\<rparr>,
        idt_entries = [], isr_handlers = [], irq_handlers = [], ports_out = [],
        warn_unhandled = 0, current_timestamp = 0, ticks = 0, timers = [], timer_count = 0, next_timer_id = 0,
        tasks = (\<lambda>_. \<lparr>pid = 0, task_name = [], pagedir = NULL, ctx = zero_context, iomap = [], wait_canrecv_port = -1,
          wait_cansend_port = -1, sleep_deadline = 0\<rparr>), task_links = (\<lambda>_. detached), ready_queue = list_init, sleeping_queue = list_init,
        exited_queue = list_init, next_pid_value = 0, current_task = NULL, idle_task = NULL,
        running = zero_context, kstacks = (\<lambda>_. K_None), syscall_handlers = replicate 32 None,
        ports = (\<lambda>_. \<lparr>number = 0, receiver = 0, queue = list_init, lock = 0\<rparr>), port_links = (\<lambda>_. detached),
        messages = (\<lambda>_. \<lparr>checksum = 0, sender = 0, reply_port = 0, code = 0, len = 0, msg_data = []\<rparr>), msg_links = (\<lambda>_. detached),
        port_list = list_init, port_list_lock = 0, reserved_ports = 0, next_port_value = 0,
        files = (\<lambda>_. \<lparr>if_name = [], if_data = NULL, if_size = 0\<rparr>), file_links = (\<lambda>_. detached), file_bytes = (\<lambda>_. []),
        initrd = list_init, initrd_size = 0, initrd_data = NULL\<rparr>"

text \<open>A member as \<open>tar\<close> writes it: mode 0644, owner and group 0, time, checksum, type 0 and the \<open>ustar\<close> mark.\<close>

definition sample_member :: "u8 list \<Rightarrow> tar_member" where
  "sample_member bytes = \<lparr>member_name = [97], member_bytes = bytes,
     member_mode = [48, 48, 48, 48, 54, 52, 52, 0] @ replicate 7 48 @ [0] @ replicate 7 48 @ [0], member_mark = 0,
     member_rest = [49, 51, 49, 51, 50, 48, 50, 55, 52, 48, 48, 0, 48, 48, 54, 49, 51, 51, 0, 32, 48] @ replicate 100 0 @
       [117, 115, 116, 97, 114, 0, 48, 48] @ replicate 247 0,
     member_fill = replicate (tar_pad (length bytes)) 0\<rparr>"

definition sample_archive :: "tar_member list" where "sample_archive = [sample_member [1, 2, 3, 4, 5, 6]]"

lemma sample_initrd_allocs:
  "case kmalloc 2048 (sample_initrd\<lparr>initrd_size := 2048\<rparr>) of Inl _ \<Rightarrow> False | Inr (d, s1) \<Rightarrow>
    (case kmalloc SIZEOF_INITRD_FILE (s1\<lparr>initrd_data := d, file_bytes := (file_bytes s1)(d := img)\<rparr>) of Inl _ \<Rightarrow> False | Inr (p, s2) \<Rightarrow>
    (case kmalloc 6 (s2\<lparr>file_links := (file_links s2)(p := detached)\<rparr>) of Inl _ \<Rightarrow> False | Inr _ \<Rightarrow> True))"
  by code_simp

lemma sample_initrd_ok: "initrd_ok sample_initrd [] []"
proof -
  let ?bs = "[0xC0200010, 0xC0200830, 0xC0200850, 0xC02008E0, 0xC0200900] :: u32 list"
  note d = sample_initrd_def free_block_def used_block_def allocated_def BLOCK_ALLOCATED_def
    and h = sample_heap_def create_block_def upd_block_def
  have "heap_wf sample_initrd ?bs" by (simp add: d h heap_wf_def good_header_def valid_header_def)
  moreover have "live sample_initrd ?bs = {(0xC0200830, 0x20), (0xC02008E0, 0x20)}" by (auto simp: d live_def)
  ultimately have "kheap_inv sample_initrd {0xC0200840, 0xC02008F0}"
    unfolding kheap_inv_def heap_inv_def by (intro exI [of _ ?bs]) (simp add: d h sample_boot_def HDR_def)
  then have "owns sample_initrd {}"
    using dll_init unfolding owns_def by (intro exI [of _ "{0xC0200840, 0xC02008F0}"] exI [of _ "[]"]) (simp add: d)
  then show ?thesis using dll_init unfolding initrd_ok_def by (auto simp: d)
qed

lemma sample_member_ok: "length bytes < 2 ^ 31 \<Longrightarrow> member_ok (sample_member bytes)"
  by (simp add: member_ok_def file_ok_def sample_member_def)

lemma sample_archive_tar:
  "tar sample_archive 1024 = [] @ tar_file (sample_member [1, 2, 3, 4, 5, 6]) @ replicate 1024 0"
  "member_ok (sample_member [1, 2, 3, 4, 5, 6])" "length (tar_file (sample_member [1, 2, 3, 4, 5, 6])) = 1024"
  using sample_member_ok [of "[1, 2, 3, 4, 5, 6]"] length_tar_header [of "sample_member [1, 2, 3, 4, 5, 6]"]
  by (simp_all add: tar_def sample_archive_def tar_file_def) (simp add: sample_member_def tar_pad_def)

lemma case_res_pair: "(case r of Inl _ \<Rightarrow> False | Inr (x, t) \<Rightarrow> P x t) \<Longrightarrow> \<exists>x t. r = Inr (x, t) \<and> P x t"
  by (cases r) auto

lemma sample_initrd_loads: obtains s' where "initrd_init (Some (tar sample_archive 1024)) sample_initrd = Inr s'"
proof -
  let ?img = "tar sample_archive 1024"
  obtain d s1 p s2 e s3 where k: "kmalloc 2048 (sample_initrd\<lparr>initrd_size := 2048\<rparr>) = Inr (d, s1)"
      "kmalloc SIZEOF_INITRD_FILE (s1\<lparr>initrd_data := d, file_bytes := (file_bytes s1)(d := ?img)\<rparr>) = Inr (p, s2)"
      "kmalloc 6 (s2\<lparr>file_links := (file_links s2)(p := detached)\<rparr>) = Inr (e, s3)"
    using sample_initrd_allocs [of ?img] by (auto dest!: case_res_pair case_res_True)
  note f = member_fields [OF sample_archive_tar(2,1), of 0, simplified]
  have b: "member_bytes (sample_member [1, 2, 3, 4, 5, 6]) = [1, 2, 3, 4, 5, 6]" by (simp add: sample_member_def)
  have r: "read_bytes ?img 512 6 = Inr [1, 2, 3, 4, 5, 6]" using f(5) by (simp add: b eval_nat_numeral)
  have "length ?img = 2048" using sample_archive_tar(1,3) by simp
  moreover obtain t where a: "add_file ?img 0 6 (s1\<lparr>initrd_data := d, file_bytes := (file_bytes s1)(d := ?img)\<rparr>) = Inr t"
    using k(2,3) f(4) r by (auto simp: add_file_def res_simps prod.case_eq_if)
  have "rd ?img 1024 = Inr 0" using sample_archive_tar(1,3) by (simp add: rd_def nth_append)
  then have "tar_loop ?img 1024 t = Some (Inr t)" by (subst tar_loop.simps) simp
  then have "tar_loop ?img 0 (s1\<lparr>initrd_data := d, file_bytes := (file_bytes s1)(d := ?img)\<rparr>) = Some (Inr t)"
    using f(1,2,3) a by (subst tar_loop.simps) (simp add: ALIGN_def TAR_BLOCK_def b)
  ultimately show thesis using k(1) that by (simp add: initrd_init_def res_simps loop_result_def)
qed

text \<open>
  C10: every file of a tar archive given to the kernel as its boot module can be found by its
  name after \<open>initrd_init\<close> returns, with the size and the contents it has in the archive. The
  fields of the member headers the loader does not read (mode, owner, time, checksum, type and
  the rest of the block) and the fill behind the contents are arbitrary; the archive ends with
  at least one zero byte. The names are distinct, not empty and shorter than the 100 bytes of the name
  field, and every file has at least the 6 bytes that keep its heap block's canary off the
  header of the block.
\<close>

theorem initrd_roundtrip:
  assumes "initrd_ok s [] []" "\<forall>m\<in>set ms. member_ok m \<and> 6 \<le> length (member_bytes m)" "0 < n" "length (tar ms n) < 2 ^ 31"
    "distinct (map member_name ms)" "initrd_init (Some (tar ms n)) s = Inr s'" "m \<in> set ms"
  shows "\<exists>p. initrd_get_file (member_name m @ [0]) s' = Inr p \<and> p \<noteq> NULL \<and> if_size (files s' p) = of_nat (length (member_bytes m))
    \<and> file_bytes s' (if_data (files s' p)) = member_bytes m"
proof -
  have "6 \<le> length (tar ms n)" using length_tar_member [OF _ assms(7), of n] assms(2,7) by auto
  with initrd_init_ok [OF assms(1,2) _ assms(4,3,6)] obtain FL where "initrd_ok s' FL (map file_of ms)" by blast
  then show ?thesis
    by (rule initrd_get_file_ok) (use assms(2,5,7) in \<open>auto simp: member_ok_def comp_def\<close>)
qed

theorem initrd_roundtrip_witness:
  "\<exists>s' p. initrd_init (Some (tar sample_archive 1024)) sample_initrd = Inr s' \<and> initrd_get_file [97, 0] s' = Inr p \<and> p \<noteq> NULL
    \<and> file_bytes s' (if_data (files s' p)) = [1, 2, 3, 4, 5, 6]"
proof -
  obtain s' where s': "initrd_init (Some (tar sample_archive 1024)) sample_initrd = Inr s'" by (rule sample_initrd_loads)
  from initrd_roundtrip [OF sample_initrd_ok _ _ _ _ s', of "sample_member [1, 2, 3, 4, 5, 6]"] s' sample_archive_tar
  show ?thesis by (auto simp: sample_archive_def) (auto simp: sample_member_def)
qed

text \<open>
  C32: an archive with an empty member (an empty file or a directory entry) stops the kernel:
  whatever is in front of the member and behind it, the walk that arrives at its header and has
  memory for the file descriptor fails the assertion of \<open>kmalloc\<close> that the size is not zero.
\<close>

theorem initrd_empty_member_stops:
  assumes "member_ok m" "member_bytes m = []" "img = front @ tar_file m @ rest" "kmalloc SIZEOF_INITRD_FILE s = Inr (p, s1)"
  shows "tar_loop img (length front) s = Some (Inl Assert_Failed)"
proof -
  note f = member_fields [OF assms(1,3) refl]
  have "kmalloc 0 t = Inl Assert_Failed" for t :: "'a initrd_state_scheme" by (simp add: kmalloc_def res_simps)
  then have "add_file img (length front) 0 s = Inl Assert_Failed" using assms(4) f(4) by (simp add: add_file_def res_simps)
  then show ?thesis using f(1,2,3) assms(2) by (subst tar_loop.simps) simp
qed

lemma sample_initrd_descriptor: obtains p s1 where "kmalloc SIZEOF_INITRD_FILE sample_initrd = Inr (p, s1)"
proof -
  have "case kmalloc SIZEOF_INITRD_FILE sample_initrd of Inl _ \<Rightarrow> False | Inr (p, s1) \<Rightarrow> True" by code_simp
  then show thesis using that by (auto dest!: case_res_pair)
qed

theorem initrd_empty_member_stops_witness:
  "tar_loop (tar_file (sample_member []) @ replicate 1024 0) 0 sample_initrd = Some (Inl Assert_Failed)"
proof -
  obtain p s1 where k: "kmalloc SIZEOF_INITRD_FILE sample_initrd = Inr (p, s1)" by (rule sample_initrd_descriptor)
  from initrd_empty_member_stops [OF sample_member_ok [of "[]"] _ _ k, of _ "[]"] show ?thesis by (simp add: sample_member_def)
qed

text \<open>
  Further: \<open>initrd_read\<close> never reads outside of the ramdisk: it delivers exactly the bytes of the
  image between the offset and the end that fit the buffer, and -1 beyond the end.
\<close>

theorem initrd_read_slice:
  assumes "length (file_bytes s (initrd_data s)) = unat (initrd_size s)"
  shows "initrd_read sz offset s =
    (let bytes = take (unat sz) (drop (unat offset) (file_bytes s (initrd_data s)))
     in Inr (if offset > initrd_size s then -1 else sint (of_nat (length bytes) :: u32), bytes))"
proof (cases "offset > initrd_size s")
  case True
  then show ?thesis using assms by (simp add: initrd_read_def word_less_nat_alt)
next
  case False
  then have le: "unat offset \<le> unat (initrd_size s)" by (simp add: word_less_nat_alt)
  then have r: "unat (initrd_size s - offset) = unat (initrd_size s) - unat offset" by (simp add: unat_sub_if')
  then have e: "of_nat (unat (initrd_size s) - unat offset) = initrd_size s - offset" by (metis of_nat_unat ucast_id)
  show ?thesis
  proof (cases "initrd_size s - offset < sz")
    case True
    then have "unat (initrd_size s) - unat offset \<le> unat sz" using r by (simp add: word_less_nat_alt)
    then show ?thesis using False True assms le r e
      by (simp add: initrd_read_def read_bytes_def Let_def)
  next
    case f: False
    then have "unat sz \<le> unat (initrd_size s) - unat offset" using r by (simp add: word_less_nat_alt)
    then show ?thesis using False f assms le
      by (auto simp: initrd_read_def read_bytes_def Let_def min_absorb1 min_absorb2 unat_eq_0)
  qed
qed

theorem initrd_read_slice_witness:
  "initrd_read 5 1 (sample_initrd\<lparr>initrd_size := 3, initrd_data := 0xC0200840, file_bytes := (\<lambda>_. [1, 2, 3])\<rparr>) = Inr (2, [2, 3])"
  using initrd_read_slice [of "sample_initrd\<lparr>initrd_size := 3, initrd_data := 0xC0200840, file_bytes := (\<lambda>_. [1, 2, 3])\<rparr>" 5 1]
  by simp

end
