(* ===== verification/Syscall.thy ===== *)
theory Syscall
  imports Elf Initrd
begin

text \<open>
  The system call interface (\<open>kernel/syscall_handler.c\<close>) and the \<open>exec\<close> handler of
  \<open>kernel/scheduler.c\<close>. What a call reads from user memory, a message or a file name, is an
  argument of the dispatcher, and what it writes there is part of its result.
\<close>

section \<open>\<open>exec\<close>\<close>

definition FILENAME_MAX :: nat where "FILENAME_MAX = 64"

text \<open>
  The file name is copied to a buffer on the stack, since the memory of the process goes away.
  The bytes of the buffer behind the copy are never read and stand as zeros.
\<close>

definition syscall_exec_handler ::
    "isr_regs \<Rightarrow> u8 list \<Rightarrow> 'a initrd_state_scheme \<Rightarrow> (isr_regs \<times> u32 \<times> 'a initrd_state_scheme) res" where
  "syscall_exec_handler regs filename s =
     assert_then (r_ebx regs \<noteq> NULL) (
     res_bind (rd filename 0) (\<lambda>c. assert_then (c \<noteq> 0) (
     res_bind (strlcpy (replicate FILENAME_MAX 0) 0 filename 0 FILENAME_MAX) (\<lambda>filename_buf.
     res_bind (current_task_pid s) (\<lambda>_.
     res_bind (current_task_name s) (\<lambda>_.
     res_bind (initrd_get_file filename s) (\<lambda>file.
       if file = NULL then Inr (regs, 0, s)
       else
         res_bind (vmm_reset_current_pagedir s) (\<lambda>s.
         res_bind (load_elf (file_bytes s (if_data (files s file))) s) (\<lambda>(entry, s).
         res_bind (current_task_set_name filename_buf s) (\<lambda>s.
         let regs = regs\<lparr>r_esp := USER_STACK + PAGE_SIZE, useresp := USER_STACK + PAGE_SIZE,
               r_eflags := eflags s OR EFLAGS_IF, r_eip := entry\<rparr>
         in
         res_bind (current_task_pid s) (\<lambda>p.
         res_bind (task_get p s) (\<lambda>t.
         assert_then (t = current_task s) (
         res_bind (strcmp (task_name (tasks s t)) filename_buf) (\<lambda>r.
         assert_then (r = 0) (Inr (regs, 0, s))))))))))))))))"

section \<open>The dispatcher\<close>

definition SYSCALL_COUNT :: nat where "SYSCALL_COUNT = 80"
definition SYSCALL_VECTOR :: nat where "SYSCALL_VECTOR = 0x80"

text \<open>The address of \<open>syscall_handler\<close> is an argument.\<close>

definition syscall_init :: "ptr \<Rightarrow> 'a sched_state_scheme \<Rightarrow> (unit \<times> 'a sched_state_scheme) res" where
  "syscall_init handler_addr s =
     idt_install SYSCALL_VECTOR handler_addr True (s\<lparr>syscall_handlers := replicate SYSCALL_COUNT None\<rparr>)"

text \<open>After a call the task goes on in user mode with the given registers, or another task runs.\<close>

datatype syscall_result =
    Back isr_regs "user_write list"
  | Elsewhere

definition returned :: "isr_regs \<Rightarrow> outcome \<times> 'a initrd_state_scheme \<Rightarrow> (syscall_result \<times> 'a initrd_state_scheme) res" where
  "returned regs r =
     (case r of
        (Away, s) \<Rightarrow> Inr (Elsewhere, s)
      | (Return v w, s) \<Rightarrow>
          res_bind (kernel_heap_check s) (\<lambda>_. Inr (Back (regs\<lparr>r_eax := v\<rparr>) w, s)))"

definition with_value :: "u32 \<times> 'a initrd_state_scheme \<Rightarrow> outcome \<times> 'a initrd_state_scheme" where
  "with_value r = (Return (fst r) [], snd r)"

definition switched :: "'a initrd_state_scheme res \<Rightarrow> (syscall_result \<times> 'a initrd_state_scheme) res" where
  "switched r = res_bind r (\<lambda>s. Inr (Elsewhere, s))"

text \<open>
  The call of the registered function: \<open>kregs\<close> are the registers of the kernel code at the point where
  it blocks, \<open>msg\<close> and \<open>filename\<close> what the arguments of the call point to.
\<close>

fun call_handler ::
    "isr_regs \<Rightarrow> isr_regs \<Rightarrow> message \<Rightarrow> u8 list \<Rightarrow> syscall_fn \<Rightarrow> 'a initrd_state_scheme
      \<Rightarrow> (syscall_result \<times> 'a initrd_state_scheme) res" where
  "call_handler kregs regs msg filename Fn_Exit s = switched (syscall_exit_handler s)"
| "call_handler kregs regs msg filename Fn_Yield s = switched (syscall_yield_handler s)"
| "call_handler kregs regs msg filename Fn_Block s = switched (syscall_block_handler s)"
| "call_handler kregs regs msg filename Fn_Sleep s = switched (syscall_sleep_handler kregs regs s)"
| "call_handler kregs regs msg filename Fn_Portopen s = res_bind (syscall_portopen_handler regs s) (returned regs)"
| "call_handler kregs regs msg filename Fn_Msgsend s = res_bind (syscall_msgsend_handler kregs regs msg s) (returned regs)"
| "call_handler kregs regs msg filename Fn_Msgrecv s = res_bind (syscall_msgrecv_handler kregs regs s) (returned regs)"
| "call_handler kregs regs msg filename Fn_Msgwait s = res_bind (syscall_msgwait_handler kregs regs s) (returned regs)"
| "call_handler kregs regs msg filename Fn_Msgpeek s = res_bind (syscall_msgpeek_handler regs s) (returned regs)"
| "call_handler kregs regs msg filename Fn_Fork s = res_bind (syscall_fork_handler regs s) (\<lambda>r. returned regs (with_value r))"
| "call_handler kregs regs msg filename Fn_Mmap s = res_bind (syscall_mmap_handler regs s) (\<lambda>r. returned regs (with_value r))"
| "call_handler kregs regs msg filename Fn_Hwportopen s =
     res_bind (syscall_hwportopen_handler regs s) (\<lambda>r. returned regs (with_value r))"
| "call_handler kregs regs msg filename Fn_Exec s =
     res_bind (syscall_exec_handler regs filename s) (\<lambda>(regs, v, s). returned regs (Return v [], s))"

definition syscall_handler ::
    "isr_regs \<Rightarrow> isr_regs \<Rightarrow> message \<Rightarrow> u8 list \<Rightarrow> 'a initrd_state_scheme
      \<Rightarrow> (syscall_result \<times> 'a initrd_state_scheme) res" where
  "syscall_handler kregs regs msg filename s =
     assert_then (\<not> interrupts_enabled s) (
     let syscall_num = unat (r_eax regs);
         handler = (if syscall_num < length (syscall_handlers s) then syscall_handlers s ! syscall_num else None)
     in case handler of
          None \<Rightarrow> Inl Panic
        | Some f \<Rightarrow> res_bind (enter_syscall regs s) (call_handler kregs regs msg filename f))"

text \<open>
  A task that blocked inside of a call goes on from there when it is switched to; \<open>regs\<close> are the
  registers its call was made with, which are on its kernel stack.
\<close>

definition resume_syscall :: "isr_regs \<Rightarrow> isr_regs \<Rightarrow> 'a initrd_state_scheme \<Rightarrow> (syscall_result \<times> 'a initrd_state_scheme) res" where
  "resume_syscall kregs regs s = res_bind (resume kregs s) (returned regs)"

end
