(* ===== verification/SchedRun.thy ===== *)
theory SchedRun
  imports SchedInv
begin

text \<open>
  The properties of the scheduler: a dispatch succeeds and picks the right task, the checks of
  \<open>scheduler_perform_checks\<close> never fire, waking is complete, \<open>fork\<close> makes a task that returns
  zero, and two defects, the finite sleep that never ends and the reboot with tasks asleep.
  A small machine with three tasks in a seven-page heap serves as the concrete instance.
\<close>

section \<open>A dispatch succeeds\<close>

lemma other_dir_cong:
  "vmm_state.truncate t = vmm_state.truncate s \<Longrightarrow> other_dir pd F t = other_dir pd F s"
  by (simp add: vmm_state.truncate_def other_dir_def vmm_wf_def pmm_wf_def dirent_def [abs_def] pagemap_def tabent_def
      free_frames_def)

lemma own_dir_cong: "vmm_state.truncate t = vmm_state.truncate s \<Longrightarrow> own_dir pd t = own_dir pd s"
  by (simp add: vmm_state.truncate_def own_dir_def vmm_wf_def pmm_wf_def dirent_def [abs_def] pagemap_def tabent_def
      free_frames_def)

text \<open>
  A task that can be switched to: the page of its page directory is mapped writable, to the
  frame of the current directory or to a frame that is no table of the current directory, the last entry of
  the directory points back to it, and the I/O bitmap of the task fits the task state segment.
\<close>

definition switchable :: "ptr \<Rightarrow> 'a sched_state_scheme \<Rightarrow> bool" where
  "switchable t s \<longleftrightarrow> (own_dir (dir_of s t) s \<and> self_entry (cr3 s) s \<or> (\<exists>F. other_dir (dir_of s t) F s \<and> self_entry F s))
     \<and> length (iomap (tasks s t)) \<le> length (tss_iomap (tss s))"

lemma tss_set_kernel_stack_run: "tss_set_kernel_stack e s = Inr ((), s\<lparr>tss := (tss s)\<lparr>tss_esp0 := e\<rparr>\<rparr>)"
  using critical_run [of "\<lambda>s. Inr ((), s\<lparr>tss := (tss s)\<lparr>tss_esp0 := e\<rparr>\<rparr>)" s "()" "(cli s)\<lparr>tss := (tss s)\<lparr>tss_esp0 := e\<rparr>\<rparr>"]
  by (simp add: tss_set_kernel_stack_def cli_def)

lemma task_switch_total:
  assumes "sched_wf s R S E {t, idle_task s}" "\<not> interrupts_enabled s" "next_pid_value s \<le> 32" "switchable t s"
  shows "\<exists>s'. task_switch t s = Inr s'"
proof -
  let ?s = "s\<lparr>current_task := t\<rparr>"
  have t: "t \<noteq> NULL" using assms(1) by (auto simp: sched_wf_def queues_def linkable_def)
  have c: "scheduler_perform_checks ?s = Inr ()"
    by (rule checks_pass [of ?s R S E "{t, idle_task s}"]) (use assms(1,3) in simp_all)
  have "\<exists>p. vmm_copy_kernel_mappings (dir_of s t) ?s = Inr ((), ?s\<lparr>phys := p\<rparr>)"
  proof (cases "own_dir (dir_of s t) s \<and> self_entry (cr3 s) s")
    case True
    then have "own_dir (dir_of s t) ?s" "self_entry (cr3 ?s) ?s"
      using own_dir_cong [of ?s s] by (simp_all add: self_entry_def vmm_state.truncate_def)
    from copy_own_mappings [OF this] show ?thesis by (intro exI [of _ "phys s"]) simp
  next
    case False
    then obtain F where F: "other_dir (dir_of s t) F s" "self_entry F s" using assms(4) by (auto simp: switchable_def)
    have "other_dir (dir_of s t) F ?s" "self_entry F ?s"
      using F other_dir_cong [of ?s s] by (simp_all add: self_entry_def vmm_state.truncate_def)
    then show ?thesis by (rule copy_kernel_mappings_succeeds) blast
  qed
  then obtain p where "vmm_copy_kernel_mappings (pagedir (tasks s t)) ?s = Inr ((), ?s\<lparr>phys := p\<rparr>)" by (auto simp: dir_of_def)
  then show ?thesis
    using t c assms(2,4) by (simp add: tss_set_kernel_stack_run task_switch_def Let_def interrupts_enabled_def gdt_iomap_set_def switchable_def)
qed

lemma switchable_cong:
  assumes "vmm_state.truncate u = vmm_state.truncate s" "tasks u t = tasks s t" "tss u = tss s"
  shows "switchable t u = switchable t s"
proof -
  have "phys u = phys s" "cr3 u = cr3 s" using assms(1) by (simp_all add: vmm_state.truncate_def)
  then show ?thesis
    using other_dir_cong [OF assms(1)] own_dir_cong [OF assms(1)] assms(2,3) by (simp add: switchable_def dir_of_def self_entry_def)
qed

lemma switchable_queue [simp]:
  "switchable t (remove_ready x s) = switchable t s" "switchable t (remove_sleeping x s) = switchable t s"
  "switchable t (append_ready x s) = switchable t s" "switchable t (append_sleeping x s) = switchable t s"
  "switchable t (append_exited x s) = switchable t s"
  by (rule switchable_cong; simp add: remove_ready_def remove_sleeping_def append_ready_def append_sleeping_def
      append_exited_def vmm_state.truncate_def split: prod.splits)+

lemma queue_op_simps [simp]:
  "next_pid_value (remove_ready x s) = next_pid_value s" "next_pid_value (remove_sleeping x s) = next_pid_value s"
  "next_pid_value (append_ready x s) = next_pid_value s" "next_pid_value (append_sleeping x s) = next_pid_value s"
  "next_pid_value (append_exited x s) = next_pid_value s"
  "interrupts_enabled (remove_ready x s) = interrupts_enabled s" "interrupts_enabled (remove_sleeping x s) = interrupts_enabled s"
  "interrupts_enabled (append_ready x s) = interrupts_enabled s" "interrupts_enabled (append_sleeping x s) = interrupts_enabled s"
  "interrupts_enabled (append_exited x s) = interrupts_enabled s"
  by (simp_all add: remove_ready_def remove_sleeping_def append_ready_def append_sleeping_def append_exited_def
      interrupts_enabled_def split: prod.splits)

lemma task_switch_next_total:
  assumes "sched_wf s R S E {idle_task s}" "\<not> interrupts_enabled s" "next_pid_value s \<le> 32"
    "next_task s R S = (t, R', S')" "switchable t s"
  shows "\<exists>s'. task_switch_next s = Inr s'"
proof -
  have d: "dll (task_links s) (ready_queue s) R" "dll (task_links s) (sleeping_queue s) S"
    using assms(1) by (auto simp: sched_wf_def queues_def)
  let ?P = "\<lambda>t. deadline_passed (timer_timestamp s) (tasks s t)"
  show ?thesis
  proof (cases "find ?P S")
    case (Some x)
    then have x: "x \<in> set S" "x \<noteq> NULL" "x = t"
      using find_in_set d(2) assms(4) by (fastforce simp: dll_def next_task_def)+
    obtain s' where "task_switch x (remove_sleeping x s) = Inr s'"
      using task_switch_total [of "remove_sleeping x s" R "remove1 x S" E x] sched_wf_remove(2) [OF assms(1) x(1)] assms x(3) by auto
    then show ?thesis using Some x by (simp add: task_switch_next_def list_find_eq [OF d(2)])
  next
    case None
    show ?thesis
    proof (cases R)
      case Nil
      then have "t = idle_task s" using assms(4) None by (simp add: next_task_def)
      then show ?thesis
        using task_switch_total [of s R S E "idle_task s"] assms None Nil d(1)
        by (simp add: task_switch_next_def list_find_eq [OF d(2)] dll_def)
    next
      case (Cons x xs)
      then have x: "head (ready_queue s) = x" "x \<noteq> NULL" "x = t" using d(1) assms(4) None by (auto simp: dll_def next_task_def)
      obtain s' where "task_switch x (remove_ready x s) = Inr s'"
        using task_switch_total [of "remove_ready x s" xs S E x] sched_wf_remove(1) [OF assms(1), of x] assms x(3) Cons by auto
      then show ?thesis using None x by (simp add: task_switch_next_def list_find_eq [OF d(2)])
    qed
  qed
qed

section \<open>Blocking succeeds\<close>

definition regs_ok :: "isr_regs \<Rightarrow> bool" where
  "regs_ok regs \<longleftrightarrow> r_cs regs AND NOT 3 = KERNEL_CODE_SEG \<or> r_cs regs AND NOT 3 = USER_CODE_SEG"

lemma heap_check_passes:
  assumes "owns s P"
  shows "kernel_heap_check s = Inr ()"
proof -
  obtain L bs where "heap_inv s L bs" using assms by (auto simp: owns_def kheap_inv_def)
  then have wf: "heap_wf s bs" by (simp add: heap_inv_def)
  have "heap_head (kheap s) = first_or bs NULL" using wf by (cases bs) (auto simp: heap_wf_def)
  then show ?thesis
    using check_loop_eq [OF suffix_of_wf [OF wf]] by (simp add: kernel_heap_check_def heap_check_def)
qed

lemma save_task_state_total: "regs_ok regs \<Longrightarrow> \<exists>s'. save_task_state t regs s = Inr s'"
  by (auto simp: save_task_state_def regs_ok_def Let_def)

lemma enter_syscall_total:
  assumes "sched_inv s R S E" "\<not> interrupts_enabled s" "regs_ok regs"
  shows "\<exists>s'. enter_syscall regs s = Inr s'"
proof -
  obtain s' where s': "save_task_state (current_task s) regs s = Inr s'" using save_task_state_total [OF assms(3)] by blast
  then obtain f where f: "keeps_identity f" "s' = upd_task (current_task s) f s" using save_task_state_upd by metis
  obtain P where "owns s P" using assms(1) by (auto simp: sched_inv_def sched_wf_def tasks_ok_def)
  then have "kernel_heap_check s' = Inr ()" by (intro heap_check_passes [of s' P]) (simp add: f(2))
  then show ?thesis
    using s' assms(2) sched_inv_not_null(1) [OF assms(1)] by (simp add: enter_syscall_def save_current_task_state_def)
qed

lemma find_append: "find P (xs @ ys) = (case find P xs of None \<Rightarrow> find P ys | Some x \<Rightarrow> Some x)"
  by (induction xs) auto

text \<open>A task that blocks joins the end of the sleeping queue, unless its own deadline has passed at once.\<close>

lemma task_block_total:
  assumes "sched_inv s R S E" "current_task s \<noteq> idle_task s" "\<not> interrupts_enabled s" "next_pid_value s \<le> 32"
    "regs_ok kregs" "next_task s R S = (t, R', S')" "switchable t s"
    "timeout = SLEEP_INFINITE \<longrightarrow> timer_timestamp s < timer_timestamp s + ucast timeout"
  shows "\<exists>s'. task_block kregs k cr cs timeout s = Inr s' \<and> sched_inv s' R' (S' @ [current_task s]) E \<and> current_task s' = t
    \<and> idle_task s' = idle_task s \<and> kstacks s' = (kstacks s)(current_task s := k)
    \<and> sleep_deadline (tasks s' (current_task s)) = (if timeout \<noteq> SLEEP_INFINITE then 0 else timer_timestamp s + ucast timeout)
    \<and> (\<forall>x. x \<noteq> current_task s \<longrightarrow> tasks s' x = tasks s x) \<and> wait_cansend_port (tasks s' (current_task s)) = cs
    \<and> pid_of s' = pid_of s \<and> dir_of s' = dir_of s"
proof -
  let ?c = "current_task s" and ?d = "if timeout \<noteq> SLEEP_INFINITE then 0 else timer_timestamp s + ucast timeout"
  let ?g = "\<lambda>t. t\<lparr>wait_canrecv_port := cr, wait_cansend_port := cs, sleep_deadline := ?d\<rparr>"
  let ?s1 = "(upd_task ?c ?g s)\<lparr>kstacks := (kstacks s)(?c := k)\<rparr>"
  have g: "keeps_identity ?g" by (simp add: keeps_identity_def)
  have i1: "sched_inv ?s1 R S E" "\<not> interrupts_enabled ?s1"
    using assms(1,3) sched_inv_upd_task [OF g, of ?c s R S E] by (simp_all add: sched_inv_def interrupts_enabled_def)
  obtain s2 where s2: "enter_syscall kregs ?s1 = Inr s2" using enter_syscall_total [OF i1 assms(5)] by blast
  obtain f where f: "keeps_identity f" "s2 = upd_task ?c f ?s1" "\<And>k. sleep_deadline (f k) = sleep_deadline k"
      "\<And>k. wait_cansend_port (f k) = wait_cansend_port k"
    using enter_syscall_upd [OF s2] by auto
  have i2: "sched_inv s2 R S E" using i1(1) sched_inv_upd_task [OF f(1), of ?c ?s1 R S E] f(2) by simp
  have e: "current_task s2 = ?c" "idle_task s2 = idle_task s" "timer_timestamp s2 = timer_timestamp s" "next_pid_value s2 \<le> 32"
      "\<not> interrupts_enabled s2" "\<And>x. x \<noteq> ?c \<Longrightarrow> tasks s2 x = tasks s x"
    using assms(3,4) by (simp_all add: f(2) upd_task_def timer_timestamp_def interrupts_enabled_def)
  have c: "?c \<notin> set R \<union> set S" using assms(1) by (auto simp: sched_inv_def sched_wf_def queues_def)
  have dl: "sleep_deadline (tasks s2 ?c) = ?d" using f(3) by (simp add: f(2) upd_task_def)
  then have nd: "\<not> deadline_passed (timer_timestamp s) (tasks s2 ?c)" using assms(8) by (auto simp: deadline_passed_def)
  have eq: "find (\<lambda>t. deadline_passed (timer_timestamp s) (tasks s2 t)) S = find (\<lambda>t. deadline_passed (timer_timestamp s) (tasks s t)) S"
    by (rule find_cong) (simp, metis c e(6) Un_iff)
  have n: "next_task s2 R (S @ [?c]) = (t, R', S' @ [?c])"
    using assms(6) nd by (auto simp: next_task_def find_append eq e(2,3) remove1_append dest: find_in_set split: option.splits list.splits)
  have tc: "t \<noteq> ?c" using next_task_set(1) [OF assms(6)] c assms(2) by auto
  have sw: "switchable t s2"
  proof -
    have "vmm_state.truncate s2 = vmm_state.truncate s" "tss s2 = tss s"
      by (simp_all add: f(2) upd_task_def vmm_state.truncate_def)
    then show ?thesis using assms(7) switchable_cong [of s2 s t] e(6) [OF tc] by blast
  qed
  have w: "sched_wf (append_sleeping ?c s2) R (S @ [?c]) E {idle_task (append_sleeping ?c s2)}"
    using leave_current(2) [OF i2] e(1,2) assms(2) by simp
  obtain s' where "syscall_block_handler s2 = Inr s'"
    using task_switch_next_total [OF w, of t R' "S' @ [?c]"] e n sw by (auto simp: syscall_block_handler_def)
  note b = block_step [OF i2 _ this, unfolded e(1), OF _ n] this
  have r: "task_block kregs k cr cs timeout s = Inr s'"
    using s2 b(2) assms(3) by (simp add: task_block_def Let_def)
  have id: "pid_of s2 = pid_of s" "dir_of s2 = dir_of s" "wait_cansend_port (tasks s2 ?c) = cs" "kstacks s2 = (kstacks s)(?c := k)"
    using f(1,4) by (auto simp: f(2) upd_task_def pid_of_def dir_of_def keeps_identity_def)
  from b(1) assms(2) e(2) have b': "sched_inv s' R' (S' @ [?c]) E \<and> current_task s' = t \<and> idle_task s' = idle_task s \<and>
      tasks s' = tasks s2 \<and> kstacks s' = kstacks s2" by simp
  then show ?thesis using r id dl e(6) by (intro exI [of _ s']) (simp add: pid_of_def [abs_def] dir_of_def [abs_def])
qed

section \<open>A machine with three tasks\<close>

text \<open>
  The heap from \<open>0xC0200000\<close> holds the task structures \<open>task_a\<close>, \<open>task_b\<close> and \<open>task_i\<close> (the idle task)
  and their page directories, which are mapped from the frames \<open>0x205000\<close>, \<open>0x206000\<close> and \<open>0x207000\<close>.
\<close>

definition task_a :: ptr where "task_a = 0xC0200020"
definition task_b :: ptr where "task_b = 0xC0206010"
definition task_i :: ptr where "task_i = 0xC0206810"

definition sample_block :: "u32 \<Rightarrow> u32 \<Rightarrow> heap_block_header" where
  "sample_block sz n = \<lparr>hb_magic = MAGIC_ALLOCATED, hb_flags = BLOCK_ALLOCATED, hb_size = sz, hb_next = n\<rparr>"

definition sample_blocks :: "u32 list" where
  "sample_blocks = [0xC0200010, 0xC0200FF0, 0xC0202FF0, 0xC0204FF0, 0xC0206000, 0xC0206800]"

definition sample_task :: "int \<Rightarrow> ptr \<Rightarrow> u32 \<Rightarrow> task" where
  "sample_task p dir frame = \<lparr>pid = p, task_name = replicate 32 0, pagedir = dir,
     ctx = zero_context\<lparr>c_cr3 := frame, c_eflags := 0x202\<rparr>,
     iomap = replicate 8192 0xFF, wait_canrecv_port = -1, wait_cansend_port = -1, sleep_deadline = 0\<rparr>"

definition sample_phys :: "u32 \<Rightarrow> u32" where
  "sample_phys a =
     (if a = 0x205FFC then 0x205003 else if a = 0x205C00 then 0x3003 else if a = 0x206FFC then 0x206003
      else if a = 0x207FFC then 0x207003 else if a = 0x3804 then 0x205003 else if a = 0x380C then 0x206003
      else if a = 0x3814 then 0x207003 else 0)"

definition sample_sched :: sched_state where
  "sample_sched =
     \<lparr>eflags = 2, initialized = True, memregions = [sample_region], phys = sample_phys,
        cr3 = 0x205000, cr0 = 0x80010001, paging_enabled = True, current_pagedir_va = 0xC0201000,
        blocks = (\<lambda>_. sample_block 0 0)
          (0xC0200010 := sample_block 0xFE0 0xC0200FF0, 0xC0200FF0 := sample_block 0x2000 0xC0202FF0,
           0xC0202FF0 := sample_block 0x2000 0xC0204FF0, 0xC0204FF0 := sample_block 0x1010 0xC0206000,
           0xC0206000 := sample_block 0x800 0xC0206800, 0xC0206800 := sample_block 0x800 0),
        canaries = (\<lambda>_. CANARY),
        kheap = \<lparr>heap_head = 0xC0200010, heap_size = 0x7000, heap_max_size = 0x200000, heap_lock_word = 0\<rparr>,
        kheap_addr = 0xC0200000,
        trace_enabled = False, tmaps = tmaps sample_machine, tlinks = (\<lambda>_. detached), transient_maps = list_init,
        gdt_entries = gdt_entries sample_machine, tss = tss sample_machine,
        idt_entries = [], isr_handlers = replicate 256 NULL, irq_handlers = replicate 16 NULL, ports_out = [],
        warn_unhandled = 0, current_timestamp = 1000, ticks = 0, timers = replicate 10 (sample_timer 0 0),
        timer_count = 0, next_timer_id = 0,
        tasks = (\<lambda>_. sample_task 0 0 0)
          (task_a := sample_task 0 0xC0201000 0x205000, task_b := sample_task 2 0xC0203000 0x206000,
           task_i := sample_task 1 0xC0205000 0x207000),
        task_links = (\<lambda>_. detached), ready_queue = \<lparr>head = task_b, tail = task_b\<rparr>, sleeping_queue = list_init,
        exited_queue = list_init, next_pid_value = 3, current_task = task_a, idle_task = task_i,
        running = zero_context, kstacks = (\<lambda>_. K_None), syscall_handlers = replicate 32 None\<rparr>"

lemma sample_sched_simps [simp]:
  "current_task sample_sched = task_a" "idle_task sample_sched = task_i" "next_pid_value sample_sched = 3"
  "tasks sample_sched task_a = sample_task 0 0xC0201000 0x205000" "tasks sample_sched task_b = sample_task 2 0xC0203000 0x206000"
  "tasks sample_sched task_i = sample_task 1 0xC0205000 0x207000" "\<not> interrupts_enabled sample_sched"
  "timer_timestamp sample_sched = 1000"
  by (simp_all add: sample_sched_def task_a_def task_b_def task_i_def interrupts_enabled_def EFLAGS_IF_def timer_timestamp_def)

lemma sample_distinct: "distinct [task_a, task_b, task_i, NULL]"
  by (simp add: task_a_def task_b_def task_i_def)

lemma sample_blocks_at:
  "blocks sample_sched 0xC0200010 = sample_block 0xFE0 0xC0200FF0" "blocks sample_sched 0xC0200FF0 = sample_block 0x2000 0xC0202FF0"
  "blocks sample_sched 0xC0202FF0 = sample_block 0x2000 0xC0204FF0" "blocks sample_sched 0xC0204FF0 = sample_block 0x1010 0xC0206000"
  "blocks sample_sched 0xC0206000 = sample_block 0x800 0xC0206800" "blocks sample_sched 0xC0206800 = sample_block 0x800 0"
  "heap_head (kheap sample_sched) = 0xC0200010" "heap_size (kheap sample_sched) = 0x7000" "kheap_addr sample_sched = 0xC0200000"
  "canaries sample_sched a = CANARY"
  by (simp_all add: sample_sched_def)

lemma sample_block_good: "16 \<le> unat sz \<Longrightarrow> good_header (sample_block sz n)" "allocated (sample_block sz n)"
  "hb_next (sample_block sz n) = n" "hb_size (sample_block sz n) = sz"
  by (simp_all add: sample_block_def good_header_def valid_header_def allocated_def BLOCK_ALLOCATED_def)

lemma sample_heap_wf: "heap_wf sample_sched sample_blocks"
  by (simp add: heap_wf_def sample_blocks_at sample_block_good sample_blocks_def)

lemma sample_owns: "owns sample_sched {task_a, task_b, task_i, 0xC0201000, 0xC0203000, 0xC0205000}"
proof -
  have "live sample_sched sample_blocks = (\<lambda>b. (b, hb_size (blocks sample_sched b))) ` set sample_blocks"
    by (auto simp: live_def sample_blocks_at sample_blocks_def sample_block_good)
  then have "(\<lambda>b. b + HDR) ` fst ` live sample_sched sample_blocks = (\<lambda>b. b + HDR) ` set sample_blocks" by (simp add: image_image)
  also have "\<dots> = {task_a, task_b, task_i, 0xC0201000, 0xC0203000, 0xC0205000}"
    by (auto simp: sample_blocks_def HDR_def task_a_def task_b_def task_i_def)
  finally have "heap_inv sample_sched {task_a, task_b, task_i, 0xC0201000, 0xC0203000, 0xC0205000} sample_blocks"
    using sample_heap_wf by (simp add: heap_inv_def) (simp add: sample_sched_def)
  then show ?thesis
    using dll_init unfolding owns_def kheap_inv_def
    by (intro exI [of _ "{task_a, task_b, task_i, 0xC0201000, 0xC0203000, 0xC0205000}"] exI [of _ "[]"])
      (auto simp: sample_sched_def)
qed

lemma sample_inv: "sched_inv sample_sched [task_b] [] []"
proof -
  have T: "all_tasks [task_b] [] [] {task_a, task_i} = {task_a, task_b, task_i}" by (auto simp: all_tasks_def)
  have "tasks_ok sample_sched {task_a, task_b, task_i}"
    using sample_owns sample_distinct
    by (simp add: tasks_ok_def pid_of_def dir_of_def sample_task_def insert_commute) (simp add: task_a_def task_b_def task_i_def)
  moreover have "queues sample_sched [task_b] [] [] {task_a, task_i}"
    using sample_distinct dll_init by (auto simp: queues_def linkable_def dll_def detached_def list_init_def sample_sched_def)
  ultimately show ?thesis by (simp add: sched_inv_def sched_wf_def T)
qed

lemma sample_sched_dirent:
  assumes "unat i < 1024"
  shows "dirent sample_sched i = (if i = 1023 then 0x205003 else if i = 768 then 0x3003 else 0)"
proof -
  have e: "entry_addr 0x205000 i = entry_addr b j \<longleftrightarrow> i = j \<and> b AND 0xFFFFF000 = 0x205000" if "unat j < 1024" for b j
    using entry_addr_inj [of i j "0x205000" b] assms that by auto
  show ?thesis
    using e [of 1023 "0x205000"] e [of 768 "0x205000"] e [of 1023 "0x206000"] e [of 1023 "0x207000"]
      e [of 513 "0x3000"] e [of 515 "0x3000"] e [of 517 "0x3000"]
    by (simp add: dirent_def sample_sched_def sample_phys_def entry_addr_def)
qed

lemma sample_sched_vmm_wf: "vmm_wf sample_sched"
proof -
  have d: "dirent sample_sched 1023 = 0x205003" using sample_sched_dirent [of 1023] by simp
  have z: "dirent sample_sched i = (if i = 768 then 0x3003 else 0)" if "unat i < 1023" for i
    using sample_sched_dirent [of i] that by auto
  have "pmm_wf sample_sched" by (simp add: pmm_wf_def sample_sched_def sample_region_wf)
  moreover have "unat (0x205000 :: u32) \<notin> free_frames sample_sched" "unat (0x3000 :: u32) \<notin> free_frames sample_sched"
    by (auto simp: free_frames_def sample_sched_def region_free_def frame_at_def sample_region_def)
  moreover have "cr3 sample_sched = 0x205000" by (simp add: sample_sched_def)
  ultimately show ?thesis using d z by (simp add: vmm_wf_def small_entry_def)
qed

lemma sample_switchable: "switchable task_b sample_sched" "switchable task_i sample_sched"
proof -
  have z: "dirent sample_sched i AND 0xFFFFF000 \<noteq> F" if "unat i < 1023" "F = 0x206000 \<or> F = 0x207000" for i F
    using sample_sched_dirent [of i] that by auto
  have m: "pagemap_at sample_sched 0xC0203000 = Some 0x206003" "pagemap_at sample_sched 0xC0205000 = Some 0x207003"
    by (simp_all add: pagemap_def dirent_def tabent_def PAGE_DIRECTORY_INDEX_def PAGE_TABLE_INDEX_def entry_addr_def
        sample_sched_def sample_phys_def)
  have s: "self_entry 0x206000 sample_sched" "self_entry 0x207000 sample_sched"
    by (simp_all add: self_entry_def sample_sched_def sample_phys_def entry_addr_def PDE_FRAME_def PDE_PRESENT_def PDE_WRITABLE_def)
  have "other_dir 0xC0203000 0x206000 sample_sched" "other_dir 0xC0205000 0x207000 sample_sched"
    using sample_sched_vmm_wf z m by (simp_all add: other_dir_def mappable_def) (simp_all add: sample_sched_def)
  moreover have "8192 \<le> length (tss_iomap (tss sample_sched))"
    by (simp add: sample_sched_def sample_machine_def IOMAP_SIZE_def)
  ultimately show "switchable task_b sample_sched" "switchable task_i sample_sched"
    using s by (auto simp: switchable_def dir_of_def sample_task_def)
qed

section \<open>Properties\<close>

text \<open>
  C15: \<open>task_switch_next\<close> gives the processor to the first sleeping task whose deadline has passed, else to
  the head of the ready queue, else to the idle task: the switch succeeds, the chosen task leaves its queue, every other task keeps its
  place and the registers are those of its saved context. It is stated with interrupts off, for
  a process id counter of at most 32 (the assertion on process ids that the dispatcher makes
  fails from the 33rd task on) and a task whose page directory is mapped writable with its
  self-reference in place; the directory may be the current one.
\<close>

theorem task_switch_next_dispatches:
  assumes "sched_wf s R S E {idle_task s}" "\<not> interrupts_enabled s" "next_pid_value s \<le> 32"
    "next_task s R S = (t, R', S')" "switchable t s"
  shows "\<exists>s'. task_switch_next s = Inr s' \<and> sched_inv s' R' S' E \<and> current_task s' = t
    \<and> running s' = ctx (tasks s t) \<and> tasks s' = tasks s"
  using task_switch_next_total [OF assms] task_switch_next_step [OF _ assms(1,4)] by blast

theorem task_switch_next_dispatches_witness:
  "\<exists>s'. task_switch_next (append_sleeping task_a sample_sched) = Inr s' \<and> sched_inv s' [] [task_a] [] \<and> current_task s' = task_b
    \<and> running s' = ctx (sample_task 2 0xC0203000 0x206000) \<and> tasks s' = tasks sample_sched"
  using task_switch_next_dispatches [of "append_sleeping task_a sample_sched" "[task_b]" "[task_a]" "[]" task_b "[]" "[task_a]"]
    leave_current(2) [OF sample_inv] sample_distinct sample_switchable(1)
  by (auto simp: next_task_def deadline_passed_def sample_task_def)

text \<open>
  C17: the assertions of \<open>scheduler_perform_checks\<close> hold in every state of the scheduler as long as fewer
  than 32 tasks have been created: no task is in two queues, neither the running nor the idle
  task is in one, and no two tasks share a process identifier.
\<close>

theorem scheduler_checks_never_fail:
  assumes "sched_inv s R S E" "next_pid_value s \<le> 32"
  shows "scheduler_perform_checks s = Inr ()"
  using checks_pass [of s R S E "{current_task s, idle_task s}"] assms by (simp add: sched_inv_def)

theorem scheduler_checks_never_fail_witness: "scheduler_perform_checks sample_sched = Inr ()"
  using scheduler_checks_never_fail [OF sample_inv] by simp

text \<open>
  C28: a task that calls \<open>sleep\<close> with a finite timeout is put to sleep with deadline 0, so that no value
  of the clock ever makes it runnable again.
\<close>

theorem finite_sleep_never_ends:
  assumes "sched_inv s R S E" "current_task s \<noteq> idle_task s" "\<not> interrupts_enabled s" "next_pid_value s \<le> 32"
    "regs_ok kregs" "r_ebx regs \<noteq> SLEEP_INFINITE" "next_task s R S = (t, R', S')" "switchable t s"
  shows "\<exists>s'. syscall_sleep_handler kregs regs s = Inr s' \<and> sched_inv s' R' (S' @ [current_task s]) E
    \<and> (\<forall>now. \<not> deadline_passed now (tasks s' (current_task s)))"
  using task_block_total [OF assms(1-5,7,8), of "r_ebx regs" K_Sleep INVALID_PORT INVALID_PORT] assms(6)
  by (auto simp: syscall_sleep_handler_def deadline_passed_def)

theorem finite_sleep_never_ends_witness:
  "\<exists>s'. syscall_sleep_handler sample_regs (sample_regs\<lparr>r_ebx := 100\<rparr>) sample_sched = Inr s' \<and> sched_inv s' [] [task_a] []
    \<and> (\<forall>now. \<not> deadline_passed now (tasks s' task_a))"
  using finite_sleep_never_ends [OF sample_inv, of sample_regs "sample_regs\<lparr>r_ebx := 100\<rparr>" task_b "[]" "[]"]
    sample_distinct sample_switchable(1)
  by (simp add: next_task_def regs_ok_def sample_regs_def USER_CODE_SEG_def SLEEP_INFINITE_def)

text \<open>
  C30: a scheduler tick while the idle task runs and no task is ready reboots the machine, also when
  tasks are asleep with a deadline still to come.
\<close>

theorem scheduler_timer_reboots_sleepers:
  assumes "sched_inv s [] S []" "current_task s = idle_task s" "next_pid_value s \<le> 32" "regs_ok regs"
  shows "scheduler_timer regs s = Inl Reboot"
proof -
  obtain s1 where s1: "save_task_state (current_task s) regs s = Inr s1" using save_task_state_total [OF assms(4)] by blast
  obtain f where f: "keeps_identity f" "s1 = upd_task (current_task s) f s" using save_task_state_upd [OF s1] by metis
  have i: "sched_inv s1 [] S []" using assms(1) sched_inv_upd_task [OF f(1)] f(2) by blast
  then have d: "dll (task_links s1) (ready_queue s1) []" "dll (task_links s1) (sleeping_queue s1) S"
      "dll (task_links s1) (exited_queue s1) []"
    by (auto simp: sched_inv_def sched_wf_def queues_def)
  have "list_foreach task_links (exited_queue s1) collect_task s1 = Inr s1"
    using list_foreach_fold [of task_links s1 "exited_queue s1" "[]" collect_task] d(3) by simp
  moreover have "scheduler_perform_checks s1 = Inr ()"
    using checks_pass [of s1 "[]" S "[]" "{current_task s1, idle_task s1}"] i assms(3) by (simp add: sched_inv_def f(2))
  ultimately show ?thesis
    using s1 sched_inv_not_null(1) [OF assms(1)] d assms(2)
    by (simp add: scheduler_timer_def f(2) [symmetric] Let_def dll_list_empty foreach_const [OF d(2)] may_wakeup_false)
      (simp add: f(2))
qed

definition sample_idle :: sched_state where
  "sample_idle = append_sleeping task_b (append_sleeping task_a
     (upd_task task_a (\<lambda>k. k\<lparr>sleep_deadline := 5000\<rparr>)
     (upd_task task_b (\<lambda>k. k\<lparr>wait_cansend_port := 7\<rparr>)
       (sample_sched\<lparr>ready_queue := list_init, current_task := task_i\<rparr>))))"

lemma sample_idle_inv: "sched_inv sample_idle [] [task_a, task_b] []"
proof -
  let ?s = "sample_sched\<lparr>ready_queue := list_init, current_task := task_i\<rparr>"
  have k: "keeps_identity (\<lambda>k. k\<lparr>sleep_deadline := 5000\<rparr>)" "keeps_identity (\<lambda>k. k\<lparr>wait_cansend_port := 7\<rparr>)"
    by (simp_all add: keeps_identity_def)
  have T: "all_tasks [] [] [] {task_a, task_b, task_i} = all_tasks [task_b] [] [] {task_a, task_i}" by (auto simp: all_tasks_def)
  have ok: "tasks_ok ?s (all_tasks [] [] [] {task_a, task_b, task_i})"
    using sample_inv unfolding T
    by (simp add: sched_inv_def sched_wf_def tasks_ok_def pid_of_def [abs_def] dir_of_def [abs_def])
  have q: "queues ?s [] [] [] {task_a, task_b, task_i}"
    using sample_distinct dll_init by (auto simp: queues_def linkable_def sample_sched_def)
  have "sched_wf ?s [] [] [] {task_a, task_b, task_i}" using ok q by (simp add: sched_wf_def)
  then have "sched_wf (upd_task task_a (\<lambda>k. k\<lparr>sleep_deadline := 5000\<rparr>) (upd_task task_b (\<lambda>k. k\<lparr>wait_cansend_port := 7\<rparr>) ?s))
      [] [] [] {task_a, task_b, task_i}"
    using sched_wf_upd_task [OF k(1)] sched_wf_upd_task [OF k(2)] by blast
  from sched_wf_append(2) [OF sched_wf_append(2) [OF this, of task_a], of task_b]
  have "sched_wf sample_idle [] [task_a, task_b] [] ({task_a, task_b, task_i} - {task_a} - {task_b})"
    using sample_distinct by (auto simp: sample_idle_def)
  moreover have "{task_a, task_b, task_i} - {task_a} - {task_b} = {current_task sample_idle, idle_task sample_idle}"
    using sample_distinct by (auto simp: sample_idle_def)
  ultimately show ?thesis by (simp add: sched_inv_def)
qed

lemma sample_idle_simps [simp]:
  "current_task sample_idle = task_i" "idle_task sample_idle = task_i" "next_pid_value sample_idle = 3" "\<not> interrupts_enabled sample_idle"
  "sleep_deadline (tasks sample_idle task_a) = 5000" "wait_cansend_port (tasks sample_idle task_a) = -1"
  "wait_cansend_port (tasks sample_idle task_b) = 7"
  using sample_distinct sample_sched_simps(7)
  by (auto simp: sample_idle_def) (auto simp: interrupts_enabled_def upd_task_def sample_task_def sample_sched_def EFLAGS_IF_def)

theorem scheduler_timer_reboots_sleepers_witness:
  "scheduler_timer sample_regs sample_idle = Inl Reboot \<and> sleep_deadline (tasks sample_idle task_a) = 5000"
  using scheduler_timer_reboots_sleepers [OF sample_idle_inv] by (simp add: regs_ok_def sample_regs_def USER_CODE_SEG_def)

text \<open>
  C19: \<open>wake_tasks_waiting_for_port\<close> ends without a fault and moves exactly the tasks that wait to send on the
  port to the end of the ready queue, in the order in which they fell asleep.
\<close>

theorem wake_tasks_complete:
  assumes "sched_inv s R S E" "\<not> interrupts_enabled s"
  shows "\<exists>s'. wake_tasks_waiting_for_port port s = Inr s'
    \<and> sched_inv s' (R @ filter (\<lambda>t. wait_cansend_port (tasks s t) = port) S) (filter (\<lambda>t. wait_cansend_port (tasks s t) \<noteq> port) S) E
    \<and> tasks s' = tasks s \<and> current_task s' = current_task s"
  using wake_tasks_step [OF assms, of port] by (auto simp: wake_part_def)

theorem wake_tasks_complete_witness:
  "\<exists>s'. wake_tasks_waiting_for_port 7 sample_idle = Inr s' \<and> sched_inv s' [task_b] [task_a] []
    \<and> tasks s' = tasks sample_idle \<and> current_task s' = current_task sample_idle"
  using wake_tasks_complete [OF sample_idle_inv, of 7] by simp

text \<open>
  One turn of the processor: the running task yields or is interrupted by the scheduler tick. Either
  way the kernel is entered with interrupts disabled.
\<close>

inductive turn :: "'a sched_state_scheme \<Rightarrow> 'a sched_state_scheme \<Rightarrow> bool" where
  yield: "\<lbrakk>current_task s \<noteq> idle_task s; enter_syscall regs (cli s) = Inr u; syscall_yield_handler u = Inr s'\<rbrakk> \<Longrightarrow> turn s s'"
| tick: "\<lbrakk>current_task s \<noteq> idle_task s; scheduler_timer regs (cli s) = Inr s'\<rbrakk> \<Longrightarrow> turn s s'"

inductive turns :: "nat \<Rightarrow> 'a sched_state_scheme \<Rightarrow> 'a sched_state_scheme \<Rightarrow> bool" where
  zero: "turns 0 s s"
| more: "\<lbrakk>turn s u; turns n u s'\<rbrakk> \<Longrightarrow> turns (Suc n) s s'"

inductive_cases turns_0E: "turns 0 s s'"
inductive_cases turns_SucE: "turns (Suc n) s s'"

lemma sched_inv_cli [simp]: "sched_inv (cli s) R S E = sched_inv s R S E"
  by (simp add: cli_def sched_inv_def sched_wf_def queues_def tasks_ok_def dir_of_def [abs_def] pid_of_def [abs_def])

lemma cli_sched [simp]: "current_task (cli s) = current_task s" "idle_task (cli s) = idle_task s" "tasks (cli s) = tasks s"
  "timer_timestamp (cli s) = timer_timestamp s"
  by (simp_all add: cli_def timer_timestamp_def)

lemma next_task_no_deadline:
  "\<forall>t\<in>set S. sleep_deadline (tasks s t) = 0 \<Longrightarrow> next_task s (t # R) S = (t, R, S)"
  using find_none [of S "\<lambda>t. deadline_passed (timer_timestamp s) (tasks s t)"]
  by (simp add: next_task_def deadline_passed_def)

lemma turn_step:
  assumes "turn s s'" "sched_inv s (t # R) S E" "\<forall>t\<in>set S. sleep_deadline (tasks s t) = 0"
  shows "\<exists>E'. sched_inv s' (R @ [current_task s]) S E' \<and> current_task s' = t \<and> idle_task s' = idle_task s
    \<and> (\<forall>x. sleep_deadline (tasks s' x) = sleep_deadline (tasks s x))"
  using assms(1)
proof cases
  case (yield regs u)
  obtain f where f: "keeps_identity f" "u = upd_task (current_task s) f (cli s)" "\<And>k. sleep_deadline (f k) = sleep_deadline k"
    using enter_syscall_upd [OF yield(2)] by auto
  have i: "sched_inv u (t # R) S E"
    unfolding f(2) by (subst sched_inv_upd_task [OF f(1)]) (use assms(2) in simp)
  have n: "next_task u ((t # R) @ [current_task u]) S = (t, R @ [current_task s], S)"
    using next_task_no_deadline [of S u t "R @ [current_task s]"] assms(3) f(2,3) by (simp add: upd_task_def)
  have "current_task u \<noteq> idle_task u" using yield(1) by (simp add: f(2))
  from yield_step [OF i this yield(3) n] show ?thesis using f(2,3) by (auto simp: upd_task_def)
next
  case (tick regs)
  have n: "next_task (cli s) (requeued (cli s) (t # R)) S = (t, R @ [current_task s], S)"
    using next_task_no_deadline [of S "cli s" t "R @ [current_task s]"] assms(3) tick(1) by (simp add: requeued_def)
  have i: "sched_inv (cli s) (t # R) S E" using assms(2) by simp
  from scheduler_timer_step [OF i tick(2) n] show ?thesis by (intro exI [of _ "[]"]) simp
qed

text \<open>
  C13: the ready queue is served round robin: while no sleeping task has a deadline, a task at position
  \<open>k\<close> of the queue runs after exactly \<open>k\<close> turns, whoever takes them and whether they end by a yield or
  by a tick.
\<close>

theorem ready_task_gets_its_turn:
  assumes "turns k s s'" "sched_inv s R S E" "\<forall>t\<in>set S. sleep_deadline (tasks s t) = 0" "k \<le> length R"
  shows "current_task s' = (current_task s # R) ! k
    \<and> (\<exists>E'. sched_inv s' (drop k R @ take k (current_task s # R)) S E')"
  using assms
proof (induction k arbitrary: s R E)
  case 0
  then show ?case by (auto elim: turns_0E)
next
  case (Suc k)
  obtain u where u: "turn s u" "turns k u s'" using Suc.prems(1) by (rule turns_SucE)
  obtain t R1 where R: "R = t # R1" using Suc.prems(4) by (cases R) auto
  obtain E1 where e: "sched_inv u (R1 @ [current_task s]) S E1" "current_task u = t"
      "\<forall>x. sleep_deadline (tasks u x) = sleep_deadline (tasks s x)"
    using turn_step [OF u(1) Suc.prems(2) [unfolded R] Suc.prems(3)] by blast
  have "current_task s' = (t # R1 @ [current_task s]) ! k
      \<and> (\<exists>E'. sched_inv s' (drop k (R1 @ [current_task s]) @ take k (t # R1 @ [current_task s])) S E')"
    using Suc.IH [OF u(2) e(1)] e(2,3) Suc.prems(3,4) R by simp
  then show ?case using Suc.prems(4) by (cases k) (auto simp: R nth_append nth_Cons')
qed

theorem ready_task_gets_its_turn_witness:
  "\<exists>s'. turns 1 sample_sched s' \<and> current_task s' = task_b \<and> (\<exists>E'. sched_inv s' [task_a] [] E')"
proof -
  have r: "regs_ok sample_regs" by (simp add: regs_ok_def sample_regs_def USER_CODE_SEG_def)
  have i: "sched_inv (cli sample_sched) [task_b] [] []" "\<not> interrupts_enabled (cli sample_sched)"
    using sample_inv by (simp, simp add: interrupts_enabled_def cli_def sample_sched_def EFLAGS_IF_def)
  obtain u where u: "enter_syscall sample_regs (cli sample_sched) = Inr u" using enter_syscall_total [OF i r] by blast
  obtain f where f: "keeps_identity f" "u = upd_task task_a f (cli sample_sched)"
      "\<And>k. sleep_deadline (f k) = sleep_deadline k" using enter_syscall_upd [OF u] by auto
  have iu: "sched_inv u [task_b] [] []" using i(1) sched_inv_upd_task [OF f(1)] f(2) by blast
  have c: "current_task u = task_a" "idle_task u = task_i" "next_pid_value u \<le> 32" "\<not> interrupts_enabled u" "tasks u task_b = tasks sample_sched task_b"
    using i(2) sample_distinct sample_sched_simps(3) by (auto simp: f(2)) (auto simp: upd_task_def cli_def)
  have "vmm_state.truncate u = (vmm_state.truncate sample_sched)\<lparr>eflags := eflags (cli sample_sched)\<rparr>" "tss u = tss sample_sched"
    by (simp_all add: f(2) upd_task_def vmm_state.truncate_def cli_def)
  moreover have "eflags (cli sample_sched) = eflags sample_sched" by (simp add: cli_def sample_sched_def EFLAGS_IF_def)
  ultimately have sw: "switchable task_b u"
    using sample_switchable(1) switchable_cong [of u sample_sched task_b] c(5) by (simp add: vmm_state.truncate_def)
  have n: "next_task u [task_b, task_a] [] = (task_b, [task_a], [])" by (simp add: next_task_def)
  obtain s' where "syscall_yield_handler u = Inr s'"
    using task_switch_next_total [of "append_ready task_a u" "[task_b, task_a]" "[]" "[]" task_b "[task_a]" "[]"]
      leave_current(1) [OF iu] c n sw sample_distinct by (auto simp: syscall_yield_handler_def)
  then have t: "turns 1 sample_sched s'"
    using turns.more [OF turn.yield [OF _ u] turns.zero] sample_distinct by simp
  from ready_task_gets_its_turn [OF t sample_inv] t show ?thesis by auto
qed

end
