(* ===== verification/KernelRun.thy ===== *)
theory KernelRun
  imports Syscall SchedRun
begin

text \<open>
  The kernel as a whole: every entry into it, by a system call, by the tick or by going on after a
  wait, keeps the invariant of scheduler, ports and heap, from the start of the scheduler on.
\<close>

section \<open>Entries that change a task structure or memory only\<close>

lemma kernel_inv_upd_task:
  assumes "keeps_identity f" "kernel_inv s R S E PL Q"
  shows "kernel_inv (upd_task t f s) R S E PL Q"
proof (rule kernel_inv_sched [OF assms(2)])
  show "sched_inv (upd_task t f s) R S E" using assms(2) sched_inv_upd_task [OF assms(1), of t s R S E] by (simp add: kernel_inv_def)
  show "sched_blocks (upd_task t f s) R S E = sched_blocks s R S E"
    by (rule sched_blocks_eq) (simp_all add: upd_task_of [OF assms(1)])
qed (use assms(2) in \<open>simp_all add: kernel_inv_def\<close>)

lemma in_call_upd_task: "keeps_identity f \<Longrightarrow> in_call s R S E PL Q \<Longrightarrow> in_call (upd_task t f s) R S E PL Q"
  using kernel_inv_upd_task by (auto simp: in_call_def conts_ok_def)

lemma in_call_enter: "enter_syscall regs s = Inr s' \<Longrightarrow> in_call s R S E PL Q \<Longrightarrow> in_call s' R S E PL Q"
  by (elim enter_syscall_upd) (simp add: in_call_upd_task)

lemma kernel_inv_same:
  assumes "kernel_inv s R S E PL Q" "same_sched s t" "keeps s t"
  shows "kernel_inv t R S E PL Q"
proof -
  have p: "sched_part t = sched_part s" using assms(2) by (simp add: same_sched_def)
  note f = sched_partD [OF p]
  have d: "dir_of t = dir_of s" using f(1) by (simp add: dir_of_def [abs_def])
  have "sched_inv t R S E" using assms(1) same_sched_wf [OF assms(2)] by (simp add: kernel_inv_def sched_inv_def f)
  moreover have "sched_blocks t R S E = sched_blocks s R S E" by (rule sched_blocks_eq) (simp_all add: f d)
  ultimately show ?thesis using kernel_inv_sched [OF assms(1,3)] assms(1) f by (simp add: kernel_inv_def)
qed

lemma in_call_same:
  assumes "in_call s R S E PL Q" "same_sched s t" "keeps s t"
  shows "in_call t R S E PL Q"
proof -
  have "sched_part t = sched_part s" using assms(2) by (simp add: same_sched_def)
  then show ?thesis using kernel_inv_same [OF _ assms(2,3)] assms(1) sched_partD [of t s] by (auto simp: in_call_def conts_ok_def)
qed

lemma in_call_vouter: "vouter t = vouter s \<Longrightarrow> in_call s R S E PL Q \<Longrightarrow> in_call t R S E PL Q"
  by (rule in_call_same) (auto intro: vouter_same_sched vouter_keeps)

lemma in_call_ok: "in_call s R S E PL Q \<Longrightarrow> kernel_ok s"
  using in_callD(1,2) kernel_okI by blast

section \<open>Switches\<close>

lemma switch_ok:
  assumes c: "in_call s R S E PL Q" and k: "keeps s s'" "sched_inv s' R' S' E'" "dir_of s' = dir_of s" "kstacks s' = kstacks s"
    "next_pid_value s' = next_pid_value s"
    and a: "all_tasks R' S' E' {current_task s', idle_task s'} = all_tasks R S E {current_task s, idle_task s}"
  shows "kernel_ok s'"
proof -
  have "kernel_inv s' R' S' E' PL Q"
    by (rule kernel_inv_sched [OF in_callD(1) [OF c] k(1,2)])
      (use in_callD(1) [OF c] k(5) sched_blocks_eq [OF a k(3)] in \<open>simp_all add: kernel_inv_def\<close>)
  then show ?thesis using conts_ok_same [OF in_callD(2) [OF c] k(4)] by (rule kernel_okI)
qed

lemma dispatched_ok:
  assumes c: "in_call s R S E PL Q" and k: "keeps s s'" "next_pid_value s' = next_pid_value s"
    and n: "next_task s R1 S1 = (t, R', S')" "set R1 \<union> set S1 \<union> set E1 = insert (current_task s) (set R \<union> set S \<union> set E)"
    and st: "sched_inv s' R' S' E1 \<and> current_task s' = t \<and> idle_task s' = idle_task s \<and> tasks s' = tasks s
      \<and> kstacks s' = kstacks s \<and> running s' = ctx (tasks s t)"
  shows "kernel_ok s'"
proof (rule switch_ok [OF c k(1), of R' S' E1])
  have "all_tasks R' S' E1 {t, idle_task s} = all_tasks R S E {current_task s, idle_task s}"
    unfolding all_tasks_pair using next_task_set(1) [OF n(1)] n(2) by (auto simp: set_eq_iff)
  then show "all_tasks R' S' E1 {current_task s', idle_task s'} = all_tasks R S E {current_task s, idle_task s}" using st by simp
qed (use st k in \<open>simp_all add: dir_of_def [abs_def]\<close>)

lemma kernel_leave:
  assumes c: "in_call s R S E PL Q"
  shows "syscall_yield_handler s = Inr s' \<Longrightarrow> kernel_ok s'"
    "syscall_exit_handler s = Inr s' \<Longrightarrow> kernel_ok s'"
    "syscall_block_handler s = Inr s' \<Longrightarrow> kernel_ok s'"
proof -
  note i = in_callD(5,3) [OF c]
  assume a: "syscall_yield_handler s = Inr s'"
  obtain t R' S' where n: "next_task s (R @ [current_task s]) S = (t, R', S')" by (metis prod_cases3)
  show "kernel_ok s'"
    by (rule dispatched_ok [OF c keeps_handlers(1) [OF a] handlers_next_pid(1) [OF a] n _ yield_step [OF i a n]]) auto
next
  note i = in_callD(5,3) [OF c]
  assume a: "syscall_exit_handler s = Inr s'"
  obtain t R' S' where n: "next_task s R S = (t, R', S')" by (metis prod_cases3)
  show "kernel_ok s'"
    by (rule dispatched_ok [OF c keeps_handlers(2) [OF a] handlers_next_pid(2) [OF a] n _ exit_step [OF i a n]]) auto
next
  note i = in_callD(5,3) [OF c]
  assume a: "syscall_block_handler s = Inr s'"
  obtain t R' S' where n: "next_task s R (S @ [current_task s]) = (t, R', S')" by (metis prod_cases3)
  show "kernel_ok s'"
    by (rule dispatched_ok [OF c keeps_handlers(3) [OF a] handlers_next_pid(3) [OF a] n _ block_step [OF i a n]]) auto
qed

section \<open>The tick\<close>

lemma timer_next_pid:
  assumes "sched_inv s R S E" "scheduler_timer regs s = Inr s'"
  shows "next_pid_value s' = next_pid_value s"
proof -
  obtain s1 s2 where k: "save_task_state (current_task s) regs s = Inr s1"
      "list_foreach task_links (exited_queue (if current_task s1 \<noteq> idle_task s1 then append_ready (current_task s1) s1 else s1))
         collect_task (if current_task s1 \<noteq> idle_task s1 then append_ready (current_task s1) s1 else s1) = Inr s2"
      "task_switch_next s2 = Inr s'"
    by (rule scheduler_timer_parts [OF assms(2)]) (erule that, assumption, auto simp: res_simps split: if_splits)
  obtain f where f: "keeps_identity f" "s1 = upd_task (current_task s) f s" using save_task_state_upd [OF k(1)] by metis
  have "sched_inv s1 R S E" using assms(1) sched_inv_upd_task [OF f(1)] f(2) by blast
  from collect_exited(2) [OF tick_requeue [OF this] k(2)] have "next_pid_value s2 = next_pid_value s"
    using f(2) by (auto simp: tick_part_def split: if_splits)
  then show ?thesis using task_switch_next_pid [OF k(3)] by simp
qed

text \<open>The blocks of the tasks that have exited are freed; all others stay.\<close>

lemma kernel_tick:
  assumes i: "kernel_inv s R S E PL Q" "conts_ok s PL" and a: "scheduler_timer regs s = Inr s'"
  shows "kernel_ok s'"
proof -
  obtain t R' S' where n: "next_task s (requeued s R) S = (t, R', S')" by (metis prod_cases3)
  have si: "sched_inv s R S E" using i(1) by (simp add: kernel_inv_def)
  have st: "sched_inv s' R' S' []" "current_task s' = t" "idle_task s' = idle_task s" "kstacks s' = kstacks s" "dir_of s' = dir_of s"
    using scheduler_timer_step [OF si a n] by blast+
  define T where "T = insert (current_task s) (insert (idle_task s) (set R \<union> set S))"
  have T: "all_tasks R' S' [] {current_task s', idle_task s'} = T" "all_tasks R S E {current_task s, idle_task s} = T \<union> set E"
    unfolding all_tasks_pair st(2,3) T_def using next_task_set(1) [OF n] by (auto simp: requeued_def set_eq_iff split: if_splits)
  have b: "sched_blocks s' R' S' [] = T \<union> dir_of s ` T" "sched_blocks s R S E = T \<union> set E \<union> dir_of s ` (T \<union> set E)"
    by (simp_all add: sched_blocks_def T st(5))
  have ok: "tasks_ok s (T \<union> set E)" "queues s R S E {current_task s, idle_task s}"
    using si unfolding sched_inv_def sched_wf_def T(2) by blast+
  have e: "T \<inter> set E = {}" using ok(2) by (auto simp: queues_def T_def)
  have inj: "inj_on (dir_of s) (T \<union> set E)" "(T \<union> set E) \<inter> dir_of s ` (T \<union> set E) = {}" using ok(1) by (auto simp: tasks_ok_def)
  have "dir_of s ` T \<inter> dir_of s ` set E = {}" using inj_on_image_Int [OF inj(1), of T "set E"] e by auto
  moreover have "ipc_blocks PL Q \<inter> sched_blocks s R S E = {}" using i(1) by (auto simp: kernel_inv_def)
  ultimately have dis: "(sched_blocks s' R' S' [] \<union> ipc_blocks PL Q) \<inter> (set E \<union> dir_of s ` set E) = {}"
    using e inj(2) unfolding b by blast
  have "owns s (sched_blocks s R S E \<union> ipc_blocks PL Q)" using i(1) by (simp add: kernel_inv_def)
  then have "owns s (sched_blocks s' R' S' [] \<union> ipc_blocks PL Q \<union> set E \<union> dir_of s ` set E)"
    by (rule owns_subset) (auto simp: b)
  from scheduler_timer_frees [OF si a this dis]
  have o: "owns s' (sched_blocks s' R' S' [] \<union> ipc_blocks PL Q)" "sched_state.more s' = sched_state.more s" by blast+
  have "kernel_inv s' R' S' [] PL Q"
    using i(1) st(1) o ipc_wf_cong [OF o(2)] timer_next_pid [OF si a] unfolding kernel_inv_def b by auto
  then show ?thesis using conts_ok_same [OF i(2) st(4)] by (rule kernel_okI)
qed

section \<open>\<open>fork\<close>, \<open>mmap\<close>, \<open>hwportopen\<close> and \<open>exec\<close>\<close>

lemma in_call_fork:
  assumes c: "in_call s R S E PL Q" and a: "syscall_fork_handler regs s = Inr (r, s')"
  shows "\<exists>t. in_call s' (R @ [t]) S E PL Q"
proof -
  let ?T = "all_tasks R S E {current_task s, idle_task s}" and ?B = "sched_blocks s R S E \<union> ipc_blocks PL Q"
  have i: "kernel_inv s R S E PL Q" by (rule in_callD(1) [OF c])
  then have n: "0 \<le> next_pid_value s" "owns s ?B" by (simp_all add: kernel_inv_def)
  from fork_step [OF in_callD(5) [OF c] n(1) a] obtain t dir where
    t: "t \<notin> ?T" and si: "sched_inv s' (R @ [t]) S E" and cur: "current_task s' = current_task s" "idle_task s' = idle_task s"
      "next_pid_value s' = next_pid_value s + 1" "\<forall>x. x \<noteq> t \<longrightarrow> tasks s' x = tasks s x" "kstacks s' = (kstacks s)(t := K_None)"
      "sched_state.more s' = sched_state.more s" "dir_of s' t = dir"
    and o: "\<forall>P. owns s P \<longrightarrow> t \<notin> P \<and> dir \<notin> P \<and> owns s' (insert t (insert dir P))" by blast
  have f: "t \<notin> ?B" "dir \<notin> ?B" "owns s' (insert t (insert dir ?B))" using o n(2) by blast+
  have T: "all_tasks (R @ [t]) S E {current_task s', idle_task s'} = insert t ?T" by (auto simp: all_tasks_def cur)
  have d: "dir_of s' x = dir_of s x" if "x \<in> ?T" for x using cur(4) that t by (auto simp: dir_of_def)
  have "dir_of s' ` ?T = dir_of s ` ?T" by (rule image_cong) (auto simp: d)
  then have b: "sched_blocks s' (R @ [t]) S E = insert t (insert dir (sched_blocks s R S E))"
    unfolding sched_blocks_def T using cur(7) by auto
  have "kernel_inv s' (R @ [t]) S E PL Q"
    using i si f cur(3) ipc_wf_cong [OF cur(6)] unfolding kernel_inv_def b by auto
  then show ?thesis using c cur by (auto simp: in_call_def conts_ok_def)
qed

lemma vouter_pages_free: "pages_free page limit s = Some r \<Longrightarrow> r = Inr (b, t) \<Longrightarrow> vouter t = vouter s"
proof (induction arbitrary: b t rule: pages_free.raw_induct [rotated, consumes 1, case_names 1])
  case (1 g page limit s r)
  then show ?case by (fastforce split: if_splits sum.splits prod.splits dest: vframe)
qed

lemma vouter_unmap_pages: "unmap_pages page limit s = Some r \<Longrightarrow> r = Inr t \<Longrightarrow> vouter t = vouter s"
proof (induction arbitrary: t rule: unmap_pages.raw_induct [rotated, consumes 1, case_names 1])
  case (1 g page limit s r)
  then show ?case by (fastforce split: if_splits sum.splits prod.splits dest: vframe)
qed

lemma vouter_map_pages: "map_pages addr page limit flags s = Some r \<Longrightarrow> r = Inr (b, t) \<Longrightarrow> vouter t = vouter s"
proof (induction arbitrary: b t rule: map_pages.raw_induct [rotated, consumes 1, case_names 1])
  case (1 g addr page limit flags s r)
  then show ?case
    by (fastforce simp: res_simps loop_result_def split: if_splits sum.splits prod.splits option.splits dest: vframe vouter_unmap_pages)
qed

lemma loop_result_Inr: "loop_result r = Inr x \<Longrightarrow> r = Some (Inr x)"
  by (cases r) (auto simp: loop_result_def)

lemma vouter_mmap: "syscall_mmap_handler regs s = Inr (r, t) \<Longrightarrow> vouter t = vouter s"
  by (auto simp: syscall_mmap_handler_def Let_def res_simps split: if_splits
      dest!: loop_result_Inr vouter_pages_free [OF _ refl] vouter_map_pages [OF _ refl])

lemma in_call_hwportopen:
  assumes c: "in_call s R S E PL Q" and a: "syscall_hwportopen_handler regs s = Inr (r, t)"
  shows "in_call t R S E PL Q"
proof -
  obtain s1 where k: "task_iomap_set (current_task s) (sint (r_ebx regs)) True s = Inr s1"
      "gdt_iomap_set (iomap (tasks s1 (current_task s1))) s1 = Inr t"
    using a by (auto simp: syscall_hwportopen_handler_def res_simps)
  obtain m where m: "s1 = upd_task (current_task s) (\<lambda>k. k\<lparr>iomap := m\<rparr>) s"
    using k(1) by (auto simp: task_iomap_set_def res_simps)
  have "keeps_identity (\<lambda>k. k\<lparr>iomap := m\<rparr>)" by (simp add: keeps_identity_def)
  then have "in_call s1 R S E PL Q" using c in_call_upd_task m by blast
  then show ?thesis by (rule in_call_same [OF _ same_sched_tss(2) [OF k(2)] keeps_tss(2) [OF k(2)]])
qed

lemma vouter_map_segment: "map_segment page limit s = Some r \<Longrightarrow> r = Inr t \<Longrightarrow> vouter t = vouter s"
proof (induction arbitrary: t rule: map_segment.raw_induct [rotated, consumes 1, case_names 1])
  case (1 g page limit s r)
  then show ?case by (fastforce split: if_splits sum.splits prod.splits dest: vframe)
qed

lemma vouter_remap_segment: "remap_segment page limit flags s = Some r \<Longrightarrow> r = Inr t \<Longrightarrow> vouter t = vouter s"
proof (induction arbitrary: t rule: remap_segment.raw_induct [rotated, consumes 1, case_names 1])
  case (1 g page limit flags s r)
  then show ?case by (fastforce split: if_splits sum.splits prod.splits dest: vframe)
qed

lemma vouter_write_bytes: "write_bytes va bs s = Inr t \<Longrightarrow> vouter t = vouter s"
  by (induction bs arbitrary: va s) (fastforce simp: res_simps store8_def Let_def)+

lemma vouter_load_segment: "load_segment b p s = Inr t \<Longrightarrow> vouter t = vouter s"
  by (auto simp: load_segment_def Let_def res_simps split: if_splits
      dest!: loop_result_Inr vouter_map_segment [OF _ refl] vouter_remap_segment [OF _ refl] vouter_write_bytes)

lemma vouter_load_elf: "load_elf b s = Inr (e, t) \<Longrightarrow> vouter t = vouter s"
  by (auto simp: load_elf_def res_simps elim!: for_each_keeps [where F = vouter] intro: vouter_load_segment)

lemma in_call_exec:
  assumes c: "in_call s R S E PL Q" and a: "syscall_exec_handler regs filename s = Inr (regs', r, t)"
  shows "in_call t R S E PL Q"
proof (cases "t = s")
  case False
  then obtain buf s1 e s2 where k: "vmm_reset_current_pagedir s = Inr s1" "\<exists>b. load_elf b s1 = Inr (e, s2)"
      "current_task_set_name buf s2 = Inr t"
    using a by (auto simp: syscall_exec_handler_def Let_def res_simps split: if_splits) metis
  have "vouter s2 = vouter s" using k(2) vouter_load_elf vouter_reset_pagedir [OF k(1)] by metis
  then have "in_call s2 R S E PL Q" using c by (rule in_call_vouter)
  moreover obtain n where "t = upd_task (current_task s2) (\<lambda>k. k\<lparr>task_name := n\<rparr>) s2"
    using k(3) by (auto simp: current_task_set_name_def res_simps)
  moreover have "keeps_identity (\<lambda>k. k\<lparr>task_name := n\<rparr>)" by (simp add: keeps_identity_def)
  ultimately show ?thesis using in_call_upd_task by blast
qed (use c in simp)

section \<open>The dispatcher\<close>

lemma returned_ok: "returned regs (out, s) = Inr (r, t) \<Longrightarrow> kernel_ok s \<Longrightarrow> kernel_ok t"
  by (auto simp: returned_def res_simps split: outcome.splits)

lemma switched_ok: "switched r = Inr (x, t) \<Longrightarrow> r = Inr t"
  by (auto simp: switched_def res_simps)

lemma call_handler_ok:
  assumes c: "in_call s R S E PL Q" and a: "call_handler kregs regs msg filename f s = Inr (r, t)" and m: "msg_fits msg"
  shows "kernel_ok t"
proof (cases f)
  case Fn_Sleep
  then show ?thesis using a block_ok [OF c] by (auto simp: syscall_sleep_handler_def dest!: switched_ok)
next
  case Fn_Fork
  then obtain v s1 where "syscall_fork_handler regs s = Inr (v, s1)" "returned regs (Return v [], s1) = Inr (r, t)"
    using a by (auto simp: res_simps with_value_def)
  then show ?thesis using in_call_fork [OF c] returned_ok in_call_ok by metis
next
  case Fn_Mmap
  then obtain v s1 where "syscall_mmap_handler regs s = Inr (v, s1)" "returned regs (Return v [], s1) = Inr (r, t)"
    using a by (auto simp: res_simps with_value_def)
  then show ?thesis using in_call_vouter [OF vouter_mmap c] returned_ok in_call_ok by metis
next
  case Fn_Hwportopen
  then obtain v s1 where "syscall_hwportopen_handler regs s = Inr (v, s1)" "returned regs (Return v [], s1) = Inr (r, t)"
    using a by (auto simp: res_simps with_value_def)
  then show ?thesis using in_call_hwportopen [OF c] returned_ok in_call_ok by metis
next
  case Fn_Exec
  then obtain regs' v s1 where "syscall_exec_handler regs filename s = Inr (regs', v, s1)" "returned regs' (Return v [], s1) = Inr (r, t)"
    using a by (auto simp: res_simps)
  then show ?thesis using in_call_exec [OF c] returned_ok in_call_ok by metis
next
  case Fn_Msgpeek
  then obtain out s1 where "syscall_msgpeek_handler regs s = Inr (out, s1)" "returned regs (out, s1) = Inr (r, t)"
    using a by (auto simp: res_simps)
  then show ?thesis using msgpeek_same [OF in_callD(4) [OF c]] returned_ok in_call_ok [OF c] by metis
qed (use a m kernel_leave [OF c] portopen_ok [OF c] msgsend_ok [OF c] msgrecv_ok [OF c] msgwait_ok [OF c]
  in \<open>auto simp: res_simps dest!: switched_ok intro: returned_ok\<close>)

section \<open>The start\<close>

text \<open>Operations before the first task exists: the parts the invariant is about do not change.\<close>

definition calm :: "'a sched_state_scheme \<Rightarrow> 'a sched_state_scheme \<Rightarrow> bool" where
  "calm s t \<longleftrightarrow> same_sched s t \<and> keeps s t"

lemma calm_trans: "calm s t \<Longrightarrow> calm t u \<Longrightarrow> calm s u"
  by (auto simp: calm_def intro: same_sched_trans keeps_trans)

lemma calm_refl [simp, intro]: "calm s s"
  by (simp add: calm_def)

lemma vouter_calm: "vouter t = vouter s \<Longrightarrow> calm s t"
  by (simp add: calm_def vouter_same_sched vouter_keeps)

lemma vouter_fill_page: "fill_page va w s = Inr t \<Longrightarrow> vouter t = vouter s"
  unfolding fill_page_def by (erule for_each_keeps [where F = vouter]) (rule vframe)

lemma owns_setup [simp]:
  "owns (s\<lparr>next_timer_id := a\<rparr>) P = owns s P" "owns (s\<lparr>timers := b\<rparr>) P = owns s P" "owns (s\<lparr>timer_count := c\<rparr>) P = owns s P"
  "owns (t\<lparr>syscall_handlers := d\<rparr>) P = owns t P" "owns (t\<lparr>idle_task := i\<rparr>) P = owns t P"
  by (rule owns_cong; simp add: heap_inv_def heap_wf_def live_def canary_addr_def)+

lemma calm_timer_schedule: "timer_schedule f d ms r s = Inr (u, t) \<Longrightarrow> calm s t"
  by (auto simp: calm_def same_sched_def sched_part_def keeps_def owns_on_def timer_schedule_def critical_Inr restore_if_def cli_def sti_def
      Let_def res_simps split: if_splits)

lemma calm_syscall_register: "syscall_register n h s = Inr t \<Longrightarrow> calm s t"
  by (auto simp: calm_def same_sched_def sched_part_def keeps_def owns_on_def syscall_register_def split: if_splits)

lemma calm_registers: "for_each (\<lambda>(n, f) s. syscall_register n f s) xs s = Inr t \<Longrightarrow> calm s t"
  by (induction xs arbitrary: s) (auto simp: res_simps dest!: calm_syscall_register intro: calm_trans)

lemma calm_memory:
  "pmm_alloc s = Inr (fr, t) \<Longrightarrow> calm s t"
  "vmm_map va pa fl s = Inr (x, t) \<Longrightarrow> calm s t"
  "vmm_get_physical va s = Inr (pa, t) \<Longrightarrow> calm s t"
  "fill_page va w s = Inr t \<Longrightarrow> calm s t"
  by (rule vouter_calm, (erule vframe | erule vouter_fill_page))+

lemma calm_tss: "tss_set_kernel_stack e s = Inr (v, t) \<Longrightarrow> calm s t"
  by (simp add: calm_def same_sched_tss(1) keeps_tss(1))

lemma scheduler_start_parts:
  assumes "scheduler_start ta ke ie kn idn s = Inr s'"
  obtains s1 s2 t s3 pa s4 t1 s5 pa1 s6 where
    "calm (s\<lparr>ready_queue := list_init, sleeping_queue := list_init, exited_queue := list_init\<rparr>) s1"
    "task_create kn s1 = Inr (t, s2)" "vmm_get_physical (pagedir (tasks s2 t)) s2 = Inr (pa, s3)"
    "s4 = upd_task t (\<lambda>k. k\<lparr>ctx := kernel_context pa (eflags s3) ke (ctx k)\<rparr>) s3"
    "task_create idn s4 = Inr (t1, s5)" "vmm_get_physical (pagedir (tasks s5 t1)) s5 = Inr (pa1, s6)"
    "task_switch t ((upd_task t1 (\<lambda>k. k\<lparr>ctx := kernel_context pa1 (eflags s6) ie (ctx k)\<rparr>) s6)\<lparr>idle_task := t1\<rparr>) = Inr s'"
proof -
  let ?s = "s\<lparr>ready_queue := list_init, sleeping_queue := list_init, exited_queue := list_init\<rparr>"
  obtain u v1 v2 v3 fr v4 x v5 v6 y s1 where k: "timer_schedule ta NULL 50 True ?s = Inr (u, v1)"
      "for_each (\<lambda>(n, f) s. syscall_register n f s) [(6, Fn_Yield), (7, Fn_Fork), (0, Fn_Exit), (9, Fn_Sleep), (11, Fn_Exec),
        (13, Fn_Mmap), (17, Fn_Block), (15, Fn_Hwportopen)] v1 = Inr v2"
      "pmm_alloc v2 = Inr (fr, v3)" "vmm_map KERNEL_STACK fr (VMM_PAGE_PRESENT OR VMM_PAGE_WRITABLE) v3 = Inr (x, v4)"
      "fill_page KERNEL_STACK 0xCCCCCCCC v4 = Inr v5" "tss_set_kernel_stack (KERNEL_STACK + PAGE_SIZE) v5 = Inr (y, s1)"
    and r: "res_bind (task_create kn s1) (\<lambda>(t, s).
      res_bind (vmm_get_physical (pagedir (tasks s t)) s) (\<lambda>(pa, s).
      let s = upd_task t (\<lambda>k. k\<lparr>ctx := kernel_context pa (eflags s) ke (ctx k)\<rparr>) s in
      res_bind (task_create idn s) (\<lambda>(t1, s).
      res_bind (vmm_get_physical (pagedir (tasks s t1)) s) (\<lambda>(pa1, s).
      let s = upd_task t1 (\<lambda>k. k\<lparr>ctx := kernel_context pa1 (eflags s) ie (ctx k)\<rparr>) s; s = s\<lparr>idle_task := t1\<rparr>
      in task_switch t s)))) = Inr s'"
    using assms unfolding scheduler_start_def by (auto simp: res_bind_eq_Inr assert_then_eq_Inr Let_def simp del: for_each.simps)
  have "calm ?s s1"
    using calm_timer_schedule [OF k(1)] calm_registers [OF k(2)] calm_memory(1) [OF k(3)] calm_memory(2) [OF k(4)]
      calm_memory(4) [OF k(5)] calm_tss [OF k(6)] calm_trans by metis
  then show thesis using r that by (auto simp: res_simps Let_def)
qed

text \<open>What the boot code leaves to the scheduler: a heap in order, no ports and no tasks.\<close>

definition booted :: "'a ipc_state_scheme \<Rightarrow> bool" where
  "booted s \<longleftrightarrow>
     owns s {} \<and> next_pid_value s = 0 \<and> (\<forall>t. kstacks s t = K_None) \<and>
     port_list s = list_init \<and> port_list_lock s = 0 \<and> next_port_value s = 32"

lemma booted_ipc: "booted s \<Longrightarrow> ipc_wf s [] (\<lambda>_. [])"
  using dll_init by (simp add: booted_def ipc_wf_def msgs_of_def port_numbers_ok_def)

lemma calmD:
  assumes "calm s t"
  shows "sched_wf s R S E F \<Longrightarrow> sched_wf t R S E F" "sched_part t = sched_part s" "sched_state.more t = sched_state.more s"
  using assms same_sched_wf [of s t R S E F] by (simp_all add: calm_def same_sched_def keeps_def)

lemma create_step:
  assumes "task_create name s = Inr (t, s1)" "vmm_get_physical va s1 = Inr (pa, s2)" "sched_wf s [] [] [] F" "0 \<le> next_pid_value s"
    "keeps_identity f" "\<forall>t. kstacks s t = K_None"
  shows "sched_wf (upd_task t f s2) [] [] [] (insert t F)" "sched_state.more (upd_task t f s2) = sched_state.more s"
    "next_pid_value (upd_task t f s2) = next_pid_value s + 1" "\<forall>t'. kstacks (upd_task t f s2) t' = K_None"
proof -
  obtain dir where c: "created s t dir s1" using task_create_effect [OF assms(1)] by blast
  note q = calm_memory(3) [OF assms(2)]
  have "sched_wf s2 [] [] [] (insert t F)" by (rule calmD(1) [OF q created_wf(1) [OF c assms(3,4)]])
  then show "sched_wf (upd_task t f s2) [] [] [] (insert t F)" using sched_wf_upd_task [OF assms(5)] by blast
  show "sched_state.more (upd_task t f s2) = sched_state.more s" using calmD(3) [OF q] c by (simp add: created_def upd_task_def)
  show "next_pid_value (upd_task t f s2) = next_pid_value s + 1" "\<forall>t'. kstacks (upd_task t f s2) t' = K_None"
    using sched_partD [OF calmD(2) [OF q]] c assms(6) by (auto simp: created_def)
qed

lemma scheduler_start_ok:
  assumes b: "booted s" and a: "scheduler_start ta ke ie kn idn s = Inr s'"
  shows "kernel_ok s'"
proof -
  let ?s = "s\<lparr>ready_queue := list_init, sleeping_queue := list_init, exited_queue := list_init\<rparr>"
  obtain s1 s2 t s3 pa s4 t1 s5 pa1 s6 where k: "calm ?s s1" "task_create kn s1 = Inr (t, s2)" "vmm_get_physical (pagedir (tasks s2 t)) s2 = Inr (pa, s3)"
      "s4 = upd_task t (\<lambda>k. k\<lparr>ctx := kernel_context pa (eflags s3) ke (ctx k)\<rparr>) s3"
      "task_create idn s4 = Inr (t1, s5)" "vmm_get_physical (pagedir (tasks s5 t1)) s5 = Inr (pa1, s6)"
      "task_switch t ((upd_task t1 (\<lambda>k. k\<lparr>ctx := kernel_context pa1 (eflags s6) ie (ctx k)\<rparr>) s6)\<lparr>idle_task := t1\<rparr>) = Inr s'"
    by (rule scheduler_start_parts [OF a])
  have id: "keeps_identity (\<lambda>k. k\<lparr>ctx := kernel_context x y z (ctx k)\<rparr>)" for x y z by (simp add: keeps_identity_def)
  have "sched_wf ?s [] [] [] {}"
    using b dll_init by (auto simp: sched_wf_def queues_def tasks_ok_def all_tasks_def booted_def)
  then have w1: "sched_wf s1 [] [] [] {}" by (rule calmD(1) [OF k(1)])
  have n1: "next_pid_value s1 = 0" "\<forall>t. kstacks s1 t = K_None" "sched_state.more s1 = sched_state.more s"
    using sched_partD [OF calmD(2) [OF k(1)]] calmD(3) [OF k(1)] b by (simp_all add: booted_def)
  have "0 \<le> next_pid_value s1" using n1 by simp
  note c1 = create_step [OF k(2,3) w1 this id n1(2), of pa "eflags s3" ke, folded k(4)]
  have "0 \<le> next_pid_value s4" using c1(3) n1 by simp
  note c2 = create_step [OF k(5,6) c1(1) this id c1(4), of pa1 "eflags s6" ie]
  let ?t = "(upd_task t1 (\<lambda>k. k\<lparr>ctx := kernel_context pa1 (eflags s6) ie (ctx k)\<rparr>) s6)\<lparr>idle_task := t1\<rparr>"
  have "sched_wf ?t [] [] [] {t, idle_task ?t}"
    using c2(1) by (simp add: sched_wf_def queues_def tasks_ok_def dir_of_def [abs_def] pid_of_def [abs_def] insert_commute)
  note sw = task_switch_inv [OF k(7) this]
  have more: "sched_state.more s' = sched_state.more s" using keeps_task_switch [OF k(7)] c2(2) c1(2) n1(3) by (simp add: keeps_def)
  have "0 \<le> next_pid_value s'" using task_switch_pid [OF k(7)] c2(3) c1(3) n1(1) by simp
  then have "kernel_inv s' [] [] [] [] (\<lambda>_. [])"
    using sw(1) booted_ipc [OF b] ipc_wf_cong [OF more]
    by (auto simp: kernel_inv_def ipc_blocks_def msgs_of_def sched_inv_def sched_wf_def tasks_ok_def sched_blocks_def)
  moreover have "conts_ok s' []" using c2(4) sw(5) by (simp add: conts_ok_def)
  ultimately show ?thesis by (rule kernel_okI)
qed

section \<open>Runs of the kernel\<close>

text \<open>
  One entry into the kernel, or a stretch of user code between two entries, which may write to
  memory and change the flags. The idle task makes no system calls.
\<close>

inductive kernel_step :: "'a initrd_state_scheme \<Rightarrow> 'a initrd_state_scheme \<Rightarrow> bool" where
  call: "current_task s \<noteq> idle_task s \<Longrightarrow> msg_fits msg \<Longrightarrow> syscall_handler kregs regs msg filename s = Inr (r, s') \<Longrightarrow> kernel_step s s'"
| wait_over: "current_task s \<noteq> idle_task s \<Longrightarrow> resume_syscall kregs regs s = Inr (r, s') \<Longrightarrow> kernel_step s s'"
| tick: "scheduler_timer regs s = Inr s' \<Longrightarrow> kernel_step s s'"
| enter_user: "current_task s \<noteq> idle_task s \<Longrightarrow> jump_to_usermode entry s = Inr s' \<Longrightarrow> kernel_step s s'"
| user_code: "kernel_step s (s\<lparr>phys := m, eflags := e\<rparr>)"

inductive kernel_steps :: "'a initrd_state_scheme \<Rightarrow> 'a initrd_state_scheme \<Rightarrow> bool" where
  none: "kernel_steps s s"
| more: "kernel_steps s t \<Longrightarrow> kernel_step t u \<Longrightarrow> kernel_steps s u"

lemma in_callI:
  assumes "kernel_ok s" "current_task s \<noteq> idle_task s"
  obtains R S E PL Q where "in_call s R S E PL Q"
  using assms unfolding kernel_ok_def in_call_def by blast

lemma in_call_calm: "calm s t \<Longrightarrow> in_call s R S E PL Q \<Longrightarrow> in_call t R S E PL Q"
  by (rule in_call_same) (auto simp: calm_def)

lemma in_call_usermode:
  assumes c: "in_call s R S E PL Q" and a: "jump_to_usermode entry s = Inr s'"
  shows "in_call s' R S E PL Q"
proof -
  let ?t = "current_task s"
  let ?f = "\<lambda>k. k\<lparr>ctx := (ctx k)\<lparr>c_cs := USER_CODE_SEG OR RPL3, c_ds := USER_DATA_SEG OR RPL3, c_ss := USER_DATA_SEG OR RPL3\<rparr>\<rparr>"
  let ?g = "\<lambda>k. k\<lparr>ctx := (ctx k)\<lparr>c_esp := USER_STACK + PAGE_SIZE, c_eflags := c_eflags (ctx k) OR EFLAGS_IF, c_eip := entry\<rparr>\<rparr>"
  obtain fr s1 x s2 s3 where k: "pmm_alloc (upd_task ?t ?f s) = Inr (fr, s1)"
      "vmm_map USER_STACK fr (VMM_PAGE_PRESENT OR VMM_PAGE_WRITABLE OR VMM_PAGE_USER) s1 = Inr (x, s2)"
      "fill_page USER_STACK 0xCCCCCCCC s2 = Inr s3" "s' = switch_context (ctx (tasks (upd_task ?t ?g s3) ?t)) (upd_task ?t ?g s3)"
    using a by (auto simp: jump_to_usermode_def Let_def res_simps)
  have id: "keeps_identity ?f" "keeps_identity ?g" by (simp_all add: keeps_identity_def)
  have "in_call (upd_task ?t ?f s) R S E PL Q" by (rule in_call_upd_task [OF id(1) c])
  then have "in_call s3 R S E PL Q"
    by (rule in_call_calm [OF calm_trans [OF calm_memory(1) [OF k(1)] calm_trans [OF calm_memory(2) [OF k(2)] calm_memory(4) [OF k(3)]]]])
  then have u: "in_call (upd_task ?t ?g s3) R S E PL Q" by (rule in_call_upd_task [OF id(2)])
  show ?thesis
    unfolding k(4) by (rule in_call_same [OF u same_sched_tss(3)]) (simp add: keeps_def owns_on_def switch_context_def)
qed

lemma kernel_step_ok:
  assumes "kernel_step s s'" "kernel_ok s"
  shows "kernel_ok s'"
  using assms
proof cases
  case (call msg kregs regs filename r)
  obtain R S E PL Q where c: "in_call s R S E PL Q" by (rule in_callI [OF assms(2) call(1)])
  obtain f s1 where f: "enter_syscall regs s = Inr s1" "call_handler kregs regs msg filename f s1 = Inr (r, s')"
    using call(3) by (auto simp: syscall_handler_def res_simps Let_def split: option.splits)
  show ?thesis by (rule call_handler_ok [OF in_call_enter [OF f(1) c] f(2) call(2)])
next
  case (wait_over kregs regs r)
  obtain R S E PL Q where c: "in_call s R S E PL Q" by (rule in_callI [OF assms(2) wait_over(1)])
  obtain out s1 where "resume kregs s = Inr (out, s1)" "returned regs (out, s1) = Inr (r, s')"
    using wait_over(2) by (auto simp: resume_syscall_def res_simps)
  then show ?thesis using resume_ok [OF c] returned_ok by blast
next
  case (tick regs)
  then show ?thesis using assms(2) kernel_tick unfolding kernel_ok_def by metis
next
  case (enter_user entry)
  obtain R S E PL Q where c: "in_call s R S E PL Q" by (rule in_callI [OF assms(2) enter_user(1)])
  show ?thesis by (rule in_call_ok [OF in_call_usermode [OF c enter_user(2)]])
next
  case (user_code e m)
  obtain R S E PL Q where i: "kernel_inv s R S E PL Q" "conts_ok s PL" using assms(2) by (auto simp: kernel_ok_def)
  have "calm s s'" using vouter_calm [of "s\<lparr>phys := m\<rparr>" s]
    by (simp add: user_code calm_def same_sched_def sched_part_def keeps_def owns_on_def)
  then have "kernel_inv s' R S E PL Q" using kernel_inv_same [OF i(1)] by (simp add: calm_def)
  moreover have "conts_ok s' PL" using i(2) by (simp add: user_code conts_ok_def)
  ultimately show ?thesis by (rule kernel_okI)
qed

lemma kernel_steps_ok: "kernel_steps s s' \<Longrightarrow> kernel_ok s \<Longrightarrow> kernel_ok s'"
  by (induction rule: kernel_steps.induct) (auto intro: kernel_step_ok)

end
