(* ===== verification/KernelProps.thy ===== *)
theory KernelProps
  imports KernelRun
begin

text \<open>
  Properties of whole runs of the kernel and of the exchange of messages, with a machine on
  which they are exercised.
\<close>

section \<open>Room in the heap\<close>

definition room :: "u32 \<Rightarrow> 'a heap_state_scheme \<Rightarrow> bool" where
  "room n s \<longleftrightarrow> (\<exists>bs. heap_wf s bs \<and> (\<exists>b\<in>set bs. \<not> allocated (blocks s b) \<and> unat (n + 8) + 32 < unat (hb_size (blocks s b))))"

lemma heap_wf_cli [simp]: "heap_wf (cli s) bs = heap_wf s bs"
  by (simp add: heap_wf_def canary_addr_def cli_def)

lemma kmalloc_room:
  fixes s :: "'a dir_state_scheme"
  assumes "room n s" "owns s P" "6 \<le> unat n" "unat n + 56 < 2 ^ 32"
  obtains p s' where "kmalloc n s = Inr (p, s')" "vmm_state.truncate s' = vmm_state.truncate s"
proof -
  obtain L bs' where i: "heap_inv s L bs'" using assms(2) by (auto simp: owns_def kheap_inv_def)
  obtain bs b where b: "heap_wf s bs" "b \<in> set bs" "\<not> allocated (blocks s b)" "unat (n + 8) + 32 < unat (hb_size (blocks s b))"
    using assms(1) by (auto simp: room_def)
  have "unat (n + 8) = unat n + 8" using assms(4) by (simp add: unat_add32)
  then have ok: "alloc_ok (n + 8) 3 (cli s)" using i assms(3,4) by (simp add: alloc_ok_def heap_inv_def cli_def)
  obtain p s1 where p: "heap_alloc_aligned n (2 ^ 3) (cli s) = Inr (p, s1)" "vmm_state.truncate s1 = vmm_state.truncate (cli s)"
    by (rule heap_alloc_fits [OF _ _ ok, of bs b]) (use b i in \<open>simp_all add: heap_inv_def, simp_all add: cli_def\<close>)
  have "eflags s1 = eflags (cli s)" using p(2) by (simp add: vmm_state.truncate_def)
  moreover have "p \<noteq> NULL"
  proof -
    have "\<exists>cs. heap_inv s1 (insert p L) cs" by (rule heap_inv_alloc [of "cli s" L bs' n 3]) (use i p(1) assms(3,4) in simp_all)
    then show ?thesis using heap_inv_nonnull by blast
  qed
  moreover have "n \<noteq> 0" using assms(3) by auto
  ultimately have "kmalloc n s = Inr (p, s1\<lparr>eflags := eflags s\<rparr>)"
    using p(1) by (simp add: kmalloc_def kmalloc_a_def critical_run)
  moreover have "vmm_state.truncate (s1\<lparr>eflags := eflags s\<rparr>) = vmm_state.truncate s"
    using p(2) by (simp add: vmm_state.truncate_def cli_def)
  ultimately show thesis by (rule that)
qed


section \<open>Sending\<close>

lemma sched_inv_queues_eq:
  assumes "sched_inv s R S E" "sched_inv s R' S' E'"
  shows "R = R'" "S = S'"
  using assms by (auto simp: sched_inv_def sched_wf_def queues_def dest: dll_unique)

lemma owns_queued [simp]:
  "owns (s\<lparr>msg_links := l, messages := g\<rparr>) P = owns s P" "owns (s\<lparr>messages := g, msg_links := l\<rparr>) P = owns s P"
  "owns (queued p m msg s) P = owns s P"
proof -
  show "owns (s\<lparr>msg_links := l, messages := g\<rparr>) P = owns s P" "owns (s\<lparr>messages := g, msg_links := l\<rparr>) P = owns s P" for l g
    by (simp_all add: owns_def kheap_inv_def heap_inv_def heap_wf_def live_def canary_addr_def)
  then show "owns (queued p m msg s) P = owns s P" by (simp add: queued_def)
qed

lemma msgsend_deliver_run:
  assumes k: "kmalloc (SIZEOF_MESSAGE + len msg + 64) s = Inr (m, s1)" and o: "owns s P" "owns s1 P'"
    and l: "lock (ports s1 p) = 0" "current_task s1 \<noteq> NULL" "\<not> interrupts_enabled s1"
    and n: "unat SIZEOF_MESSAGE + unat (len msg) + 64 < 2 ^ 32" "checksum msg = message_checksum msg"
  shows "msgsend_deliver kregs p msg s =
    res_bind (task_wake (receiver (ports s1 p)) (queued p m (stamped (pid_of s1 (current_task s1)) msg) s1)) (\<lambda>s.
    res_bind (task_block kregs K_Send_Done INVALID_PORT INVALID_PORT SLEEP_INFINITE s) (\<lambda>s. Inr (Away, s)))"
proof -
  let ?q = "queued p m (stamped (pid_of s1 (current_task s1)) msg) s1"
  have ch: "kernel_heap_check s = Inr ()" "kernel_heap_check s1 = Inr ()" "kernel_heap_check ?q = Inr ()"
    "kernel_heap_check (s1\<lparr>messages := y, msg_links := x\<rparr>) = Inr ()" for x y
    using o by (auto intro: heap_check_passes)
  have r: "receiver (ports ?q p) = receiver (ports s1 p)" by (simp add: queued_def append_message_def upd_port_def prod.case_eq_if)
  have i: "interrupts_enabled (s1\<lparr>messages := y, msg_links := x\<rparr>) = interrupts_enabled s1" for x y by (simp add: interrupts_enabled_def)
  have e: "s1\<lparr>messages := y, msg_links := x\<rparr> = s1\<lparr>msg_links := x, messages := y\<rparr>" for x y by simp
  show ?thesis
    using k l n i ch(1,2,4) ch(4) [unfolded e] ch(3) [unfolded queued_def stamped_def Let_def] r [unfolded queued_def stamped_def Let_def]
    by (simp add: msgsend_deliver_def Let_def current_task_pid_def queue_message queued_def stamped_def pid_of_def)
qed

lemma queued_sched [simp]:
  fixes s :: "'a ipc_state_scheme"
  shows "sched_inv (queued p m msg s) R S E = sched_inv s R S E" "interrupts_enabled (queued p m msg s) = interrupts_enabled s"
    "pid_of (queued p m msg s) = pid_of s" "timer_timestamp (queued p m msg s) = timer_timestamp s" "tasks (queued p m msg s) = tasks s"
    "idle_task (queued p m msg s) = idle_task s" "current_task (queued p m msg s) = current_task s"
    "next_pid_value (queued p m msg s) = next_pid_value s" "tss (queued p m msg s) = tss s"
    "vmm_state.truncate (queued p m msg s) = vmm_state.truncate s"
proof -
  show "sched_inv (queued p m msg s) R S E = sched_inv s R S E" by (simp add: queued_def)
  show "interrupts_enabled (queued p m msg s) = interrupts_enabled s"
    "pid_of (queued p m msg s) = pid_of s" "timer_timestamp (queued p m msg s) = timer_timestamp s" "tasks (queued p m msg s) = tasks s"
    "idle_task (queued p m msg s) = idle_task s" "current_task (queued p m msg s) = current_task s"
    "next_pid_value (queued p m msg s) = next_pid_value s" "tss (queued p m msg s) = tss s"
    "vmm_state.truncate (queued p m msg s) = vmm_state.truncate s"
    by (simp_all add: queued_def append_message_def upd_port_def prod.case_eq_if interrupts_enabled_def pid_of_def [abs_def]
        timer_timestamp_def vmm_state.truncate_def)
qed

lemma woken_fields [simp]:
  "timer_timestamp (append_ready t s) = timer_timestamp s" "timer_timestamp (remove_sleeping t s) = timer_timestamp s"
  "idle_task (append_ready t s) = idle_task s" "idle_task (remove_sleeping t s) = idle_task s"
  "interrupts_enabled (append_ready t s) = interrupts_enabled s" "interrupts_enabled (remove_sleeping t s) = interrupts_enabled s"
  by (simp_all add: append_ready_def remove_sleeping_def timer_timestamp_def interrupts_enabled_def split: prod.splits)

text \<open>Delivery to a receiver that sleeps, when the heap has room for the copy of the message.\<close>

lemma msgsend_deliver_total:
  assumes i: "kernel_inv s R S E PL Q" and p: "p \<in> set PL" and c: "current_task s \<noteq> idle_task s"
    and f: "\<not> interrupts_enabled s" "next_pid_value s \<le> 32" "regs_ok kregs"
    and h: "room (SIZEOF_MESSAGE + len msg + 64) s" "unat (len msg) + 160 < 2 ^ 32" "checksum msg = message_checksum msg"
    and t: "t \<in> set S" "pid_of s t = receiver (ports s p)"
    and u: "next_task s (R @ [t]) (remove1 t S) = (u, R', S')" "switchable u s"
      "timer_timestamp s < timer_timestamp s + ucast SLEEP_INFINITE"
  shows "\<exists>s' m. msgsend_deliver kregs p msg s = Inr (Away, s') \<and> kernel_inv s' R' (S' @ [current_task s]) E PL (Q(p := Q p @ [m]))
    \<and> messages s' m = stamped (pid_of s (current_task s)) msg \<and> m \<notin> set (msgs_of PL Q)
    \<and> (\<forall>x. x \<noteq> m \<longrightarrow> messages s' x = messages s x) \<and> current_task s' = u
    \<and> kstacks s' = (kstacks s)(current_task s := K_Send_Done) \<and> pid_of s' = pid_of s"
proof -
  let ?n = "SIZEOF_MESSAGE + len msg + 64"
  have n: "unat ?n = 92 + unat (len msg)" "unat SIZEOF_MESSAGE + unat (len msg) + 64 < 2 ^ 32"
    using message_size [of "len msg"] h(2) by (simp_all add: SIZEOF_MESSAGE_def)
  then have n': "6 \<le> unat ?n" "unat ?n + 56 < 2 ^ 32" using h(2) by simp_all
  obtain m s1 where k: "kmalloc ?n s = Inr (m, s1)" "vmm_state.truncate s1 = vmm_state.truncate s"
    by (rule kmalloc_room [OF h(1) owns_of_kernel_inv [OF i] n'])
  note a = kernel_inv_kmalloc [OF i k(1) n'] and sp = sched_partD [OF kernel_inv_kmalloc(5) [OF i k(1) n']]
  have o: "outer s1 = outer s" by (rule kouter_outer [OF kouter_kmalloc(2) [OF k(1)]])
  have ports: "ports s1 = ports s" by (rule ipc_fields(1) [OF a(6)])
  have id: "pid_of s1 = pid_of s" "timer_timestamp s1 = timer_timestamp s" "tss s1 = tss s"
    using sp(1) outer_sched_part(3) [OF o] o by (auto simp: pid_of_def [abs_def]) (cases s, cases s1, simp add: outer_def)
  have l: "lock (ports s1 p) = 0" "current_task s1 \<noteq> NULL" "\<not> interrupts_enabled s1"
    using a(1) p f(1) a(7) sched_inv_not_null(1) [of s1] by (auto simp: kernel_inv_def ipc_wf_def interrupts_enabled_def)
  let ?q = "queued p m (stamped (pid_of s1 (current_task s1)) msg) s1"
  note run = msgsend_deliver_run [OF k(1) owns_of_kernel_inv [OF i] owns_of_kernel_inv [OF a(1)] l n(2) h(3), of kregs]
  have q: "sched_inv ?q R S E" "\<not> interrupts_enabled ?q" "pid_of ?q t = receiver (ports s1 p)"
    using a(1) l(3) t(2) ports id by (simp_all add: kernel_inv_def)
  let ?w = "append_ready t (remove_sleeping t ?q)"
  note w = task_wake_sleeping [OF q(1) t(1) q(2), unfolded q(3)]
  have nt: "next_task ?w (R @ [t]) (remove1 t S) = (u, R', S')" using u(1) sp id by (simp add: next_task_def cong: option.case_cong list.case_cong)
  have sw: "switchable u ?w" using u(2) switchable_cong [of ?q s u] k(2) sp(1) id(3) by simp
  obtain s' where b: "task_block kregs K_Send_Done INVALID_PORT INVALID_PORT SLEEP_INFINITE ?w = Inr s'"
      "sched_inv s' R' (S' @ [current_task s]) E" "current_task s' = u"
    using task_block_total [OF w(2) _ _ _ f(3) nt sw, of SLEEP_INFINITE K_Send_Done INVALID_PORT INVALID_PORT] c f(1,2) u(3) sp id l(3) by auto
  have d: "msgsend_deliver kregs p msg s = Inr (Away, s')" using run w(1) b(1) by simp
  obtain R1 S1 m' where z: "kernel_inv s' R1 S1 E PL (Q(p := Q p @ [m']))" "messages s' m' = stamped (pid_of s (current_task s)) msg"
      "m' \<notin> set (msgs_of PL Q)" "\<forall>x. x \<noteq> m' \<longrightarrow> messages s' x = messages s x"
      "kstacks s' = (kstacks s)(current_task s := K_Send_Done)" "pid_of s' = pid_of s"
    using kernel_inv_deliver [OF i p c d h(2)] by blast
  have "sched_inv s' R1 S1 E" using z(1) by (simp add: kernel_inv_def)
  then have "R1 = R'" "S1 = S' @ [current_task s]" using sched_inv_queues_eq [OF _ b(2)] by auto
  then show ?thesis using d z b(3) by (intro exI [of _ s'] exI [of _ m']) simp
qed

section \<open>The calls\<close>

lemma port_at_eq:
  assumes "ipc_wf s PL Q" "p \<in> set PL" "number (ports s p) = n"
  shows "port_at s PL n = p" "p \<noteq> NULL"
proof -
  show p: "p \<noteq> NULL" using assms(1,2) by (auto simp: ipc_wf_def dll_def)
  have "\<exists>q. find (\<lambda>q. number (ports s q) = n) PL = Some q"
    using assms(2,3) by (cases "find (\<lambda>q. number (ports s q) = n) PL") (auto simp: find_None_iff)
  then obtain q where q: "find (\<lambda>q. number (ports s q) = n) PL = Some q" by blast
  then have "q \<in> set PL" "number (ports s q) = n" by (auto simp: find_Some_iff)
  then have "q = p" using assms by (auto simp: ipc_wf_def port_numbers_ok_def inj_on_def)
  then show "port_at s PL n = p" by (simp add: port_at_def q)
qed

lemma msgsend_handler_eq:
  assumes "ipc_wf s PL Q" "p \<in> set PL" "number (ports s p) = sint (r_ebx regs)" "\<not> interrupts_enabled s" "checksum msg = message_checksum msg"
  shows "syscall_msgsend_handler kregs regs msg s = msgsend_deliver kregs p msg s"
  using assms(4,5) port_at_eq [OF assms(1-3)] by (simp add: syscall_msgsend_handler_def msgsend_open_def port_get_eq [OF assms(1)])

lemma msgrecv_handler_eq:
  assumes "kernel_inv s R S E PL Q" "p \<in> set PL" "number (ports s p) = sint (r_ebx regs)" "\<not> interrupts_enabled s"
    "receiver (ports s p) = pid_of s (current_task s)" "Q p \<noteq> []"
  shows "syscall_msgrecv_handler kregs regs s = msgrecv_take p (r_ecx regs) (r_edx regs) (r_esi regs) s"
proof -
  have w: "ipc_wf s PL Q" and c: "current_task s \<noteq> NULL" using assms(1) sched_inv_not_null(1) by (auto simp: kernel_inv_def)
  show ?thesis
    using assms(4-6) port_at_eq [OF w assms(2,3)] c
    by (simp add: syscall_msgrecv_handler_def Let_def port_get_eq [OF w] current_task_pid_def msgrecv_wait_def queue_empty_eq [OF w assms(2)] pid_of_def)
qed

section \<open>A machine with a message on its way\<close>

text \<open>
  The three tasks of \<^term>\<open>sample_sched\<close> with two ports: \<open>port_p\<close> is read by \<open>task_a\<close>, which runs, and holds
  a message of \<open>task_b\<close>, which sleeps until the message is received; \<open>port_q\<close> is read by \<open>task_b\<close>.
\<close>

definition port_p :: ptr where "port_p = 0xC0207010"
definition port_q :: ptr where "port_q = 0xC0207050"
definition msg_m :: ptr where "msg_m = 0xC0207090"

definition sample_message :: "int \<Rightarrow> message" where
  "sample_message n = \<lparr>checksum = 0, sender = n, reply_port = 2, code = 7, len = 0, msg_data = []\<rparr>"

definition sample_world :: initrd_state where
  "sample_world =
     \<lparr>eflags = 2, initialized = True, memregions = [sample_region], phys = sample_phys,
        cr3 = 0x205000, cr0 = 0x80010001, paging_enabled = True, current_pagedir_va = 0xC0201000,
        blocks = (\<lambda>_. sample_block 0 0)
          (0xC0200010 := sample_block 0xFE0 0xC0200FF0, 0xC0200FF0 := sample_block 0x2000 0xC0202FF0,
           0xC0202FF0 := sample_block 0x2000 0xC0204FF0, 0xC0204FF0 := sample_block 0x1010 0xC0206000,
           0xC0206000 := sample_block 0x800 0xC0206800, 0xC0206800 := sample_block 0x800 0xC0207000,
           0xC0207000 := sample_block 0x40 0xC0207040, 0xC0207040 := sample_block 0x40 0xC0207080,
           0xC0207080 := sample_block 0x80 0xC0207100, 0xC0207100 := free_block 0x100 0xC0207200, 0xC0207200 := sample_block 0xE00 0),
        canaries = (\<lambda>_. CANARY),
        kheap = \<lparr>heap_head = 0xC0200010, heap_size = 0x8000, heap_max_size = 0x200000, heap_lock_word = 0\<rparr>,
        kheap_addr = 0xC0200000,
        trace_enabled = False, tmaps = (\<lambda>_. \<lparr>tm_frame = 0, tm_flags = 0, tm_address = 0\<rparr>), tlinks = (\<lambda>_. detached), transient_maps = list_init,
        gdt_entries = [], tss = tss sample_machine,
        idt_entries = [], isr_handlers = replicate 256 NULL, irq_handlers = replicate 16 NULL, ports_out = [],
        warn_unhandled = 0, current_timestamp = 1000, ticks = 0, timers = [],
        timer_count = 0, next_timer_id = 0,
        tasks = tasks sample_sched, task_links = (\<lambda>_. detached), ready_queue = list_init, sleeping_queue = \<lparr>head = task_b, tail = task_b\<rparr>,
        exited_queue = list_init, next_pid_value = 3, current_task = task_a, idle_task = task_i,
        running = zero_context, kstacks = (\<lambda>_. K_None)(task_b := K_Send_Done), syscall_handlers = (replicate 80 None)[2 := Some Fn_Msgsend, 3 := Some Fn_Msgrecv],
        ports = (\<lambda>_. \<lparr>number = 0, receiver = 0, queue = list_init, lock = 0\<rparr>)
          (port_p := \<lparr>number = 1, receiver = 0, queue = \<lparr>head = msg_m, tail = msg_m\<rparr>, lock = 0\<rparr>,
           port_q := \<lparr>number = 2, receiver = 2, queue = list_init, lock = 0\<rparr>),
        port_links = (\<lambda>_. detached)(port_p := \<lparr>next_ptr = port_q, prev_ptr = NULL\<rparr>, port_q := \<lparr>next_ptr = NULL, prev_ptr = port_p\<rparr>),
        messages = (\<lambda>_. sample_message 0)(msg_m := stamped 2 (sample_message 2)), msg_links = (\<lambda>_. detached),
        port_list = \<lparr>head = port_p, tail = port_q\<rparr>, port_list_lock = 0, reserved_ports = 6, next_port_value = 32,
        files = (\<lambda>_. \<lparr>if_name = [], if_data = NULL, if_size = 0\<rparr>), file_links = (\<lambda>_. detached), file_bytes = (\<lambda>_. []),
        initrd = list_init, initrd_size = 0, initrd_data = NULL\<rparr>"


definition world_blocks :: "u32 list" where
  "world_blocks = sample_blocks @ [0xC0207000, 0xC0207040, 0xC0207080, 0xC0207100, 0xC0207200]"

lemma sample_world_simps [simp]:
  "current_task sample_world = task_a" "idle_task sample_world = task_i" "next_pid_value sample_world = 3"
  "tasks sample_world = tasks sample_sched" "\<not> interrupts_enabled sample_world" "timer_timestamp sample_world = 1000"
  "vmm_state.truncate sample_world = vmm_state.truncate sample_sched" "tss sample_world = tss sample_sched"
  by (simp_all add: sample_world_def interrupts_enabled_def EFLAGS_IF_def timer_timestamp_def)
    (simp_all add: sample_sched_def vmm_state.truncate_def)

lemma sample_world_blocks_at:
  "blocks sample_world 0xC0200010 = sample_block 0xFE0 0xC0200FF0" "blocks sample_world 0xC0200FF0 = sample_block 0x2000 0xC0202FF0"
  "blocks sample_world 0xC0202FF0 = sample_block 0x2000 0xC0204FF0" "blocks sample_world 0xC0204FF0 = sample_block 0x1010 0xC0206000"
  "blocks sample_world 0xC0206000 = sample_block 0x800 0xC0206800" "blocks sample_world 0xC0206800 = sample_block 0x800 0xC0207000"
  "blocks sample_world 0xC0207000 = sample_block 0x40 0xC0207040" "blocks sample_world 0xC0207040 = sample_block 0x40 0xC0207080"
  "blocks sample_world 0xC0207080 = sample_block 0x80 0xC0207100" "blocks sample_world 0xC0207100 = free_block 0x100 0xC0207200"
  "blocks sample_world 0xC0207200 = sample_block 0xE00 0"
  "heap_head (kheap sample_world) = 0xC0200010" "heap_size (kheap sample_world) = 0x8000" "kheap_addr sample_world = 0xC0200000"
  "canaries sample_world a = CANARY"
  by (simp_all add: sample_world_def)

lemma free_block_good: "16 \<le> unat sz \<Longrightarrow> good_header (free_block sz n)" "\<not> allocated (free_block sz n)"
  "hb_next (free_block sz n) = n" "hb_size (free_block sz n) = sz"
  by (simp_all add: free_block_def good_header_def valid_header_def allocated_def BLOCK_ALLOCATED_def)

lemma sample_world_heap: "heap_wf sample_world world_blocks"
  by (simp add: heap_wf_def sample_world_blocks_at sample_block_good free_block_good sample_blocks_def world_blocks_def)

lemma sample_world_room: "room 92 sample_world"
  unfolding room_def by (intro exI [of _ world_blocks] conjI sample_world_heap bexI [of _ "0xC0207100"])
    (simp_all add: sample_world_blocks_at free_block_good world_blocks_def)

lemma live_pointers: "(\<lambda>b. b + HDR) ` fst ` live s bs = set (map (\<lambda>b. b + HDR) (filter (\<lambda>b. allocated (blocks s b)) bs))"
  by (force simp: live_def)

lemma sample_world_owns:
  "owns sample_world {task_a, 0xC0201000, 0xC0203000, 0xC0205000, task_b, task_i, port_p, port_q, msg_m}" (is "owns _ ?P")
proof -
  let ?L = "set [task_a, 0xC0201000, 0xC0203000, 0xC0205000, task_b, task_i, port_p, port_q, msg_m, 0xC0207210]"
  have "filter (\<lambda>b. allocated (blocks sample_world b)) world_blocks = sample_blocks @ [0xC0207000, 0xC0207040, 0xC0207080, 0xC0207200]"
    by (simp add: world_blocks_def sample_blocks_def sample_world_blocks_at sample_block_good free_block_good)
  then have "(\<lambda>b. b + HDR) ` fst ` live sample_world world_blocks = ?L"
    unfolding live_pointers by (simp add: sample_blocks_def HDR_def task_a_def task_b_def task_i_def port_p_def port_q_def msg_m_def)
  then have "heap_inv sample_world ?L world_blocks"
    using sample_world_heap by (simp add: heap_inv_def) (simp add: sample_world_def)
  moreover have "?P \<subseteq> ?L" by (simp only: list.set, blast)
  ultimately show ?thesis
    using dll_init unfolding owns_def kheap_inv_def
    by (intro exI [of _ ?L] exI [of _ "[]"]) (simp only: list.map list.set image_empty, simp add: sample_world_def, blast?)
qed

abbreviation world_queues :: "ptr \<Rightarrow> ptr list" where
  "world_queues \<equiv> (\<lambda>_. [])(port_p := [msg_m])"

lemma world_distinct: "distinct [task_a, task_b, task_i, 0xC0201000, 0xC0203000, 0xC0205000, port_p, port_q, msg_m, NULL]"
  by (simp add: task_a_def task_b_def task_i_def port_p_def port_q_def msg_m_def)

lemma world_ports [simp]:
  "number (ports sample_world port_p) = 1" "number (ports sample_world port_q) = 2"
  "receiver (ports sample_world port_p) = 0" "receiver (ports sample_world port_q) = 2"
  "lock (ports sample_world port_p) = 0" "lock (ports sample_world port_q) = 0" "port_list_lock sample_world = 0"
  "messages sample_world msg_m = stamped 2 (sample_message 2)"
  using world_distinct by (simp_all add: sample_world_def)

lemma sample_world_ipc: "ipc_wf sample_world [port_p, port_q] world_queues"
proof -
  have "msg_ok (stamped 2 (sample_message 2))" by (simp add: msg_ok_def stamped_def Let_def) (simp add: sample_message_def SIZEOF_MESSAGE_def)
  moreover have "dll (port_links sample_world) (port_list sample_world) [port_p, port_q]"
    "dll (msg_links sample_world) (queue (ports sample_world port_p)) [msg_m]"
    "dll (msg_links sample_world) (queue (ports sample_world port_q)) []"
    using world_distinct dll_init by (auto simp: dll_def detached_def sample_world_def list_init_def)
  moreover have "port_numbers_ok sample_world [port_p, port_q]"
    by (simp add: port_numbers_ok_def inj_on_def) (simp add: sample_world_def bit_numeral_rec)
  ultimately show ?thesis
    using world_distinct by (auto simp: ipc_wf_def msgs_of_def)
qed

lemma sample_world_inv: "kernel_inv sample_world [] [task_b] [] [port_p, port_q] world_queues"
proof -
  have T: "all_tasks [] [task_b] [] {task_a, task_i} = {task_a, task_b, task_i}" by (auto simp: all_tasks_def)
  have o: "owns sample_world {task_a, task_b, task_i, 0xC0201000, 0xC0203000, 0xC0205000}"
    by (rule owns_subset [OF sample_world_owns]) auto
  have "tasks_ok sample_world {task_a, task_b, task_i}"
    using o world_distinct by (simp add: tasks_ok_def pid_of_def dir_of_def sample_task_def insert_commute)
  moreover have "queues sample_world [] [task_b] [] {task_a, task_i}"
    using world_distinct dll_init by (auto simp: queues_def linkable_def dll_def detached_def list_init_def sample_world_def)
  ultimately have "sched_inv sample_world [] [task_b] []" by (simp add: sched_inv_def sched_wf_def T)
  moreover have "sched_blocks sample_world [] [task_b] [] = {task_a, task_b, task_i, 0xC0201000, 0xC0203000, 0xC0205000}"
    by (simp add: sched_blocks_def T dir_of_def sample_task_def insert_commute)
  moreover have "ipc_blocks [port_p, port_q] world_queues = {port_p, port_q, msg_m}"
    using world_distinct by (auto simp: ipc_blocks_def msgs_of_def)
  ultimately show ?thesis
    using sample_world_ipc sample_world_owns world_distinct by (simp add: kernel_inv_def insert_commute msgs_of_def)
qed

section \<open>Properties\<close>


text \<open>
  C5: a receiver that calls \<open>msgrecv\<close> on its port gets the oldest message of the queue, byte for byte and
  with its size when it asks for it; the message leaves the queue, the sender, which sleeps, goes to the end of the ready
  queue, and every other message and task keeps its place. With a buffer that is too small the
  call returns 3 and changes nothing. Interrupts are off, as in every system call.
\<close>

theorem msgrecv_delivers_oldest:
  assumes "kernel_inv s R S E PL Q" "\<not> interrupts_enabled s" "p \<in> set PL" "number (ports s p) = sint (r_ebx regs)"
    "receiver (ports s p) = pid_of s (current_task s)" "Q p = m # ms" "t \<in> set S" "pid_of s t = sender (messages s m)"
  shows "if unat (r_edx regs) \<ge> 28 + unat (len (messages s m))
    then \<exists>s'. syscall_msgrecv_handler kregs regs s =
        Inr (Return 0 ((if r_esi regs = NULL then [] else [Write_Word (r_esi regs) (28 + len (messages s m))])
          @ [Write_Message (r_ecx regs) (messages s m)]), s')
      \<and> kernel_inv s' (R @ [t]) (remove1 t S) E PL (Q(p := ms))
    else syscall_msgrecv_handler kregs regs s =
        Inr (Return 3 (if r_esi regs = NULL then [] else [Write_Word (r_esi regs) (28 + len (messages s m))]), s)"
proof -
  have w: "ipc_wf s PL Q" using assms(1) by (simp add: kernel_inv_def)
  have "unat SIZEOF_MESSAGE + unat (len (messages s m)) + 64 < 2 ^ 32" using queue_head(2) [OF w assms(3,6)] by (simp add: msg_ok_def)
  then have n: "unat (SIZEOF_MESSAGE + len (messages s m)) = 28 + unat (len (messages s m))" by (simp add: unat_add32 SIZEOF_MESSAGE_def)
  have e: "syscall_msgrecv_handler kregs regs s = msgrecv_take p (r_ecx regs) (r_edx regs) (r_esi regs) s"
    by (rule msgrecv_handler_eq [OF assms(1,3,4,2,5)]) (simp add: assms(6))
  have c: "SIZEOF_MESSAGE + len (messages s m) \<le> r_edx regs \<longleftrightarrow> unat (r_edx regs) \<ge> 28 + unat (len (messages s m))"
    by (simp add: n word_le_nat_alt)
  have z: "size_report (r_esi regs) (messages s m) =
      (if r_esi regs = NULL then [] else [Write_Word (r_esi regs) (28 + len (messages s m))])"
    by (simp add: size_report_def SIZEOF_MESSAGE_def)
  show ?thesis
  proof (cases "SIZEOF_MESSAGE + len (messages s m) \<le> r_edx regs")
    case True
    from msgrecv_take_total [OF assms(1,3,6) this assms(2,7,8), of "r_ecx regs" "r_esi regs"] True
    show ?thesis unfolding c z e by (simp only: if_True)
  next
    case False
    with msgrecv_take_eq [OF assms(1,3,6), of "r_ecx regs" "r_edx regs" "r_esi regs"]
    show ?thesis unfolding c z e by (simp only: if_False)
  qed
qed

text \<open>
  C6: \<open>msgsend\<close> to an open port puts a copy of the message at the end of the queue of the port,
  with the process id of the caller as sender and a checksum that is right again, changes no other message, moves the
  receiver, which sleeps, to the end of the ready queue, puts the caller to sleep until it is woken and gives the
  processor to the next task. The message has the checksum the library computes, the
  heap has a free block for the copy, and the next task can be switched to.
\<close>

theorem msgsend_queues_last:
  assumes "kernel_inv s R S E PL Q" "\<not> interrupts_enabled s" "p \<in> set PL" "number (ports s p) = sint (r_ebx regs)"
    and "checksum msg = message_checksum msg" "unat (len msg) < 0xC0000000" "room (92 + len msg) s"
    and "t \<in> set S" "pid_of s t = receiver (ports s p)" "current_task s \<noteq> idle_task s" "next_pid_value s \<le> 32" "regs_ok kregs"
    and "next_task s (R @ [t]) (remove1 t S) = (u, R', S')" "switchable u s" "timer_timestamp s < timer_timestamp s + ucast SLEEP_INFINITE"
  shows "\<exists>s' m. syscall_msgsend_handler kregs regs msg s = Inr (Away, s')
    \<and> kernel_inv s' R' (S' @ [current_task s]) E PL (Q(p := Q p @ [m]))
    \<and> messages s' m = (let copy = msg\<lparr>sender := pid_of s (current_task s)\<rparr> in copy\<lparr>checksum := message_checksum copy\<rparr>)
    \<and> (\<forall>x. x \<noteq> m \<longrightarrow> messages s' x = messages s x) \<and> m \<notin> set (msgs_of PL Q) \<and> current_task s' = u
    \<and> kstacks s' = (kstacks s)(current_task s := K_Send_Done)"
proof -
  have w: "ipc_wf s PL Q" using assms(1) by (simp add: kernel_inv_def)
  have r: "room (SIZEOF_MESSAGE + len msg + 64) s" using assms(7) by (simp add: SIZEOF_MESSAGE_def add.commute add.left_commute)
  have l: "unat (len msg) + 160 < 2 ^ 32" using assms(6) by simp
  from msgsend_deliver_total [OF assms(1,3,10,2,11,12) r l assms(5,8,9,13-15)]
  show ?thesis unfolding msgsend_handler_eq [OF w assms(3,4,2,5)] stamped_def by blast
qed

text \<open>
  C29: a task that waits in \<open>msgsend\<close> for its message to be received returns with success
  although the message is still in the queue, when another task sends it a message first: \<open>msgsend\<close> wakes the receiver of the
  port, whatever that task waits for, and a task that is woken in \<open>msgsend\<close> returns 0 without a
  look at its message. The comment in the code says that the receiver wakes the sender after
  \<open>msgrecv\<close> on its message.
\<close>

theorem msgsend_returns_before_receipt:
  assumes "kernel_inv s R S E PL Q" "\<not> interrupts_enabled s" "p \<in> set PL" "number (ports s p) = sint (r_ebx regs)"
    and "checksum msg = message_checksum msg" "unat (len msg) < 0xC0000000" "room (92 + len msg) s"
    and "t \<in> set S" "pid_of s t = receiver (ports s p)" "current_task s \<noteq> idle_task s" "next_pid_value s \<le> 32" "regs_ok kregs"
    and "next_task s (R @ [t]) (remove1 t S) = (t, R', S')" "switchable t s" "timer_timestamp s < timer_timestamp s + ucast SLEEP_INFINITE"
    and "kstacks s t = K_Send_Done" "q \<in> set PL" "m \<in> set (Q q)" "sender (messages s m) = pid_of s t"
  shows "\<exists>s' s'' Q'. syscall_msgsend_handler kregs regs msg s = Inr (Away, s') \<and> current_task s' = t
    \<and> resume kregs' s' = Inr (Return 0 [], s'')
    \<and> ipc_wf s'' PL Q' \<and> m \<in> set (Q' q) \<and> messages s'' m = messages s m"
proof -
  have w: "ipc_wf s PL Q" using assms(1) by (simp add: kernel_inv_def)
  have r: "room (SIZEOF_MESSAGE + len msg + 64) s" using assms(7) by (simp add: SIZEOF_MESSAGE_def add.commute add.left_commute)
  have l: "unat (len msg) + 160 < 2 ^ 32" using assms(6) by simp
  obtain s' n where d: "msgsend_deliver kregs p msg s = Inr (Away, s')" "kernel_inv s' R' (S' @ [current_task s]) E PL (Q(p := Q p @ [n]))"
      "n \<notin> set (msgs_of PL Q)" "\<forall>x. x \<noteq> n \<longrightarrow> messages s' x = messages s x" "current_task s' = t"
      "kstacks s' = (kstacks s)(current_task s := K_Send_Done)"
    using msgsend_deliver_total [OF assms(1,3,10,2,11,12) r l assms(5,8,9,13-15)] by blast
  have k: "kstacks s' t = K_Send_Done" using d(6) assms(16) by simp
  let ?s = "s'\<lparr>kstacks := (kstacks s')(t := K_None)\<rparr>"
  have "m \<in> set (msgs_of PL Q)" using assms(17,18) by (auto simp: msgs_of_def)
  then have m: "messages ?s m = messages s m" using d(3,4) by auto
  have "ipc_wf ?s PL (Q(p := Q p @ [n]))" using d(2) by (simp add: kernel_inv_def ipc_wf_def port_numbers_ok_def)
  moreover have "resume kregs' s' = Inr (Return 0 [], ?s)" using k d(5) by (simp add: resume_def)
  moreover have "m \<in> set ((Q(p := Q p @ [n])) q)" using assms(18) by auto
  ultimately show ?thesis using d(1,5) m unfolding msgsend_handler_eq [OF w assms(3,4,2,5)] by blast
qed

section \<open>Instances\<close>

definition recv_regs :: isr_regs where
  "recv_regs = sample_regs\<lparr>r_eax := 3, r_ebx := 1, r_ecx := 0x500000, r_edx := 64, r_esi := 0x600000\<rparr>"

definition send_regs :: isr_regs where "send_regs = sample_regs\<lparr>r_eax := 2, r_ebx := 2, r_ecx := 0x500000\<rparr>"

definition kernel_regs :: isr_regs where "kernel_regs = sample_regs\<lparr>r_cs := KERNEL_CODE_SEG\<rparr>"

lemma world_pids [simp]: "pid_of sample_world task_a = 0" "pid_of sample_world task_b = 2"
  by (simp_all add: pid_of_def sample_task_def)

lemma sample_message_len [simp]: "len (sample_message k) = 0" "sender (stamped n msg) = n"
  by (simp_all add: stamped_def sample_message_def Let_def)

theorem msgrecv_delivers_oldest_witness:
  "\<exists>s'. syscall_msgrecv_handler kernel_regs recv_regs sample_world =
      Inr (Return 0 [Write_Word 0x600000 28, Write_Message 0x500000 (stamped 2 (sample_message 2))], s')
    \<and> kernel_inv s' [task_b] [] [] [port_p, port_q] (world_queues(port_p := []))"
proof -
  have r: "r_ebx recv_regs = 1" "r_ecx recv_regs = 0x500000" "r_edx recv_regs = 64" "r_esi recv_regs = 0x600000" by (simp_all add: recv_regs_def)
  from msgrecv_delivers_oldest [OF sample_world_inv, of port_p recv_regs msg_m "[]" task_b kernel_regs]
  show ?thesis unfolding r by simp
qed

lemma world_switchable: "switchable task_b sample_world"
  using sample_switchable(1) switchable_cong [of sample_world sample_sched task_b] by simp

lemma world_next: "next_task sample_world ([] @ [task_b]) (remove1 task_b [task_b]) = (task_b, [], [])"
  by (simp add: next_task_def)

lemma kernel_regs_ok: "regs_ok kernel_regs"
  by (simp add: regs_ok_def kernel_regs_def KERNEL_CODE_SEG_def)

lemma world_clock: "timer_timestamp sample_world < timer_timestamp sample_world + ucast SLEEP_INFINITE"
  by (simp add: SLEEP_INFINITE_def)

lemma prepared_message: "checksum (stamped n (sample_message k)) = message_checksum (stamped n (sample_message k))"
  by (simp add: stamped_def Let_def)

lemma send_port: "number (ports sample_world port_q) = sint (r_ebx send_regs)"
  by (simp add: send_regs_def)

theorem msgsend_queues_last_witness:
  "\<exists>s' m. syscall_msgsend_handler kernel_regs send_regs (stamped 0 (sample_message 0)) sample_world = Inr (Away, s')
    \<and> kernel_inv s' [] [task_a] [] [port_p, port_q] (world_queues(port_q := [m]))
    \<and> messages s' m = stamped 0 (stamped 0 (sample_message 0)) \<and> current_task s' = task_b"
proof -
  have "current_task sample_world \<noteq> idle_task sample_world" "port_q \<noteq> port_p" using world_distinct by auto
  with msgsend_queues_last [OF sample_world_inv _ _ send_port prepared_message _ _ _ _ _ _ kernel_regs_ok world_next world_switchable world_clock, of 0 0]
    sample_world_room
  show ?thesis by (auto simp: stamped_def [of _ "stamped _ _"])
qed

theorem msgsend_returns_before_receipt_witness:
  "\<exists>s' s'' Q'. syscall_msgsend_handler kernel_regs send_regs (stamped 0 (sample_message 0)) sample_world = Inr (Away, s')
    \<and> current_task s' = task_b \<and> resume kernel_regs s' = Inr (Return 0 [], s'')
    \<and> ipc_wf s'' [port_p, port_q] Q' \<and> msg_m \<in> set (Q' port_p) \<and> messages s'' msg_m = stamped 2 (sample_message 2)"
proof -
  have "current_task sample_world \<noteq> idle_task sample_world" "port_q \<noteq> port_p" "kstacks sample_world task_b = K_Send_Done"
    using world_distinct by (auto simp: sample_world_def)
  with msgsend_returns_before_receipt [OF sample_world_inv _ _ send_port prepared_message _ _ _ _ _ _ kernel_regs_ok world_next world_switchable
      world_clock, of 0 0 port_p msg_m kernel_regs] sample_world_room
  show ?thesis by auto
qed

lemma sample_world_ok: "kernel_ok sample_world"
  by (rule kernel_okI [OF sample_world_inv]) (simp add: conts_ok_def sample_world_def)

text \<open>The running task receives the message by a system call.\<close>

lemma world_receives: obtains r s' where "syscall_handler kernel_regs recv_regs (sample_message 0) [] sample_world = Inr (r, s')"
proof -
  have i: "sched_inv sample_world [] [task_b] []" using sample_world_inv by (simp add: kernel_inv_def)
  have "regs_ok recv_regs" by (simp add: regs_ok_def recv_regs_def sample_regs_def USER_CODE_SEG_def)
  then obtain u where u: "enter_syscall recv_regs sample_world = Inr u" using enter_syscall_total [OF i] by auto
  then obtain f where f: "keeps_identity f" "u = upd_task task_a f sample_world" by (auto elim: enter_syscall_upd)
  have k: "kernel_inv u [] [task_b] [] [port_p, port_q] world_queues" unfolding f(2) by (rule kernel_inv_upd_task [OF f(1) sample_world_inv])
  have e: "\<not> interrupts_enabled u" "ports u = ports sample_world" "messages u = messages sample_world" "pid_of u = pid_of sample_world"
      "current_task u = task_a"
    using upd_task_of [OF f(1), of task_a sample_world] by (simp_all add: f(2)) (simp_all add: upd_task_def interrupts_enabled_def sample_world_def EFLAGS_IF_def)
  have r: "r_ebx recv_regs = 1" "r_edx recv_regs = 64" "r_eax recv_regs = 3" by (simp_all add: recv_regs_def)
  have h: "syscall_msgrecv_handler kernel_regs recv_regs u = msgrecv_take port_p (r_ecx recv_regs) (r_edx recv_regs) (r_esi recv_regs) u"
    by (rule msgrecv_handler_eq [OF k]) (simp_all add: e r)
  obtain w s' where s': "msgrecv_take port_p (r_ecx recv_regs) (r_edx recv_regs) (r_esi recv_regs) u = Inr (Return 0 w, s')"
      "kernel_inv s' ([] @ [task_b]) (remove1 task_b [task_b]) [] [port_p, port_q] (world_queues(port_p := []))"
    using msgrecv_take_total [OF k, of port_p msg_m "[]" "r_edx recv_regs" task_b "r_ecx recv_regs" "r_esi recv_regs"] e by (auto simp: r SIZEOF_MESSAGE_def)
  have c: "kernel_heap_check s' = Inr ()" by (rule heap_check_passes [OF owns_of_kernel_inv [OF s'(2)]])
  have "syscall_handlers sample_world ! 3 = Some Fn_Msgrecv" "length (syscall_handlers sample_world) = 80" by (simp_all add: sample_world_def)
  then show thesis
    by (intro that) (simp add: syscall_handler_def Let_def r u h s'(1) [unfolded r] returned_def c)
qed


end
