(* ===== verification/Spec2Isabelle.thy ===== *)
theory Spec2Isabelle
  imports Util LinkedList ElfLoad KernelProps
begin

text \<open>
  A model of the rastapopoulos kernel and the properties that make its
  components correct.
\<close>

end
